(* ===== verification/Prelude.thy ===== *)
theory Prelude imports Main "HOL-Library.Word" begin

unbundle bit_operations_syntax

text \<open>
  What every component of the development shares: the names of the machine types, the
  collections of simplification rules (\<open>bit_facts\<close> for the bit tests of the mutex word,
  \<open>upd_facts\<close> for reading a record of the state after an update), and generic
  lemmas on words, sums and lists.
\<close>

section \<open>Machine types\<close>

text \<open>
  \<open>unsigned int\<close> and \<open>int\<close> are 32 bits wide and \<open>unsigned long long\<close> is 64 bits wide on
  the platforms the Makefile builds for (Linux, gcc). Threads are numbered.
\<close>

type_synonym u32 = "32 word"
type_synonym u64 = "64 word"
type_synonym tid = nat

named_theorems bit_facts
named_theorems upd_facts

section \<open>Words\<close>

text \<open>The mutex word only ever holds two bits; the tests of the code on such words.\<close>

lemma two_bits_cases:
  fixes w :: u32
  assumes "w < 4"
  obtains "w = 0" | "w = 1" | "w = 2" | "w = 3"
proof -
  have "unat w < 4" using assms by (simp add: word_less_nat_alt)
  then have "unat w = unat (0::u32) \<or> unat w = unat (1::u32) \<or>
      unat w = unat (2::u32) \<or> unat w = unat (3::u32)"
    by simp linarith
  then have "w = 0 \<or> w = 1 \<or> w = 2 \<or> w = 3"
    by (simp only: word_unat_eq_iff)
  with that show ?thesis by blast
qed

lemma of_nat_word_Suc_neq:
  "(of_nat (Suc n) :: 'a::len word) \<noteq> of_nat n"
  by simp

section \<open>Functions updated at one point\<close>

text \<open>
  The state of the threads is a function of the thread; a step changes it at one or two
  points. Quantified facts and sums split into the changed point and the rest.
\<close>

lemma ex_point: "(\<exists>u. P (f u)) \<longleftrightarrow> P (f t) \<or> (\<exists>u. u \<noteq> t \<and> P (f u))"
  by metis

lemma ex_upd: "(\<exists>u. P ((f(t := x)) u)) \<longleftrightarrow> P x \<or> (\<exists>u. u \<noteq> t \<and> P (f u))"
  by (metis fun_upd_other fun_upd_same)

lemma sum_upd:
  fixes g :: "'b \<Rightarrow> nat"
  assumes "finite A" and "t \<in> A"
  shows "(\<Sum>u\<in>A. g ((f(t := x)) u)) + g (f t) = (\<Sum>u\<in>A. g (f u)) + g x"
proof -
  have "(\<Sum>u\<in>A. g ((f(t := x)) u)) = g x + (\<Sum>u\<in>A - {t}. g ((f(t := x)) u))"
    using assms by (simp add: sum.remove)
  also have "(\<Sum>u\<in>A - {t}. g ((f(t := x)) u)) = (\<Sum>u\<in>A - {t}. g (f u))"
    by (rule sum.cong) auto
  finally show ?thesis
    using assms by (simp add: sum.remove [of A t "\<lambda>u. g (f u)"])
qed

section \<open>Small ranges\<close>

named_theorems small_ranges

lemma all_less_small [small_ranges]:
  "(\<forall>t<(1::nat). P t) \<longleftrightarrow> P 0"
  "(\<forall>t<(2::nat). P t) \<longleftrightarrow> P 0 \<and> P 1"
  "(\<forall>t<(3::nat). P t) \<longleftrightarrow> P 0 \<and> P 1 \<and> P 2"
  "(\<forall>t<(4::nat). P t) \<longleftrightarrow> P 0 \<and> P 1 \<and> P 2 \<and> P 3"
  by (auto simp: numeral_eq_Suc less_Suc_eq)

lemma sum_less_small [small_ranges]:
  fixes f :: "nat \<Rightarrow> nat"
  shows "(\<Sum>t<1. f t) = f 0" "(\<Sum>t<2. f t) = f 0 + f 1" "(\<Sum>t<3. f t) = f 0 + f 1 + f 2"
  by (simp_all add: numeral_2_eq_2 numeral_3_eq_3)

section \<open>Two-dimensional arrays, flattened\<close>

lemma length_concat_grid:
  "\<forall>i < n. length (f i) = c \<Longrightarrow> length (concat (map f [0..<n])) = n * c"
  by (induction n) auto

lemma nth_concat_grid:
  assumes "\<forall>i < n. length (f i) = c" and "i < n" and "k < c"
  shows "concat (map f [0..<n]) ! (i * c + k) = f i ! k"
  using assms
proof (induction n)
  case (Suc n)
  then have len: "length (concat (map f [0..<n])) = n * c" by (intro length_concat_grid) simp
  show ?case
  proof (cases "i = n")
    case True
    with Suc.prems show ?thesis by (simp add: nth_append len)
  next
    case False
    then have "i < n" using Suc.prems by simp
    then have "i * c + k < n * c"
      using Suc.prems(3) by (metis add.commute add_less_cancel_left less_le_trans mult.commute
        mult_Suc_right mult_le_mono2 Suc_leI)
    with Suc \<open>i < n\<close> show ?thesis by (simp add: nth_append len)
  qed
qed simp

section \<open>Numbers as text\<close>

text \<open>What printf writes for %d.\<close>

fun show_nat :: "nat \<Rightarrow> string" where
  "show_nat n = (if n < 10 then [''0123456789'' ! n] else show_nat (n div 10) @ [''0123456789'' ! (n mod 10)])"

declare show_nat.simps [simp del]

definition show_int :: "int \<Rightarrow> string" where
  "show_int i = (if i < 0 then CHR ''-'' # show_nat (nat (- i)) else show_nat (nat i))"

text \<open>What glibc writes for %p.\<close>

fun show_hex :: "nat \<Rightarrow> string" where
  "show_hex n = (if n < 16 then [''0123456789abcdef'' ! n] else show_hex (n div 16) @ [''0123456789abcdef'' ! (n mod 16)])"

declare show_hex.simps [simp del]

definition show_ptr :: "nat \<Rightarrow> string" where
  "show_ptr p = (if p = 0 then ''(nil)'' else ''0x'' @ show_hex p)"

end
