(* ===== verification/Transition.thy ===== *)
theory Transition imports Prelude begin

text \<open>
  Transition systems, as the concurrent components use them: the states a system can reach
  from its initial states (\<open>reach\<close>), a scheduler's run of an executable step function
  (\<open>exec\<close>), and the contracts a component discharges to get the lemmas about all of its
  reachable states: an inductive invariant (\<open>invariant_of\<close>), a simulation of an abstract
  system (\<open>simulates\<close>), one with an invariant of its own (\<open>specified\<close>), an executable step function that agrees with the step relation
  (\<open>executable\<close>) and a measure that falls along a class of steps (\<open>descends\<close>), with which no
  run of such steps is endless and every run that may pause settles.
\<close>

section \<open>Reachable states\<close>

inductive reach :: "('s \<Rightarrow> bool) \<Rightarrow> ('s \<Rightarrow> 'e \<Rightarrow> 's \<Rightarrow> bool) \<Rightarrow> 's \<Rightarrow> bool"
  for Init :: "'s \<Rightarrow> bool" and Step :: "'s \<Rightarrow> 'e \<Rightarrow> 's \<Rightarrow> bool" where
  reach_start: "Init s \<Longrightarrow> reach Init Step s"
| reach_step: "reach Init Step s \<Longrightarrow> Step s e s' \<Longrightarrow> reach Init Step s'"

lemma run_reach:
  assumes "reach Init Step (f 0)" and "\<And>i. f (Suc i) = f i \<or> (\<exists>e. Step (f i) e (f (Suc i)))"
  shows "reach Init Step (f i)"
proof (induction i)
  case (Suc i)
  with assms(2) [of i] show ?case by (auto intro: reach_step)
qed (rule assms(1))

text \<open>From every state there is a run that goes on as long as a step of a class is possible.\<close>

lemma maximal_run:
  "\<exists>f. f 0 = s \<and> (\<forall>i. (\<exists>e. P e \<and> Step (f i) e (f (Suc i))) \<or>
     f (Suc i) = f i \<and> \<not> (\<exists>e s'. P e \<and> Step (f i) e s'))"
proof -
  have "\<forall>s. \<exists>s'. (\<exists>e. P e \<and> Step s e s') \<or> s' = s \<and> \<not> (\<exists>e s'. P e \<and> Step s e s')" by blast
  then obtain g where "\<forall>s. (\<exists>e. P e \<and> Step s e (g s)) \<or> g s = s \<and> \<not> (\<exists>e s'. P e \<and> Step s e s')" by metis
  then show ?thesis by (intro exI [of _ "\<lambda>i. (g ^^ i) s"]) simp
qed

text \<open>A schedule is a list of events; the step function may refuse an event (\<open>None\<close>).\<close>

fun exec :: "('s \<Rightarrow> 'e \<Rightarrow> 's option) \<Rightarrow> 's \<Rightarrow> 'e list \<Rightarrow> 's option" where
  "exec f s [] = Some s"
| "exec f s (e # es) = (case f s e of None \<Rightarrow> None | Some s' \<Rightarrow> exec f s' es)"

lemma exec_append:
  "exec f s (es @ ds) = (case exec f s es of None \<Rightarrow> None | Some s' \<Rightarrow> exec f s' ds)"
  by (induction es arbitrary: s) (auto split: option.splits)

section \<open>Contracts\<close>

locale invariant_of =
  fixes Init :: "'s \<Rightarrow> bool"
    and Step :: "'s \<Rightarrow> 'e \<Rightarrow> 's \<Rightarrow> bool"
    and Inv :: "'s \<Rightarrow> bool"
  assumes inv_start: "Init s \<Longrightarrow> Inv s"
    and inv_step: "Inv s \<Longrightarrow> Step s e s' \<Longrightarrow> Inv s'"
begin

lemma reach_inv: "reach Init Step s \<Longrightarrow> Inv s"
  by (induction rule: reach.induct) (auto intro: inv_start inv_step)

end

text \<open>
  A forward simulation: every step of the system, with the label \<open>lab\<close> gives it, is a step
  of the abstract system between the abstractions. The invariant may be used to show it.
\<close>

locale simulates = invariant_of Init Step Inv
  for Init :: "'s \<Rightarrow> bool" and Step :: "'s \<Rightarrow> 'e \<Rightarrow> 's \<Rightarrow> bool" and Inv :: "'s \<Rightarrow> bool" +
  fixes AInit :: "'a \<Rightarrow> bool"
    and AStep :: "'a \<Rightarrow> 'f \<Rightarrow> 'a \<Rightarrow> bool"
    and abs :: "'s \<Rightarrow> 'a"
    and lab :: "'s \<Rightarrow> 'e \<Rightarrow> 's \<Rightarrow> 'f"
  assumes abs_start: "Init s \<Longrightarrow> AInit (abs s)"
    and abs_step: "Inv s \<Longrightarrow> Step s e s' \<Longrightarrow> AStep (abs s) (lab s e s') (abs s')"
begin

lemma reach_abs_step:
  "reach Init Step s \<Longrightarrow> Step s e s' \<Longrightarrow> AStep (abs s) (lab s e s') (abs s')"
  by (rule abs_step [OF reach_inv])

lemma reach_abs: "reach Init Step s \<Longrightarrow> reach AInit AStep (abs s)"
proof (induction rule: reach.induct)
  case (reach_start s)
  then show ?case by (intro reach.reach_start abs_start)
next
  case (reach_step s e s')
  from reach_step.IH reach_abs_step [OF reach_step.hyps] show ?case
    by (rule reach.reach_step)
qed

end

text \<open>
  With an invariant of the abstract system every reachable state of the system has an
  abstraction that satisfies it: the abstract system is where safety is proved.
\<close>

locale specified = simulates Init Step Inv AInit AStep abs lab + spec: invariant_of AInit AStep AInv
  for Init :: "'s \<Rightarrow> bool" and Step :: "'s \<Rightarrow> 'e \<Rightarrow> 's \<Rightarrow> bool" and Inv :: "'s \<Rightarrow> bool"
    and AInit :: "'a \<Rightarrow> bool" and AStep :: "'a \<Rightarrow> 'f \<Rightarrow> 'a \<Rightarrow> bool"
    and abs :: "'s \<Rightarrow> 'a" and lab :: "'s \<Rightarrow> 'e \<Rightarrow> 's \<Rightarrow> 'f" and AInv :: "'a \<Rightarrow> bool"
begin

lemma reach_spec_inv: "reach Init Step s \<Longrightarrow> AInv (abs s)"
  by (rule spec.reach_inv [OF reach_abs])

end

sublocale specified \<subseteq> both: invariant_of Init Step "\<lambda>s. Inv s \<and> AInv (abs s)"
proof unfold_locales
  show "Inv s \<and> AInv (abs s)" if "Init s" for s
    using that by (simp add: inv_start abs_start spec.inv_start)
  show "Inv s' \<and> AInv (abs s')" if "Inv s \<and> AInv (abs s)" "Step s e s'" for s e s'
    using that by (blast intro: inv_step abs_step spec.inv_step)
qed

locale executable =
  fixes Step :: "'s \<Rightarrow> 'e \<Rightarrow> 's \<Rightarrow> bool"
    and nxt :: "'s \<Rightarrow> 'e \<Rightarrow> 's option"
  assumes nxt_step: "nxt s e = Some s' \<longleftrightarrow> Step s e s'"
begin

lemma exec_reach:
  "reach Init Step s \<Longrightarrow> exec nxt s es = Some s' \<Longrightarrow> reach Init Step s'"
proof (induction es arbitrary: s)
  case Nil
  then show ?case by simp
next
  case (Cons e es)
  then obtain s1 where "nxt s e = Some s1" and "exec nxt s1 es = Some s'"
    by (auto split: option.splits)
  from reach_step [OF Cons.prems(1) nxt_step [THEN iffD1, OF \<open>nxt s e = Some s1\<close>]]
  show ?case using \<open>exec nxt s1 es = Some s'\<close> by (rule Cons.IH)
qed

end

text \<open>Steps of a class (those \<open>P\<close> selects) that lower a well-founded measure run out.\<close>

locale descends = invariant_of Init Step Inv
  for Init :: "'s \<Rightarrow> bool" and Step :: "'s \<Rightarrow> 'e \<Rightarrow> 's \<Rightarrow> bool" and Inv :: "'s \<Rightarrow> bool" +
  fixes P :: "'e \<Rightarrow> bool"
    and r :: "('m \<times> 'm) set"
    and rank :: "'s \<Rightarrow> 'm"
  assumes wf_rank: "wf r"
    and rank_step: "Inv s \<Longrightarrow> Step s e s' \<Longrightarrow> P e \<Longrightarrow> (rank s', rank s) \<in> r"
begin

lemma no_endless_run:
  assumes "Inv (f 0)" and "\<And>i. Step (f i) (ev i) (f (Suc i))" and "\<And>i. P (ev i)"
  shows False
proof -
  have inv: "Inv (f i)" for i
    by (induction i) (use assms(1) in simp, rule inv_step [OF _ assms(2)])
  have "(rank (f (Suc i)), rank (f i)) \<in> r" for i
    using inv assms(2,3) by (rule rank_step)
  then have "\<exists>g. \<forall>i. (g (Suc i), g i) \<in> r"
    by (intro exI [of _ "\<lambda>i. rank (f i)"]) simp
  with wf_rank show False
    by (simp add: wf_iff_no_infinite_down_chain)
qed

text \<open>A run that may pause between the steps of the class comes to a stop.\<close>

lemma settles:
  assumes "Inv (f 0)" and run: "\<And>i. f (Suc i) = f i \<or> (\<exists>e. Step (f i) e (f (Suc i)) \<and> P e)"
  shows "\<exists>n. \<forall>i\<ge>n. f i = f n"
proof -
  have inv: "Inv (f i)" for i
  proof (induction i)
    case (Suc i)
    with run [of i] inv_step [of "f i"] show ?case by auto
  qed (rule assms(1))
  have "\<exists>n. \<forall>i\<ge>n. f i = f n" if "m = rank (f k)" for m k
    using wf_rank that
  proof (induction m arbitrary: k rule: wf_induct_rule)
    case (less m)
    show ?case
    proof (cases "\<exists>j\<ge>k. f (Suc j) \<noteq> f j")
      case False
      have "f i = f k" if "k \<le> i" for i
        using that by (induction rule: dec_induct) (use False in auto)
      then show ?thesis by blast
    next
      case True
      define j where "j = (LEAST j. k \<le> j \<and> f (Suc j) \<noteq> f j)"
      have j: "k \<le> j" "f (Suc j) \<noteq> f j"
        using LeastI_ex [of "\<lambda>j. k \<le> j \<and> f (Suc j) \<noteq> f j"] True by (auto simp: j_def)
      have pause: "f (Suc i) = f i" if "k \<le> i" "i < j" for i
        using not_less_Least [of i "\<lambda>j. k \<le> j \<and> f (Suc j) \<noteq> f j"] that by (auto simp: j_def)
      have "i \<le> j \<longrightarrow> f i = f k" if "k \<le> i" for i
        using that
      proof (induction rule: dec_induct)
        case (step i)
        with pause [of i] show ?case by simp
      qed simp
      with j(1) have "f j = f k" by blast
      with rank_step [OF inv] run [of j] j(2) less.prems have "(rank (f (Suc j)), m) \<in> r" by metis
      from less.IH [OF this refl] show ?thesis .
    qed
  qed
  then show ?thesis by blast
qed

text \<open>A run that stops only in states of a certain kind comes to rest in one of them.\<close>

lemma comes_to_rest:
  assumes "Inv (f 0)" and run: "\<And>i. (\<exists>e. P e \<and> Step (f i) e (f (Suc i))) \<or> f (Suc i) = f i \<and> Q (f i)"
  shows "\<exists>n. (\<forall>i\<ge>n. f i = f n) \<and> Q (f n)"
proof -
  from settles [of f] assms obtain n where n: "\<forall>i\<ge>n. f i = f n" by metis
  have inv: "Inv (f i)" for i
  proof (induction i)
    case (Suc i)
    with run [of i] inv_step [of "f i"] show ?case by auto
  qed (rule assms(1))
  have "f (Suc n) = f n" using n by (meson le_SucI order_refl)
  with rank_step [OF inv [of n]] wf_rank run [of n] have "Q (f n)" by (metis wf_not_refl)
  with n show ?thesis by blast
qed

end

end
