(* ===== verification/Atomics.thy ===== *)
theory Atomics imports Prelude begin

unbundle bit_operations_syntax

text \<open>
  The atomic operations of src/fastsync/fastsync.h, each as a function of the word in memory
  (and its operands) that gives the returned value and the word afterwards. They are the gcc
  builtins; on the x86 machines the library is built for each is one indivisible,
  sequentially consistent access.
\<close>

definition atomic_addf :: "'a::len word \<Rightarrow> 'a word \<Rightarrow> 'a word \<times> 'a word" where
  [simp]: "atomic_addf m v = (m + v, m + v)"

definition atomic_fadd :: "'a::len word \<Rightarrow> 'a word \<Rightarrow> 'a word \<times> 'a word" where
  [simp]: "atomic_fadd m v = (m, m + v)"

definition atomic_subf :: "'a::len word \<Rightarrow> 'a word \<Rightarrow> 'a word \<times> 'a word" where
  [simp]: "atomic_subf m v = (m - v, m - v)"

definition atomic_fsub :: "'a::len word \<Rightarrow> 'a word \<Rightarrow> 'a word \<times> 'a word" where
  [simp]: "atomic_fsub m v = (m, m - v)"

definition atomic_read :: "'a::len word \<Rightarrow> 'a word" where
  [simp]: "atomic_read m = m"

definition atomic_xchg :: "'a::len word \<Rightarrow> 'a word \<Rightarrow> 'a word \<times> 'a word" where
  [simp]: "atomic_xchg m v = (m, v)"

definition atomic_cmpxchg :: "'a::len word \<Rightarrow> 'a word \<Rightarrow> 'a word \<Rightarrow> 'a word \<times> 'a word" where
  [simp]: "atomic_cmpxchg m old new = (m, if m = old then new else m)"

definition atomic_bool_cmpxchg :: "'a::len word \<Rightarrow> 'a word \<Rightarrow> 'a word \<Rightarrow> bool \<times> 'a word" where
  [simp]: "atomic_bool_cmpxchg m old new = (m = old, if m = old then new else m)"

definition atomic_orf :: "'a::len word \<Rightarrow> 'a word \<Rightarrow> 'a word \<times> 'a word" where
  [simp]: "atomic_orf m v = (m OR v, m OR v)"

definition atomic_for :: "'a::len word \<Rightarrow> 'a word \<Rightarrow> 'a word \<times> 'a word" where
  [simp]: "atomic_for m v = (m, m OR v)"

definition atomic_andf :: "'a::len word \<Rightarrow> 'a word \<Rightarrow> 'a word \<times> 'a word" where
  [simp]: "atomic_andf m v = (m AND v, m AND v)"

definition atomic_fand :: "'a::len word \<Rightarrow> 'a word \<Rightarrow> 'a word \<times> 'a word" where
  [simp]: "atomic_fand m v = (m, m AND v)"

end
