(* ===== verification/Mutex.thy ===== *)
theory Mutex imports Transition Atomics begin

unbundle bit_operations_syntax

text \<open>
  The mutex of src/fastsync/fastsync_mutex.c. One atomic access of the code to the mutex
  word is one step: \<open>mutex_instr\<close> is the code between two such accesses, \<open>mstep\<close>
  interleaves any number of threads, the kernel's futex queue included. Clients keep the
  rules of the interface: a thread calls lock or trylock only when it does not hold the mutex
  and unlock only when it does.
\<close>

section \<open>The mutex and its sequential operations\<close>

record fastsync_mutex =
  state :: u32

text \<open>A pointer argument: \<open>NULL\<close> or the one mutex of the system.\<close>

datatype mutex_ptr = NULL | This

definition EBUSY :: int where
  "EBUSY = 16"

definition FASTSYNC_MUTEX_SPIN_LOCK_LOOPS :: nat where
  "FASTSYNC_MUTEX_SPIN_LOCK_LOOPS = 1"

definition fastsync_mutex_init ::
  "mutex_ptr \<Rightarrow> fastsync_mutex \<Rightarrow> int \<times> fastsync_mutex" where
  "fastsync_mutex_init p m =
     (case p of NULL \<Rightarrow> (1, m) | This \<Rightarrow> (0, m\<lparr>state := 0\<rparr>))"

section \<open>One thread: the code between two accesses\<close>

text \<open>
  Where a thread stands. \<open>Out\<close> and \<open>Held\<close> are outside the code, without and with the
  mutex. In lock: \<open>LOr i\<close> before the fetch-and-or of round \<open>i\<close> of the spin loop,
  \<open>LXchg\<close> before the exchange of the blocking loop, \<open>LWait\<close> before the FUTEX_WAIT
  system call and \<open>LSleep\<close> blocked in it. \<open>TOr\<close> is before trylock's fetch-and-or. In
  unlock: \<open>URead\<close> before the plain read, \<open>UCas\<close> before the compare-and-exchange,
  \<open>UAnd\<close> before clearing the lock bit, \<open>UChk i\<close> before the read of round \<open>i\<close> of
  the spin loop, \<open>UClr\<close> before clearing the contended bit, \<open>UWake\<close> before the
  FUTEX_WAKE system call.
\<close>

datatype mpc = Out | Held | LOr nat | LXchg | LWait | LSleep | TOr
  | URead | UCas | UAnd | UChk nat | UClr | UWake

text \<open>
  The head of a \<open>for\<close> loop decides without touching memory which access comes next.
\<close>

definition lock_loop :: "nat \<Rightarrow> mpc" where
  "lock_loop i = (if i < FASTSYNC_MUTEX_SPIN_LOCK_LOOPS then LOr i else LXchg)"

definition unlock_loop :: "nat \<Rightarrow> mpc" where
  "unlock_loop i = (if i < FASTSYNC_MUTEX_SPIN_LOCK_LOOPS then UChk i else UClr)"

text \<open>
  What a function does up to its first access: \<open>Inl r\<close> when it returns \<open>r\<close> without any.
\<close>

definition fastsync_mutex_lock :: "mutex_ptr \<Rightarrow> int + mpc" where
  "fastsync_mutex_lock p = (if p = NULL then Inl 1 else Inr (lock_loop 0))"

definition fastsync_mutex_trylock :: "mutex_ptr \<Rightarrow> int + mpc" where
  "fastsync_mutex_trylock p = (if p = NULL then Inl 1 else Inr TOr)"

definition fastsync_mutex_unlock :: "mutex_ptr \<Rightarrow> int + mpc" where
  "fastsync_mutex_unlock p = (if p = NULL then Inl 1 else Inr URead)"

text \<open>
  One access: from the program counter and the word to the next program counter, the new
  word and the returned value when the function returns here. \<open>LWait\<close> is the kernel's
  FUTEX_WAIT, which compares the word with the expected value 3 and blocks in one atomic
  step. A blocked thread and one outside the code have no access to make; the FUTEX_WAKE
  call is a step of the system, as it moves other threads.
\<close>

fun mutex_instr :: "mpc \<Rightarrow> u32 \<Rightarrow> (mpc \<times> u32 \<times> int option) option" where
  "mutex_instr (LOr i) w =
     (let (old, w') = atomic_for w 1; locked = old AND 1 in
      if locked = 0 then Some (Held, w', Some 0) else Some (lock_loop (Suc i), w', None))"
| "mutex_instr LXchg w =
     (let (old, w') = atomic_xchg w 3 in
      if old AND 1 \<noteq> 0 then Some (LWait, w', None) else Some (Held, w', Some 0))"
| "mutex_instr LWait w =
     (if w = 3 then Some (LSleep, w, None) else Some (LXchg, w, None))"
| "mutex_instr TOr w =
     (let (old, w') = atomic_for w 1; locked = old AND 1 in
      if locked = 0 then Some (Held, w', Some 0) else Some (Out, w', Some EBUSY))"
| "mutex_instr URead w = (if w = 1 then Some (UCas, w, None) else Some (UAnd, w, None))"
| "mutex_instr UCas w =
     (let (old, w') = atomic_cmpxchg w 1 0 in
      if old = 1 then Some (Out, w', Some 0) else Some (UAnd, w', None))"
| "mutex_instr UAnd w =
     (let (old, w') = atomic_fand w 0xFFFFFFFE in Some (unlock_loop 0, w', None))"
| "mutex_instr (UChk i) w =
     (if w AND 1 \<noteq> 0 then Some (Out, w, Some 0)
      else Some (unlock_loop (Suc i), w, None))"
| "mutex_instr UClr w =
     (let (old, w') = atomic_fand w 0xFFFFFFFD in Some (UWake, w', None))"
| "mutex_instr pc w = None"

section \<open>The system\<close>

text \<open>The threads of the program are \<open>0, \<dots>, threads - 1\<close>.\<close>

record msys =
  threads :: nat
  mutex :: fastsync_mutex
  pcs :: "tid \<Rightarrow> mpc"
  rets :: "tid \<Rightarrow> int option"

definition msys_init :: "msys \<Rightarrow> bool" where
  "msys_init s \<longleftrightarrow>
     (\<exists>m. fastsync_mutex_init This m = (0, mutex s)) \<and> (\<forall>t. pcs s t = Out \<and> rets s t = None)"

text \<open>
  \<open>Wake t u\<close> is thread \<open>t\<close> in FUTEX_WAKE with a limit of one: \<open>u\<close> is the sleeper the
  kernel picks, \<open>None\<close> when nobody sleeps. \<open>Spurious u\<close> is a sleeper whose FUTEX_WAIT
  returns without a wake-up (a signal).
\<close>

datatype mevent = CallLock tid mutex_ptr | CallTry tid mutex_ptr | CallUnlock tid mutex_ptr
  | Instr tid | Wake tid "tid option" | Spurious tid

definition enter :: "msys \<Rightarrow> tid \<Rightarrow> int + mpc \<Rightarrow> msys" where
  "enter s t f = (case f of
     Inl r \<Rightarrow> s\<lparr>rets := (rets s)(t := Some r)\<rparr>
   | Inr pc \<Rightarrow> s\<lparr>pcs := (pcs s)(t := pc), rets := (rets s)(t := None)\<rparr>)"

inductive mstep :: "msys \<Rightarrow> mevent \<Rightarrow> msys \<Rightarrow> bool" where
  call_lock: "t < threads s \<Longrightarrow> pcs s t = Out \<Longrightarrow>
     mstep s (CallLock t p) (enter s t (fastsync_mutex_lock p))"
| call_try: "t < threads s \<Longrightarrow> pcs s t = Out \<Longrightarrow>
     mstep s (CallTry t p) (enter s t (fastsync_mutex_trylock p))"
| call_unlock: "t < threads s \<Longrightarrow> pcs s t = Held \<Longrightarrow>
     mstep s (CallUnlock t p) (enter s t (fastsync_mutex_unlock p))"
| instr: "t < threads s \<Longrightarrow> mutex_instr (pcs s t) (state (mutex s)) = Some (pc, w, r) \<Longrightarrow>
     mstep s (Instr t)
       (s\<lparr>mutex := (mutex s)\<lparr>state := w\<rparr>, pcs := (pcs s)(t := pc), rets := (rets s)(t := r)\<rparr>)"
| wake_one: "t < threads s \<Longrightarrow> u < threads s \<Longrightarrow> pcs s t = UWake \<Longrightarrow> pcs s u = LSleep \<Longrightarrow>
     mstep s (Wake t (Some u))
       (s\<lparr>pcs := (pcs s)(u := LXchg, t := Out), rets := (rets s)(t := Some 0)\<rparr>)"
| wake_none: "t < threads s \<Longrightarrow> pcs s t = UWake \<Longrightarrow> \<forall>u < threads s. pcs s u \<noteq> LSleep \<Longrightarrow>
     mstep s (Wake t None)
       (s\<lparr>pcs := (pcs s)(t := Out), rets := (rets s)(t := Some 0)\<rparr>)"
| spurious: "u < threads s \<Longrightarrow> pcs s u = LSleep \<Longrightarrow>
     mstep s (Spurious u) (s\<lparr>pcs := (pcs s)(u := LXchg)\<rparr>)"

text \<open>The same steps as a function, for running schedules.\<close>

fun mnext :: "msys \<Rightarrow> mevent \<Rightarrow> msys option" where
  "mnext s (CallLock t p) = (if t < threads s \<and> pcs s t = Out
     then Some (enter s t (fastsync_mutex_lock p)) else None)"
| "mnext s (CallTry t p) = (if t < threads s \<and> pcs s t = Out
     then Some (enter s t (fastsync_mutex_trylock p)) else None)"
| "mnext s (CallUnlock t p) = (if t < threads s \<and> pcs s t = Held
     then Some (enter s t (fastsync_mutex_unlock p)) else None)"
| "mnext s (Instr t) = (if t < threads s
     then (case mutex_instr (pcs s t) (state (mutex s)) of None \<Rightarrow> None
       | Some (pc, w, r) \<Rightarrow> Some (s\<lparr>mutex := (mutex s)\<lparr>state := w\<rparr>,
           pcs := (pcs s)(t := pc), rets := (rets s)(t := r)\<rparr>))
     else None)"
| "mnext s (Wake t (Some u)) =
     (if t < threads s \<and> u < threads s \<and> pcs s t = UWake \<and> pcs s u = LSleep
      then Some (s\<lparr>pcs := (pcs s)(u := LXchg, t := Out), rets := (rets s)(t := Some 0)\<rparr>)
      else None)"
| "mnext s (Wake t None) =
     (if t < threads s \<and> pcs s t = UWake \<and> (\<forall>u < threads s. pcs s u \<noteq> LSleep)
      then Some (s\<lparr>pcs := (pcs s)(t := Out), rets := (rets s)(t := Some 0)\<rparr>)
      else None)"
| "mnext s (Spurious u) = (if u < threads s \<and> pcs s u = LSleep
     then Some (s\<lparr>pcs := (pcs s)(u := LXchg)\<rparr>) else None)"

lemma mnext_mstep: "mnext s e = Some s' \<longleftrightarrow> mstep s e s'"
  by (cases "(s, e)" rule: mnext.cases)
    (auto simp: mstep.simps split: if_splits option.splits)

interpretation mutex_run: executable mstep mnext
  by unfold_locales (rule mnext_mstep)

end
