(* ===== verification/Mutex_Inv.thy ===== *)
theory Mutex_Inv imports Mutex begin

unbundle bit_operations_syntax

text \<open>
  Why the mutex is correct. \<open>held_by h s\<close> says that \<open>h\<close> is the only owner and that the
  lock bit tells so; \<open>held_step\<close> shows that every step keeps it and acts on \<open>h\<close> as a
  step of the atomic lock \<open>lock_spec\<close>. \<open>wake_inv\<close> says that a sleeping thread is always
  owed a wake-up by somebody. \<open>work\<close> is the measure that every step inside the code lowers.
  The three are put together in the interpretations \<open>mutex_safe\<close> and \<open>mutex_work\<close>.
\<close>

section \<open>Owners and the atomic lock\<close>

text \<open>
  A thread owns the mutex from the access that takes it to the access of unlock that clears
  the lock bit: the compare-and-exchange of the fast path or the fetch-and-and.
\<close>

definition owner_pc :: "mpc \<Rightarrow> bool" where
  "owner_pc pc \<longleftrightarrow> pc = Held \<or> pc = URead \<or> pc = UCas \<or> pc = UAnd"

definition owns :: "msys \<Rightarrow> tid \<Rightarrow> bool" where
  "owns s t \<longleftrightarrow> owner_pc (pcs s t)"

definition word_of :: "msys \<Rightarrow> u32" where
  "word_of s = state (mutex s)"

text \<open>The abstract lock: its state is the owner, taken and given back in one step.\<close>

datatype lock_act = Acquire tid | Release tid | Internal

inductive lock_spec :: "tid option \<Rightarrow> lock_act \<Rightarrow> tid option \<Rightarrow> bool" where
  acquire: "lock_spec None (Acquire t) (Some t)"
| release: "lock_spec (Some t) (Release t) None"
| internal: "lock_spec h Internal h"

inductive_simps lock_spec_simps:
  "lock_spec h (Acquire t) h'" "lock_spec h (Release t) h'" "lock_spec h Internal h'"

definition act_of :: "msys \<Rightarrow> mevent \<Rightarrow> msys \<Rightarrow> lock_act" where
  "act_of s e s' = (case e of
     Instr t \<Rightarrow>
       (if \<not> owns s t \<and> owns s' t then Acquire t
        else if owns s t \<and> \<not> owns s' t then Release t else Internal)
   | _ \<Rightarrow> Internal)"

definition held_by :: "tid option \<Rightarrow> msys \<Rightarrow> bool" where
  "held_by h s \<longleftrightarrow> word_of s < 4 \<and>
     (\<forall>t. threads s \<le> t \<longrightarrow> pcs s t = Out) \<and>
     (\<forall>t. owns s t \<longleftrightarrow> h = Some t) \<and>
     (word_of s AND 1 \<noteq> 0 \<longleftrightarrow> h \<noteq> None)"

lemma owner_pc_simps [simp]:
  "owner_pc Held" "owner_pc URead" "owner_pc UCas" "owner_pc UAnd"
  "\<not> owner_pc Out" "\<not> owner_pc (LOr i)" "\<not> owner_pc LXchg" "\<not> owner_pc LWait"
  "\<not> owner_pc LSleep" "\<not> owner_pc TOr" "\<not> owner_pc (UChk i)" "\<not> owner_pc UClr"
  "\<not> owner_pc UWake" "\<not> owner_pc (lock_loop i)" "\<not> owner_pc (unlock_loop i)"
  by (simp_all add: owner_pc_def lock_loop_def unlock_loop_def)

text \<open>One access keeps the word below 4 and takes or gives back the lock bit with ownership.\<close>

lemma instr_word:
  assumes "mutex_instr pc w = Some (pc', w', r)" "w < 4"
  shows "w' < 4"
  using assms
  by (cases "(pc, w)" rule: mutex_instr.cases; cases rule: two_bits_cases[OF assms(2)]) (auto split: if_splits)

lemma instr_owner:
  assumes "mutex_instr pc w = Some (pc', w', r)" "w < 4" "owner_pc pc \<longrightarrow> w AND 1 \<noteq> 0"
  shows "owner_pc pc' \<and> \<not> owner_pc pc \<and> w AND 1 = 0 \<and> w' AND 1 \<noteq> 0
   \<or> owner_pc pc' \<and> owner_pc pc \<and> w' = w
   \<or> \<not> owner_pc pc' \<and> owner_pc pc \<and> w AND 1 \<noteq> 0 \<and> w' AND 1 = 0
   \<or> \<not> owner_pc pc' \<and> \<not> owner_pc pc \<and> (w' AND 1 = w AND 1)"
  using assms
  by (cases "(pc, w)" rule: mutex_instr.cases; cases rule: two_bits_cases[OF assms(2)]) (auto split: if_splits)

lemmas held_facts = held_by_def owns_def word_of_def enter_def

text \<open>A step that changes neither the word nor who is an owner keeps the holder.\<close>

lemma held_frame:
  assumes "held_by h s" and "word_of s' = word_of s" and "threads s' = threads s"
    and "\<And>t. owns s' t \<longleftrightarrow> owns s t" and "\<And>t. threads s \<le> t \<Longrightarrow> pcs s' t = Out"
  shows "held_by h s'"
  using assms by (simp add: held_by_def)

lemma held_out: "held_by h s \<Longrightarrow> threads s \<le> t \<Longrightarrow> pcs s t = Out"
  by (simp add: held_by_def)

lemmas view_facts = owns_def word_of_def enter_def

lemma held_step:
  "mstep s e s' \<Longrightarrow> held_by h s \<Longrightarrow> \<exists>h'. held_by h' s' \<and> lock_spec h (act_of s e s') h'"
proof (induction rule: mstep.induct)
  case (call_lock t s p)
  from call_lock.prems have "held_by h (enter s t (fastsync_mutex_lock p))"
    by (rule held_frame) (use call_lock.hyps held_out [OF call_lock.prems] in \<open>auto simp: view_facts fastsync_mutex_lock_def\<close>)
  then show ?case
    by (intro exI [of _ h]) (simp add: act_of_def lock_spec.internal)
next
  case (call_try t s p)
  from call_try.prems have "held_by h (enter s t (fastsync_mutex_trylock p))"
    by (rule held_frame) (use call_try.hyps held_out [OF call_try.prems] in \<open>auto simp: view_facts fastsync_mutex_trylock_def\<close>)
  then show ?case
    by (intro exI [of _ h]) (simp add: act_of_def lock_spec.internal)
next
  case (call_unlock t s p)
  from call_unlock.prems have "held_by h (enter s t (fastsync_mutex_unlock p))"
    by (rule held_frame) (use call_unlock.hyps held_out [OF call_unlock.prems] in \<open>auto simp: view_facts fastsync_mutex_unlock_def\<close>)
  then show ?case
    by (intro exI [of _ h]) (simp add: act_of_def lock_spec.internal)
next
  case (instr t s pc w r)
  let ?s' = "s\<lparr>mutex := (mutex s)\<lparr>state := w\<rparr>, pcs := (pcs s)(t := pc), rets := (rets s)(t := r)\<rparr>"
  from instr have own: "owner_pc (pcs s t) \<longrightarrow> state (mutex s) AND 1 \<noteq> 0"
    and w: "state (mutex s) < 4"
    by (auto simp: held_facts)
  have w': "w < 4" by (rule instr_word [OF instr(2) w])
  from instr_owner [OF instr(2) w own]
  consider (acquire) "owner_pc pc" "\<not> owner_pc (pcs s t)" "state (mutex s) AND 1 = 0" "w AND 1 \<noteq> 0"
    | (release) "\<not> owner_pc pc" "owner_pc (pcs s t)" "w AND 1 = 0"
    | (same) "owner_pc pc = owner_pc (pcs s t)" "w AND 1 = state (mutex s) AND 1"
    by metis
  then show ?case
  proof cases
    case acquire
    with instr.prems w' instr.hyps(1) have "h = None" "held_by (Some t) ?s'" by (auto simp: held_facts)
    with acquire show ?thesis
      by (intro exI [of _ "Some t"]) (simp add: act_of_def owns_def lock_spec.acquire)
  next
    case release
    with instr.prems w' instr.hyps(1) have "h = Some t" "held_by None ?s'" by (auto simp: held_facts)
    with release show ?thesis
      by (intro exI [of _ None]) (simp add: act_of_def owns_def lock_spec.release)
  next
    case same
    with instr.prems w' instr.hyps(1) have "held_by h ?s'" by (auto simp: held_facts)
    with same show ?thesis
      by (intro exI [of _ h]) (simp add: act_of_def owns_def lock_spec.internal)
  qed
next
  case (wake_one t s u)
  from wake_one.prems show ?case
    by (intro exI [of _ h] conjI, rule held_frame)
      (use wake_one.hyps held_out [OF wake_one.prems] in
        \<open>auto simp: view_facts act_of_def lock_spec.internal\<close>)
next
  case (wake_none t s)
  from wake_none.prems show ?case
    by (intro exI [of _ h] conjI, rule held_frame)
      (use wake_none.hyps held_out [OF wake_none.prems] in
        \<open>auto simp: view_facts act_of_def lock_spec.internal\<close>)
next
  case (spurious u s)
  from spurious.prems show ?case
    by (intro exI [of _ h] conjI, rule held_frame)
      (use spurious.hyps held_out [OF spurious.prems] in
        \<open>auto simp: view_facts act_of_def lock_spec.internal\<close>)
qed

section \<open>Sleepers are owed a wake-up\<close>

text \<open>
  While somebody sleeps: the word says locked and contended (then the owner's unlock will
  take the slow path), or it says free and contended and an unlock is about to look at it
  again, or an unlock is at its FUTEX_WAKE call, or an awake thread is at the exchange, which
  marks the word contended whether or not it succeeds.
\<close>

definition sleeping :: "mpc \<Rightarrow> bool" where
  "sleeping pc \<longleftrightarrow> pc = LSleep"

fun unlocking :: "mpc \<Rightarrow> bool" where
  "unlocking (UChk i) = True" | "unlocking UClr = True" | "unlocking pc = False"

definition waking :: "mpc \<Rightarrow> bool" where
  "waking pc \<longleftrightarrow> pc = UWake \<or> pc = LXchg"

definition wake_ok :: "u32 \<Rightarrow> bool \<Rightarrow> bool \<Rightarrow> bool \<Rightarrow> bool" where
  "wake_ok w sl ck wk \<longleftrightarrow> (sl \<longrightarrow> w = 3 \<or> w = 2 \<and> ck \<or> wk)"

definition wake_inv :: "msys \<Rightarrow> bool" where
  "wake_inv s \<longleftrightarrow> wake_ok (word_of s) (\<exists>t. sleeping (pcs s t)) (\<exists>t. unlocking (pcs s t))
     (\<exists>t. waking (pcs s t))"

lemma unlocking_loop [simp]: "unlocking (unlock_loop i)" "\<not> unlocking (lock_loop i)"
  by (simp_all add: unlock_loop_def lock_loop_def)

lemma sleeping_loop [simp]: "\<not> sleeping (unlock_loop i)" "\<not> sleeping (lock_loop i)"
  by (simp_all add: unlock_loop_def lock_loop_def sleeping_def)

lemma loop_awake [simp]: "unlock_loop i \<noteq> LSleep" "lock_loop i \<noteq> LSleep"
  by (simp_all add: unlock_loop_def lock_loop_def)

lemma instr_wake:
  assumes "mutex_instr pc w = Some (pc', w', r)" and "w < 4"
    and "owner_pc pc \<longrightarrow> w AND 1 \<noteq> 0"
    and "wake_ok w (sleeping pc \<or> S) (unlocking pc \<or> C) (waking pc \<or> W)"
  shows "wake_ok w' (sleeping pc' \<or> S) (unlocking pc' \<or> C) (waking pc' \<or> W)"
  using assms
  by (cases "(pc, w)" rule: mutex_instr.cases; cases rule: two_bits_cases [OF assms(2)])
    (auto simp: wake_ok_def waking_def sleeping_def split: if_splits)

text \<open>The invariant seen from one thread: its own place and whether another is there.\<close>

definition other :: "(mpc \<Rightarrow> bool) \<Rightarrow> (tid \<Rightarrow> mpc) \<Rightarrow> tid \<Rightarrow> bool" where
  "other P f t \<longleftrightarrow> (\<exists>u. u \<noteq> t \<and> P (f u))"

lemma wake_inv_at:
  "wake_inv s \<longleftrightarrow> wake_ok (word_of s)
     (sleeping (pcs s t) \<or> other sleeping (pcs s) t)
     (unlocking (pcs s t) \<or> other unlocking (pcs s) t)
     (waking (pcs s t) \<or> other waking (pcs s) t)"
  unfolding wake_inv_def other_def
  by (subst (1 2 3) ex_point [of _ _ t]) (rule refl)

lemma other_upd: "other P (f(t := x)) t = other P f t"
  by (auto simp: other_def)

lemma wake_inv_move:
  assumes "wake_inv s" and "pcs s' = (pcs s)(t := pc)"
    and "wake_ok (word_of s) (sleeping (pcs s t) \<or> other sleeping (pcs s) t)
        (unlocking (pcs s t) \<or> other unlocking (pcs s) t)
        (waking (pcs s t) \<or> other waking (pcs s) t) \<Longrightarrow>
      wake_ok (word_of s') (sleeping pc \<or> other sleeping (pcs s) t)
        (unlocking pc \<or> other unlocking (pcs s) t) (waking pc \<or> other waking (pcs s) t)"
  shows "wake_inv s'"
  using assms unfolding wake_inv_at [of _ t] by (simp add: other_upd)

lemma wake_invI1: "waking (pcs s u) \<Longrightarrow> wake_inv s"
  by (auto simp: wake_inv_def wake_ok_def)

lemma wake_invI2: "(\<And>u. \<not> sleeping (pcs s u)) \<Longrightarrow> wake_inv s"
  by (simp add: wake_inv_def wake_ok_def)

lemma wake_enter:
  assumes "wake_inv s" and "pcs s t = Out \<or> pcs s t = Held"
    and "\<And>pc. f = Inr pc \<Longrightarrow> \<not> sleeping pc"
  shows "wake_inv (enter s t f)"
proof (cases f)
  case (Inl r)
  with assms(1) show ?thesis by (simp add: wake_inv_def enter_def word_of_def)
next
  case (Inr pc)
  with assms(1) show ?thesis
    by (rule_tac wake_inv_move [of s _ t pc])
      (use assms Inr in \<open>auto simp: enter_def word_of_def wake_ok_def waking_def sleeping_def\<close>)
qed

lemma wake_step:
  assumes "mstep s e s'" and "held_by h s" and "wake_inv s"
  shows "wake_inv s'"
  using assms
proof (induction rule: mstep.induct)
  case (call_lock t s p)
  then show ?case
    by (intro wake_enter) (auto simp: fastsync_mutex_lock_def split: if_splits)
next
  case (call_try t s p)
  then show ?case
    by (intro wake_enter) (auto simp: fastsync_mutex_trylock_def sleeping_def split: if_splits)
next
  case (call_unlock t s p)
  then show ?case
    by (intro wake_enter) (auto simp: fastsync_mutex_unlock_def sleeping_def split: if_splits)
next
  case (instr t s pc w r)
  from instr.prems have "owner_pc (pcs s t) \<longrightarrow> state (mutex s) AND 1 \<noteq> 0"
    and "state (mutex s) < 4"
    by (auto simp: held_facts)
  with instr.prems(2) show ?case
    by (rule_tac wake_inv_move [of s _ t pc])
      (simp_all add: word_of_def instr_wake [OF instr.hyps(2)])
next
  case (wake_one t s u)
  then have "u \<noteq> t" by auto
  then show ?case by (intro wake_invI1 [of _ u]) (simp add: waking_def)
next
  case (wake_none t s)
  then have "\<not> sleeping (((pcs s)(t := Out)) u)" for u
    using held_out [OF wake_none.prems(1), of u] by (cases "u < threads s") (auto simp: sleeping_def)
  then show ?case by (intro wake_invI2) simp
next
  case (spurious u s)
  show ?case by (intro wake_invI1 [of _ u]) (simp add: waking_def)
qed

section \<open>The invariant, the holder and the abstract lock\<close>

definition mutex_inv :: "msys \<Rightarrow> bool" where
  "mutex_inv s \<longleftrightarrow> (\<exists>h. held_by h s) \<and> wake_inv s"

definition holder :: "msys \<Rightarrow> tid option" where
  "holder s = find (owns s) [0..<threads s]"

lemma holder_held: "held_by h s \<Longrightarrow> holder s = h"
proof -
  assume h: "held_by h s"
  then have own: "owns s t \<longleftrightarrow> h = Some t" for t by (simp add: held_by_def)
  show "holder s = h"
  proof (cases h)
    case None
    with own show ?thesis by (simp add: holder_def find_None_iff)
  next
    case (Some t)
    then have "owns s t" by (simp add: own)
    with h have "t < threads s"
      using held_out [OF h, of t] by (force simp: owns_def not_less)
    with own Some show ?thesis
      by (cases "find (owns s) [0..<threads s]") (auto simp: holder_def find_None_iff find_Some_iff)
  qed
qed

lemma mutex_inv_held: "mutex_inv s \<longleftrightarrow> held_by (holder s) s \<and> wake_inv s"
  using holder_held by (auto simp: mutex_inv_def)

lemma inv_owns: "mutex_inv s \<Longrightarrow> owns s t \<longleftrightarrow> holder s = Some t"
  by (simp add: mutex_inv_held held_by_def)

lemma msys_init_word: "msys_init s \<Longrightarrow> word_of s = 0"
proof -
  assume "msys_init s"
  then obtain m where "m\<lparr>state := 0\<rparr> = mutex s"
    by (auto simp: msys_init_def fastsync_mutex_init_def)
  then have "state (mutex s) = state (m\<lparr>state := 0\<rparr>)" by simp
  then show ?thesis by (simp add: word_of_def)
qed

lemma mutex_inv_init: "msys_init s \<Longrightarrow> mutex_inv s"
  by (frule msys_init_word)
    (auto simp: msys_init_def mutex_inv_def held_by_def owns_def
      wake_inv_def wake_ok_def sleeping_def intro!: exI [of _ None])

lemma mutex_inv_step: "mutex_inv s \<Longrightarrow> mstep s e s' \<Longrightarrow> mutex_inv s'"
  unfolding mutex_inv_def by (blast dest: held_step intro: wake_step)

interpretation mutex_safe: simulates msys_init mstep mutex_inv
  "\<lambda>h. h = None" lock_spec holder act_of
proof unfold_locales
  show "mutex_inv s" if "msys_init s" for s
    using that by (rule mutex_inv_init)
  show "mutex_inv s'" if "mutex_inv s" "mstep s e s'" for s e s'
    using that by (rule mutex_inv_step)
  show "holder s = None" if "msys_init s" for s
    using that by (auto simp: msys_init_def holder_def find_None_iff owns_def)
  show "lock_spec (holder s) (act_of s e s') (holder s')"
    if "mutex_inv s" "mstep s e s'" for s e s'
  proof -
    from that(1) have "held_by (holder s) s" by (simp add: mutex_inv_held)
    from held_step [OF that(2) this] obtain h'
      where "held_by h' s'" and "lock_spec (holder s) (act_of s e s') h'"
      by blast
    then show ?thesis by (simp add: holder_held)
  qed
qed

section \<open>The threads inside the code run out of steps\<close>

text \<open>
  The steps inside the code lower this measure, lexicographically: what the threads still
  have to do to leave unlock or to get the mutex; whether the word is still to be marked
  contended; how far the waiting threads are from sleeping (with the word marked contended, an
  exchange leads to a wait and the wait to sleep; otherwise a wait leads back to the exchange,
  which marks the word).
\<close>

fun unlock_rank :: "mpc \<Rightarrow> nat" where
  "unlock_rank UWake = 1"
| "unlock_rank UClr = 2"
| "unlock_rank (UChk i) = 3 + (FASTSYNC_MUTEX_SPIN_LOCK_LOOPS - i)"
| "unlock_rank UAnd = 4 + FASTSYNC_MUTEX_SPIN_LOCK_LOOPS"
| "unlock_rank UCas = 5 + FASTSYNC_MUTEX_SPIN_LOCK_LOOPS"
| "unlock_rank URead = 6 + FASTSYNC_MUTEX_SPIN_LOCK_LOOPS"
| "unlock_rank Out = 0"
| "unlock_rank Held = 0"
| "unlock_rank pc = 1"

fun lock_rank :: "bool \<Rightarrow> mpc \<Rightarrow> nat" where
  "lock_rank c (LOr i) = 3 + (FASTSYNC_MUTEX_SPIN_LOCK_LOOPS - i)"
| "lock_rank c LXchg = (if c then 2 else 1)"
| "lock_rank c LWait = (if c then 1 else 2)"
| "lock_rank c pc = 0"

definition work :: "msys \<Rightarrow> nat \<times> nat \<times> nat" where
  "work s = (\<Sum>t<threads s. unlock_rank (pcs s t),
     if word_of s = 3 then 0 else 1,
     \<Sum>t<threads s. lock_rank (word_of s = 3) (pcs s t))"

fun internal :: "mevent \<Rightarrow> bool" where
  "internal (Instr t) = True"
| "internal (Wake t u) = True"
| "internal e = False"

lemma instr_rank:
  assumes "mutex_instr pc w = Some (pc', w', r)" and "w < 4"
  shows "unlock_rank pc' < unlock_rank pc \<or>
    unlock_rank pc' = unlock_rank pc \<and>
      (w \<noteq> 3 \<and> w' = 3 \<or>
       (w = 3 \<longleftrightarrow> w' = 3) \<and> lock_rank (w = 3) pc' < lock_rank (w = 3) pc)"
  using assms
  by (cases "(pc, w)" rule: mutex_instr.cases; cases rule: two_bits_cases [OF assms(2)])
    (auto simp: lock_loop_def unlock_loop_def FASTSYNC_MUTEX_SPIN_LOCK_LOOPS_def split: if_splits)

lemma internal_work:
  assumes "held_by h s" and "mstep s e s'" and "internal e"
  shows "(work s', work s) \<in> less_than <*lex*> less_than <*lex*> less_than"
  using assms(2,1,3)
proof (induction rule: mstep.induct)
  case (instr t s pc w r)
  then have "state (mutex s) < 4" by (simp add: held_facts)
  from instr_rank [OF instr.hyps(2) this] show ?case
    using sum_upd [of "{..<threads s}" t unlock_rank "pcs s" pc]
      sum_upd [of "{..<threads s}" t "lock_rank (w = 3)" "pcs s" pc] instr.hyps(1)
    by (auto simp: work_def word_of_def)
next
  case (wake_one t s u)
  then have "t \<noteq> u" by auto
  with wake_one show ?case
    using sum_upd [of "{..<threads s}" t unlock_rank "(pcs s)(u := LXchg)" Out]
      sum_upd [of "{..<threads s}" u unlock_rank "pcs s" LXchg]
    by (auto simp: work_def word_of_def)
next
  case (wake_none t s)
  then show ?case
    using sum_upd [of "{..<threads s}" t unlock_rank "pcs s" Out]
    by (auto simp: work_def word_of_def)
qed simp_all

interpretation mutex_work: descends msys_init mstep mutex_inv internal
  "less_than <*lex*> less_than <*lex*> less_than" work
  by unfold_locales
    (auto simp: mutex_inv_def intro: internal_work)

end
