(* ===== verification/Mutex_Props.thy ===== *)
theory Mutex_Props imports Mutex_Inv begin

unbundle bit_operations_syntax

text \<open>
  What the mutex promises, for any number of threads and any interleaving: mutual exclusion
  and the meaning of the lock bit, the refinement of an atomic lock, no lost wake-up, no
  deadlock, no endless run inside the code, and what each function returns.
\<close>

section \<open>Reachable states\<close>

abbreviation mutex_reach :: "msys \<Rightarrow> bool" where
  "mutex_reach \<equiv> reach msys_init mstep"

definition msys0 :: "nat \<Rightarrow> msys" where
  "msys0 n = \<lparr>threads = n, mutex = \<lparr>state = 0\<rparr>, pcs = (\<lambda>_. Out), rets = (\<lambda>_. None)\<rparr>"

lemma msys0_reach: "mutex_reach (msys0 n)"
  by (rule reach_start) (simp add: msys_init_def msys0_def fastsync_mutex_init_def)

lemmas exec_mutex = mutex_run.exec_reach [OF msys0_reach]

text \<open>A schedule on which thread 0 takes the mutex and thread 1 goes to sleep on it.\<close>

definition contended :: "mevent list" where
  "contended = [CallLock 0 This, Instr 0, CallLock 1 This, Instr 1, Instr 1, Instr 1]"

definition contended_state :: msys where
  "contended_state = \<lparr>threads = 2, mutex = \<lparr>state = 3\<rparr>,
     pcs = (\<lambda>_. Out)(0 := Held, 1 := LSleep), rets = (\<lambda>_. None)(0 := Some 0, 1 := None)\<rparr>"

lemmas run_facts = enter_def fastsync_mutex_lock_def fastsync_mutex_unlock_def
  fastsync_mutex_trylock_def lock_loop_def unlock_loop_def FASTSYNC_MUTEX_SPIN_LOCK_LOOPS_def

lemma contended_exec: "exec mnext (msys0 2) contended = Some contended_state"
  by (simp add: contended_def contended_state_def msys0_def run_facts fun_upd_twist)

lemma contended_reach: "mutex_reach contended_state"
  by (rule exec_mutex [OF contended_exec])

section \<open>Safety\<close>

lemma reach_held: "mutex_reach s \<Longrightarrow> held_by (holder s) s"
  using mutex_safe.reach_inv by (simp add: mutex_inv_held)

lemma reach_wake: "mutex_reach s \<Longrightarrow> wake_inv s"
  using mutex_safe.reach_inv by (simp add: mutex_inv_held)

lemma owns_holder: "mutex_reach s \<Longrightarrow> owns s t \<longleftrightarrow> holder s = Some t"
  by (rule inv_owns [OF mutex_safe.reach_inv])

lemma odd_holder: "mutex_reach s \<Longrightarrow> word_of s AND 1 \<noteq> 0 \<longleftrightarrow> holder s \<noteq> None"
  using reach_held by (simp add: held_by_def)

lemma reach_small: "mutex_reach s \<Longrightarrow> word_of s < 4"
  using reach_held by (simp add: held_by_def)

lemma reach_beyond: "mutex_reach s \<Longrightarrow> pcs s t \<noteq> Out \<Longrightarrow> t < threads s"
  using held_out [OF reach_held] by (meson not_le)

text \<open>C1: at most one thread is between the return of a successful lock or trylock and the
  step of its unlock that frees the mutex, in every reachable state of any number of
  threads.\<close>

theorem mutual_exclusion:
  assumes "mutex_reach s" and "owns s t" and "owns s u"
  shows "t = u"
  using assms by (simp add: owns_holder)

theorem mutual_exclusion_witness:
  "{u. owns contended_state u} = {0}"
proof -
  have own: "owns contended_state 0" by (simp add: contended_state_def owns_def)
  then show ?thesis using mutual_exclusion [OF contended_reach _ own] by blast
qed

text \<open>C2: the word is one of the four documented states 0 to 3, and its lowest bit is set
  exactly while a thread owns the mutex.\<close>

theorem lock_bit:
  assumes "mutex_reach s"
  shows "word_of s \<in> {0, 1, 2, 3} \<and> (word_of s AND 1 \<noteq> 0 \<longleftrightarrow> (\<exists>t. owns s t))"
proof -
  have "word_of s \<in> {0, 1, 2, 3}"
    by (cases rule: two_bits_cases [OF reach_small [OF assms]]) auto
  then show ?thesis
    using assms by (auto simp: odd_holder owns_holder)
qed

theorem lock_bit_witness:
  "word_of contended_state \<in> {0, 1, 2, 3} \<and> word_of contended_state AND 1 \<noteq> 0"
  using lock_bit [OF contended_reach] by (simp add: contended_state_def word_of_def)

text \<open>C3: every step of the code refines an atomic lock: the owner changes only by a step of
  a thread that becomes the owner while there is none, or by a step of the owner that gives
  the mutex up; every other step (kernel wake-ups and blocked exchanges included) leaves the
  owner as it is. So a reachable state of the code stands for a state the lock can reach.\<close>

theorem atomic_lock_refinement:
  assumes "mutex_reach s" and "mstep s e s'"
  shows "reach (\<lambda>h. h = None) lock_spec (holder s) \<and> lock_spec (holder s) (act_of s e s') (holder s')"
  using mutex_safe.reach_abs [OF assms(1)] mutex_safe.reach_abs_step [OF assms] by blast

theorem atomic_lock_refinement_witness:
  "\<exists>s'. mstep (msys0 1) (CallLock 0 This) s' \<and> lock_spec None Internal (holder s')"
proof -
  obtain s' where s': "mstep (msys0 1) (CallLock 0 This) s'"
    by (rule that, rule mstep.call_lock) (simp_all add: msys0_def)
  have "holder (msys0 1) = None" by (simp add: holder_def msys0_def owns_def find_None_iff)
  with atomic_lock_refinement [OF msys0_reach s'] s' show ?thesis
    by (auto simp: act_of_def)
qed

section \<open>Wake-ups\<close>

text \<open>C4: no wake-up is lost: whenever a thread sleeps in the kernel while nobody owns the
  mutex, some other thread is still inside unlock on its way to the FUTEX_WAKE call, or
  already awake and about to try the exchange that takes the mutex.\<close>

theorem no_lost_wakeup:
  assumes "mutex_reach s" and "pcs s u = LSleep" and "holder s = None"
  shows "\<exists>t < threads s. unlocking (pcs s t) \<or> waking (pcs s t)"
proof -
  from assms(1,3) have "word_of s \<noteq> 3"
    using odd_holder [of s] by auto
  with reach_wake [OF assms(1)] assms(2) obtain t
    where t: "unlocking (pcs s t) \<or> waking (pcs s t)"
    by (auto simp: wake_inv_def wake_ok_def sleeping_def)
  then have "pcs s t \<noteq> Out" by (auto simp: waking_def)
  with t reach_beyond [OF assms(1)] show ?thesis by blast
qed

text \<open>Thread 0 has cleared the lock bit and not yet looked at the word again.\<close>

definition releasing_state :: msys where
  "releasing_state = \<lparr>threads = 2, mutex = \<lparr>state = 2\<rparr>,
     pcs = (\<lambda>_. Out)(0 := UChk 0, 1 := LSleep), rets = (\<lambda>_. None)(0 := None, 1 := None)\<rparr>"

lemma releasing_reach: "mutex_reach releasing_state"
  by (rule exec_mutex [of 2 "contended @ [CallUnlock 0 This, Instr 0, Instr 0]"])
    (simp add: exec_append contended_exec,
     simp add: contended_state_def releasing_state_def run_facts fun_upd_twist)

theorem no_lost_wakeup_witness:
  "pcs releasing_state 1 = LSleep \<and> holder releasing_state = None \<and>
   (\<exists>t < threads releasing_state. unlocking (pcs releasing_state t) \<or> waking (pcs releasing_state t))"
proof -
  have s: "pcs releasing_state 1 = LSleep" by (simp add: releasing_state_def)
  have h: "holder releasing_state = None"
    by (simp add: releasing_state_def holder_def owns_def find_None_iff)
  from s h no_lost_wakeup [OF releasing_reach s h] show ?thesis by blast
qed

section \<open>Progress\<close>

text \<open>No thread can move without a call of its client or a signal.\<close>

definition quiet :: "msys \<Rightarrow> bool" where
  "quiet s \<longleftrightarrow> (\<forall>t < threads s. pcs s t = Out \<or> pcs s t = Held \<or> pcs s t = LSleep)"

lemma mutex_instr_None:
  "mutex_instr pc w = None \<longleftrightarrow> pc = Out \<or> pc = Held \<or> pc = LSleep \<or> pc = UWake"
  by (cases "(pc, w)" rule: mutex_instr.cases) auto

lemma quiet_iff: "quiet s \<longleftrightarrow> \<not> (\<exists>e s'. internal e \<and> mstep s e s')"
proof
  assume "quiet s"
  show "\<not> (\<exists>e s'. internal e \<and> mstep s e s')"
  proof
    assume "\<exists>e s'. internal e \<and> mstep s e s'"
    then obtain e s' where "internal e" and "mstep s e s'" by blast
    from this(2,1) \<open>quiet s\<close> show False
    proof (cases rule: mstep.cases)
      case (instr t pc w r)
      then have "mutex_instr (pcs s t) (state (mutex s)) \<noteq> None" by simp
      with instr \<open>quiet s\<close> show False
        by (auto simp: quiet_def mutex_instr_None)
    qed (auto simp: quiet_def)
  qed
next
  assume stuck: "\<not> (\<exists>e s'. internal e \<and> mstep s e s')"
  have "pcs s t = Out \<or> pcs s t = Held \<or> pcs s t = LSleep" if "t < threads s" for t
  proof (rule ccontr)
    assume busy: "\<not> ?thesis"
    show False
    proof (cases "pcs s t = UWake")
      case True
      then have "\<exists>u s'. mstep s (Wake t u) s'"
        using mstep.wake_one [OF that] mstep.wake_none [OF that] by blast
      with stuck show False by (metis internal.simps(2))
    next
      case False
      with busy obtain pc w r where "mutex_instr (pcs s t) (state (mutex s)) = Some (pc, w, r)"
        using mutex_instr_None by (metis option.exhaust prod_cases3)
      from mstep.instr [OF that this] stuck show False by (metis internal.simps(1))
    qed
  qed
  then show "quiet s" by (simp add: quiet_def)
qed

lemma quiet_held:
  assumes "mutex_reach s" and "quiet s" and "pcs s u = LSleep"
  shows "\<exists>t < threads s. pcs s t = Held"
proof -
  have calm: "pcs s t = Out \<or> pcs s t = Held \<or> pcs s t = LSleep" for t
    using assms(2) reach_beyond [OF assms(1), of t] by (auto simp: quiet_def)
  have "\<not> unlocking (pcs s t) \<and> \<not> waking (pcs s t)" for t
    using calm [of t] by (elim disjE) (simp_all add: waking_def)
  with reach_wake [OF assms(1)] assms(3) have "word_of s = 3"
    by (auto simp: wake_inv_def wake_ok_def sleeping_def)
  then obtain t where "owns s t"
    using odd_holder [OF assms(1)] owns_holder [OF assms(1)] by auto
  with calm [of t] have "pcs s t = Held" by (auto simp: owns_def)
  then show ?thesis using reach_beyond [OF assms(1), of t] by auto
qed

text \<open>There is no deadlock: when no thread inside the code can move any more and some
  thread sleeps, then a client holds the mutex, so that its unlock is what is awaited.\<close>

theorem no_deadlock:
  assumes "mutex_reach s" and "quiet s" and "pcs s u = LSleep"
  shows "\<exists>t < threads s. pcs s t = Held"
  using assms by (rule quiet_held)

theorem no_deadlock_witness:
  "quiet contended_state \<and> pcs contended_state 1 = LSleep \<and> pcs contended_state 0 = Held"
proof -
  have q: "quiet contended_state" and s: "pcs contended_state 1 = LSleep"
    by (auto simp: quiet_def contended_state_def less_Suc_eq numeral_2_eq_2)
  from no_deadlock [OF contended_reach q s] obtain t where "pcs contended_state t = Held" by blast
  then have "pcs contended_state 0 = Held"
    by (simp add: contended_state_def split: if_splits)
  with q s show ?thesis by simp
qed

text \<open>No schedule keeps the threads inside lock, trylock and unlock running for ever (spinning,
  sleeping and being woken) without a client calling or a signal arriving.\<close>

theorem no_livelock:
  "\<not> (\<exists>f ev. mutex_reach (f 0) \<and> (\<forall>i. mstep (f i) (ev i) (f (Suc i)) \<and> internal (ev i)))"
  using mutex_work.no_endless_run mutex_safe.reach_inv by blast

text \<open>C5: the code comes to rest: whatever the scheduler does, after finitely many steps no
  thread inside lock, trylock and unlock can move without a client calling or a signal
  arriving; each is then outside or asleep, and asleep only while a client holds the mutex.\<close>

theorem mutex_comes_to_rest:
  assumes "mutex_reach (f 0)"
    and "\<forall>i. (\<exists>e. internal e \<and> mstep (f i) e (f (Suc i))) \<or>
      f (Suc i) = f i \<and> \<not> (\<exists>e s'. internal e \<and> mstep (f i) e s')"
  shows "\<exists>n. (\<forall>i\<ge>n. f i = f n) \<and> (\<forall>u. pcs (f n) u = Out \<or> pcs (f n) u = Held \<or>
    pcs (f n) u = LSleep \<and> (\<exists>t < threads (f n). pcs (f n) t = Held))"
proof -
  from mutex_work.comes_to_rest [of f quiet, OF mutex_safe.reach_inv [OF assms(1)]] assms(2)
  obtain n where n: "\<forall>i\<ge>n. f i = f n" "quiet (f n)" unfolding quiet_iff by metis
  have r: "mutex_reach (f n)" by (rule run_reach [where f = f, OF assms(1)]) (use assms(2) in blast)
  have "pcs (f n) u = Out \<or> pcs (f n) u = Held \<or> pcs (f n) u = LSleep" for u
    using n(2) reach_beyond [OF r, of u] by (auto simp: quiet_def)
  with quiet_held [OF r n(2)] n(1) show ?thesis by metis
qed

text \<open>Thread 1 is about to sleep while thread 0 holds the mutex.\<close>

definition sleepy_run :: "nat \<Rightarrow> msys" where
  "sleepy_run i = (if i = 0 then the (exec mnext (msys0 2) (take 5 contended)) else contended_state)"

theorem mutex_comes_to_rest_witness:
  "pcs (sleepy_run 0) 1 = LWait \<and> (\<exists>n. sleepy_run (n + 5) = sleepy_run n \<and> pcs (sleepy_run n) 1 = LSleep \<and>
     (\<exists>t<2. pcs (sleepy_run n) t = Held))"
proof -
  let ?s = "the (exec mnext (msys0 2) (take 5 contended))"
  have run: "exec mnext (msys0 2) (take 5 contended) = Some ?s" and at: "pcs ?s 1 = LWait"
    and "mnext ?s (Instr 1) = Some contended_state"
    by (simp_all add: contended_def contended_state_def msys0_def run_facts fun_upd_twist)
  then have step: "mstep ?s (Instr 1) contended_state" by (simp only: mnext_mstep)
  have start: "mutex_reach (sleepy_run 0)" using exec_mutex [OF run] by (simp add: sleepy_run_def)
  have "quiet contended_state"
    by (auto simp: quiet_def contended_state_def less_Suc_eq numeral_2_eq_2)
  then have "\<not> (\<exists>e s'. internal e \<and> mstep contended_state e s')" by (rule quiet_iff [THEN iffD1])
  with step have "(\<exists>e. internal e \<and> mstep (sleepy_run i) e (sleepy_run (Suc i))) \<or>
      sleepy_run (Suc i) = sleepy_run i \<and> \<not> (\<exists>e s'. internal e \<and> mstep (sleepy_run i) e s')" for i
    by (cases i) (auto simp: sleepy_run_def intro!: exI [of _ "Instr 1"])
  from mutex_comes_to_rest [where f = sleepy_run, OF start allI [OF this]]
  obtain n where n: "\<forall>i\<ge>n. sleepy_run i = sleepy_run n"
    and rest: "\<forall>u. pcs (sleepy_run n) u = Out \<or> pcs (sleepy_run n) u = Held \<or>
      pcs (sleepy_run n) u = LSleep \<and> (\<exists>t < threads (sleepy_run n). pcs (sleepy_run n) t = Held)"
    by (elim exE conjE)
  have same: "sleepy_run (n + 5) = sleepy_run n" by (rule n [rule_format, OF le_add1])
  then have "sleepy_run n = contended_state" by (simp add: sleepy_run_def split: if_splits)
  then have "pcs (sleepy_run n) 1 = LSleep" "threads (sleepy_run n) = 2" by (simp_all add: contended_state_def)
  with rest [rule_format, of 1] same at show ?thesis by (auto simp: sleepy_run_def)
qed

section \<open>What the functions do\<close>

text \<open>C6: trylock makes one access and returns: 0 and the mutex when nobody owns it, EBUSY
  otherwise, and then the owner and the word are unchanged.\<close>

theorem trylock_result:
  assumes "mutex_reach s" and "t < threads s" and "pcs s t = Out"
  shows "\<exists>s'. exec mnext s [CallTry t This, Instr t] = Some s' \<and>
    (if holder s = None
     then rets s' t = Some 0 \<and> pcs s' t = Held \<and> holder s' = Some t
     else rets s' t = Some EBUSY \<and> pcs s' t = Out \<and> holder s' = holder s \<and>
       word_of s' = word_of s)"
proof -
  let ?w = "state (mutex s)"
  from reach_small [OF assms(1)] have "?w < 4" by (simp add: word_of_def)
  from odd_holder [OF assms(1)] have odd: "?w AND 1 \<noteq> 0 \<longleftrightarrow> holder s \<noteq> None"
    by (simp add: word_of_def)
  have orw: "?w OR 1 = ?w" if "?w AND 1 \<noteq> 0"
    using that by (cases rule: two_bits_cases [OF \<open>?w < 4\<close>]) auto
  have "\<exists>s'. exec mnext s [CallTry t This, Instr t] = Some s' \<and>
      rets s' t = (if ?w AND 1 = 0 then Some 0 else Some EBUSY) \<and>
      pcs s' = (pcs s)(t := (if ?w AND 1 = 0 then Held else Out)) \<and> word_of s' = ?w OR 1"
    using assms(2,3) by (cases "?w AND 1 = 0") (simp_all add: run_facts word_of_def)
  then obtain s' where s': "exec mnext s [CallTry t This, Instr t] = Some s'"
    and pc: "rets s' t = (if ?w AND 1 = 0 then Some 0 else Some EBUSY)"
      "pcs s' = (pcs s)(t := (if ?w AND 1 = 0 then Held else Out))"
      "word_of s' = ?w OR 1"
    by blast
  have r: "mutex_reach s'" by (rule mutex_run.exec_reach [OF assms(1) s'])
  show ?thesis
  proof (cases "?w AND 1 = 0")
    case True
    with pc have "owns s' t" by (simp add: owns_def)
    with True pc s' odd show ?thesis by (simp add: owns_holder [OF r])
  next
    case False
    have "owns s' u = owns s u" for u
      using False pc(2) assms(3) by (auto simp: owns_def)
    then have "holder s' = holder s"
      using owns_holder [OF r] owns_holder [OF assms(1)] by (metis not_None_eq)
    with False pc s' odd orw show ?thesis by (simp add: word_of_def)
  qed
qed

theorem trylock_result_witness:
  "\<exists>s'. exec mnext (msys0 1) [CallTry 0 This, Instr 0] = Some s' \<and> rets s' 0 = Some 0 \<and>
     holder s' = Some 0"
proof -
  have h: "holder (msys0 1) = None" by (simp add: holder_def msys0_def owns_def find_None_iff)
  have "0 < threads (msys0 1)" and "pcs (msys0 1) 0 = Out" by (simp_all add: msys0_def)
  from trylock_result [OF msys0_reach this] show ?thesis
    by (simp only: h if_True simp_thms) blast
qed

text \<open>On a free and uncontended mutex a lock followed by an unlock of the same thread takes
  one access and two accesses, makes no system call, returns 0 twice, and gives back the very
  state it started from.\<close>

theorem lock_unlock_roundtrip:
  assumes "t < threads s" and "pcs s t = Out" and "word_of s = 0"
  shows "exec mnext s [CallLock t This, Instr t] =
      Some (s\<lparr>mutex := \<lparr>state = 1\<rparr>, pcs := (pcs s)(t := Held), rets := (rets s)(t := Some 0)\<rparr>) \<and>
    exec mnext s [CallLock t This, Instr t, CallUnlock t This, Instr t, Instr t] =
      Some (s\<lparr>rets := (rets s)(t := Some 0)\<rparr>)"
  using assms
  by (cases s; cases "mutex s") (auto simp: run_facts word_of_def intro!: fun_upd_idem)

theorem lock_unlock_roundtrip_witness:
  "exec mnext (msys0 1) [CallLock 0 This, Instr 0, CallUnlock 0 This, Instr 0, Instr 0] =
     Some ((msys0 1)\<lparr>rets := (\<lambda>_. None)(0 := Some 0)\<rparr>)"
proof -
  have "0 < threads (msys0 1)" and "pcs (msys0 1) 0 = Out" and "word_of (msys0 1) = 0"
    by (simp_all add: msys0_def word_of_def)
  from lock_unlock_roundtrip [OF this] show ?thesis by (simp add: msys0_def)
qed

text \<open>Unlock hands a contended mutex over: when the owner unlocks while others sleep and
  nobody interferes, it clears both bits, wakes exactly one sleeper, whichever the kernel
  picks, and that thread then owns the mutex, marked contended for those who still sleep.\<close>

theorem contended_handover:
  assumes "mutex_reach s" and "pcs s t = Held" and "pcs s u = LSleep" and "word_of s = 3"
  shows "exec mnext s [CallUnlock t This, Instr t, Instr t, Instr t, Instr t, Wake t (Some u), Instr u] =
    Some (s\<lparr>pcs := (pcs s)(t := Out, u := Held), rets := (rets s)(t := Some 0, u := Some 0)\<rparr>)"
proof -
  have "t < threads s" and "u < threads s"
    using assms by (auto intro: reach_beyond)
  moreover have "t \<noteq> u" using assms by auto
  ultimately show ?thesis
    using assms by (auto simp: run_facts word_of_def fun_upd_twist)
qed

theorem contended_handover_witness:
  "\<exists>s'. exec mnext contended_state
     [CallUnlock 0 This, Instr 0, Instr 0, Instr 0, Instr 0, Wake 0 (Some 1), Instr 1] = Some s' \<and>
     pcs s' 0 = Out \<and> pcs s' 1 = Held"
proof -
  have "pcs contended_state 0 = Held" "pcs contended_state 1 = LSleep" "word_of contended_state = 3"
    by (simp_all add: contended_state_def word_of_def)
  from contended_handover [OF contended_reach this] show ?thesis by simp
qed

definition ret_at :: "mpc \<Rightarrow> int option \<Rightarrow> bool" where
  "ret_at pc r \<longleftrightarrow> r = None \<or> (pc = Out \<and> r \<in> {Some 0, Some 1, Some EBUSY}) \<or>
     (pc = Held \<and> r \<in> {Some 0, Some 1})"

definition ret_inv :: "msys \<Rightarrow> bool" where
  "ret_inv s \<longleftrightarrow> (\<forall>t. ret_at (pcs s t) (rets s t))"

lemma instr_ret: "mutex_instr pc w = Some (pc', w', r) \<Longrightarrow> ret_at pc' r"
  by (cases "(pc, w)" rule: mutex_instr.cases) (auto simp: ret_at_def split: if_splits)

lemma ret_inv_step:
  assumes "mstep s e s'" and "ret_inv s"
  shows "ret_inv s'"
  using assms
proof (induction rule: mstep.induct)
  case (spurious u s)
  then have "ret_at LSleep (rets s u)" unfolding ret_inv_def by metis
  with spurious show ?case by (auto simp: ret_inv_def ret_at_def)
next
  case (wake_one t s u)
  then have "ret_at LSleep (rets s u)" unfolding ret_inv_def by metis
  with wake_one show ?case by (auto simp: ret_inv_def ret_at_def)
next
  case (instr t s pc w r)
  then show ?case by (auto simp: ret_inv_def dest: instr_ret)
qed (auto simp: ret_inv_def ret_at_def enter_def fastsync_mutex_lock_def
    fastsync_mutex_trylock_def fastsync_mutex_unlock_def)

interpretation mutex_ret: invariant_of msys_init mstep ret_inv
  by unfold_locales
    (simp add: msys_init_def ret_inv_def ret_at_def, rule ret_inv_step)

text \<open>Lock, trylock and unlock only ever return 0, 1 and EBUSY, and EBUSY only to a
  thread that does not hold the mutex; the code 2 that the header documents for a futex error
  in unlock is returned on no path.\<close>

theorem mutex_return_codes:
  assumes "mutex_reach s" and "rets s t = Some r"
  shows "r \<in> {0, 1, EBUSY} \<and> r \<noteq> 2 \<and> (r = EBUSY \<longrightarrow> pcs s t = Out)"
proof -
  from mutex_ret.reach_inv [OF assms(1)] have "ret_at (pcs s t) (rets s t)"
    by (simp add: ret_inv_def)
  with assms(2) show ?thesis by (auto simp: ret_at_def EBUSY_def)
qed

theorem mutex_return_codes_witness:
  "rets contended_state 0 = Some 0 \<and> (0::int) \<in> {0, 1, EBUSY}"
  using mutex_return_codes [OF contended_reach, of 0 0] by (simp add: contended_state_def)

end
