(* ===== verification/Log.thy ===== *)
theory Log imports Prelude begin

text \<open>
  The log functions of src/utils/reeact_log.c and the macros of src/utils/reeact_utils.h
  around them: what is written to stderr, character by character. Of \<open>printf\<close> the
  conversions the library uses are modelled; a conversion that finds no argument of its type
  is undefined behaviour (\<open>None\<close>).
\<close>

section \<open>printf\<close>

text \<open>An argument of type \<open>int\<close>, \<open>unsigned\<close>, \<open>char *\<close> or \<open>void *\<close>.\<close>

datatype parg = Dec int | Uns u32 | Str string | Ptr u64

fun converted :: "char \<Rightarrow> parg \<Rightarrow> string option" where
  "converted c (Dec i) = (if c = CHR ''d'' then Some (show_int i) else None)"
| "converted c (Uns u) = (if c = CHR ''u'' then Some (show_nat (unat u)) else None)"
| "converted c (Str s) = (if c = CHR ''s'' then Some s else None)"
| "converted c (Ptr p) = (if c = CHR ''p'' then Some (show_ptr (unat p)) else None)"

fun formatted :: "string \<Rightarrow> parg list \<Rightarrow> string option" where
  "formatted [] args = Some []"
| "formatted (c # cs) args =
     (if c \<noteq> CHR ''%'' then map_option (Cons c) (formatted cs args)
      else (case cs of [] \<Rightarrow> None
        | d # ds \<Rightarrow> (case args of [] \<Rightarrow> None
            | a # more \<Rightarrow> (case converted d a of None \<Rightarrow> None
                | Some t \<Rightarrow> map_option (\<lambda>r. t @ r) (formatted ds more)))))"

abbreviation nl :: string where "nl \<equiv> [CHR 0x0A]"

section \<open>The log functions\<close>

text \<open>\<open>log_pid\<close> is the global variable \<open>pid\<close>, \<open>errout\<close> what was written to stderr.\<close>

record log_state =
  log_pid :: int
  errout :: string

text \<open>What the functions ask the system for; \<open>debug\<close> is the flag \<open>_REEACT_DEBUG_\<close> of the build.\<close>

record log_env =
  process_id :: int
  short_name :: string
  errno :: int
  error_list :: "string list"
  debug :: bool

definition log_start :: log_state where
  "log_start = \<lparr>log_pid = 0, errout = []\<rparr>"

definition emit :: "string \<Rightarrow> log_state \<Rightarrow> log_state" where
  "emit t l = l\<lparr>errout := errout l @ t\<rparr>"

text \<open>\<open>fprintf(stderr, fmt, \<dots>)\<close>.\<close>

definition print_err :: "string \<Rightarrow> parg list \<Rightarrow> log_state \<Rightarrow> log_state option" where
  "print_err fmt args l = map_option (\<lambda>t. emit t l) (formatted fmt args)"

definition reeact_print_prefix :: "log_env \<Rightarrow> log_state \<Rightarrow> log_state" where
  "reeact_print_prefix env l =
     (let l = (if log_pid l = 0 then l\<lparr>log_pid := process_id env\<rparr> else l)
      in emit (show_int (log_pid l) @ '' '' @ short_name env @ '': '') l)"

definition reeact_dprintf :: "log_env \<Rightarrow> string \<Rightarrow> parg list \<Rightarrow> log_state \<Rightarrow> (int \<times> log_state) option" where
  "reeact_dprintf env fmt args l =
     (let l = reeact_print_prefix env l
      in case formatted fmt args of None \<Rightarrow> None | Some t \<Rightarrow> Some (int (length t), emit t l))"

definition reeact_log_err :: "log_env \<Rightarrow> string \<Rightarrow> parg list \<Rightarrow> log_state \<Rightarrow> (int \<times> log_state) option" where
  "reeact_log_err env fmt args l =
     (let l = reeact_print_prefix env l
      in case formatted fmt args of None \<Rightarrow> None | Some t \<Rightarrow> Some (int (length t), emit t l))"

text \<open>Undefined, too, when the error number is outside \<open>sys_errlist\<close>. The value of \<open>errno\<close> is
  saved first, so what the prefix and the message do to it does not matter.\<close>

definition reeact_log_errx :: "log_env \<Rightarrow> string \<Rightarrow> parg list \<Rightarrow> log_state \<Rightarrow> (int \<times> log_state) option" where
  "reeact_log_errx env fmt args l =
     (let err = errno env; l = reeact_print_prefix env l
      in case formatted fmt args of None \<Rightarrow> None
       | Some t \<Rightarrow>
          if 0 \<le> err \<and> err < int (length (error_list env))
          then (let suffix = error_list env ! nat err @ ''('' @ show_int err @ '')'' @ nl
                in Some (int (length suffix), emit suffix (emit t l)))
          else None)"

section \<open>The macros\<close>

text \<open>\<open>func\<close> is \<open>__func__\<close> at the place of use. In release builds \<open>DPRINTF\<close> is empty.\<close>

definition DPRINTF :: "log_env \<Rightarrow> string \<Rightarrow> string \<Rightarrow> parg list \<Rightarrow> log_state \<Rightarrow> log_state option" where
  "DPRINTF env func fmt args l =
     (if debug env then map_option snd (reeact_dprintf env (''%s: '' @ fmt) (Str func # args) l) else Some l)"

definition dprintf :: "log_env \<Rightarrow> bool \<Rightarrow> string \<Rightarrow> string \<Rightarrow> parg list \<Rightarrow> log_state \<Rightarrow> log_state option" where
  "dprintf env dbg func fmt args l =
     (if dbg then map_option snd (reeact_dprintf env (''%s: '' @ fmt) (Str func # args) l) else Some l)"

definition LOGERR :: "log_env \<Rightarrow> string \<Rightarrow> string \<Rightarrow> parg list \<Rightarrow> log_state \<Rightarrow> log_state option" where
  "LOGERR env func fmt args l = map_option snd (reeact_log_err env (''%s: '' @ fmt) (Str func # args) l)"

definition LOGERRX :: "log_env \<Rightarrow> string \<Rightarrow> string \<Rightarrow> parg list \<Rightarrow> log_state \<Rightarrow> log_state option" where
  "LOGERRX env func fmt args l = map_option snd (reeact_log_errx env (''%s: '' @ fmt) (Str func # args) l)"

section \<open>What they write\<close>

text \<open>A line with the prefix; a log line names the function, too.\<close>

definition tell :: "log_env \<Rightarrow> string \<Rightarrow> log_state \<Rightarrow> log_state" where
  "tell env t l = emit t (reeact_print_prefix env l)"

lemma formatted_func [simp]:
  "formatted (CHR ''%'' # CHR ''s'' # fmt) (Str s # args) = map_option (\<lambda>t. s @ t) (formatted fmt args)"
  by simp

lemma DPRINTF_tell:
  "formatted fmt args = Some t \<Longrightarrow>
   DPRINTF env func fmt args l = Some (if debug env then tell env (func @ '': '' @ t) l else l)"
  by (simp add: DPRINTF_def reeact_dprintf_def tell_def Let_def)

lemma LOGERR_tell:
  "formatted fmt args = Some t \<Longrightarrow> LOGERR env func fmt args l = Some (tell env (func @ '': '' @ t) l)"
  by (simp add: LOGERR_def reeact_log_err_def tell_def Let_def)

lemma LOGERRX_tell:
  assumes "formatted fmt args = Some t" and "0 \<le> errno env" and "errno env < int (length (error_list env))"
  shows "LOGERRX env func fmt args l = Some (tell env (func @ '': '' @ t @ error_list env ! nat (errno env) @
    ''('' @ show_int (errno env) @ '')'' @ nl) l)"
  using assms by (simp add: LOGERRX_def reeact_log_errx_def tell_def Let_def emit_def)

lemma LOGERRX_undefined: "formatted fmt args = None \<Longrightarrow> LOGERRX env func fmt args l = None"
  by (simp add: LOGERRX_def reeact_log_errx_def Let_def)

lemma print_err_emit: "formatted fmt args = Some t \<Longrightarrow> print_err fmt args l = Some (emit t l)"
  by (simp add: print_err_def)

lemma emit_emit [simp]: "emit t (emit s l) = emit (s @ t) l" "emit [] l = l"
  by (simp_all add: emit_def)

text \<open>The prefix shows the process id of the first message.\<close>

lemma tell_errout:
  "errout (tell env t l) = errout l @
     show_int (if log_pid l = 0 then process_id env else log_pid l) @ '' '' @ short_name env @ '': '' @ t"
  "log_pid (tell env t l) = (if log_pid l = 0 then process_id env else log_pid l)"
  by (simp_all add: tell_def emit_def reeact_print_prefix_def Let_def)

lemma emit_fields [simp]: "errout (emit t l) = errout l @ t" "log_pid (emit t l) = log_pid l"
  by (simp_all add: emit_def)

section \<open>An example\<close>

text \<open>A process of the debug build, and the first messages of \<open>sys_errlist\<close>.\<close>

definition error_texts :: "string list" where
  "error_texts = [''Success'', ''Operation not permitted'', ''No such file or directory'', ''No such process'',
     ''Interrupted system call'', ''Input/output error'', ''No such device or address'', ''Argument list too long'',
     ''Exec format error'', ''Bad file descriptor'', ''No child processes'', ''Resource temporarily unavailable'',
     ''Cannot allocate memory'']"

definition app_log :: "int \<Rightarrow> log_env" where
  "app_log p = \<lparr>process_id = p, short_name = ''app'', errno = 0, error_list = error_texts, debug = True\<rparr>"

end
