(* ===== verification/Barrier.thy ===== *)
theory Barrier imports Transition Atomics Log begin

unbundle bit_operations_syntax

text \<open>
  The barriers of src/fastsync/fastsync_barrier.c: the core-level \<open>fastsync_barrier_wait\<close>
  (with _FUTEX_BARRIER_, as the Makefile builds it, where waiters block in the kernel, and
  without, where they yield the processor) and the
  inter-processor \<open>fastsynt_barrier_wait_interproc\<close>, which the last thread to arrive at a
  barrier calls on the parent barrier. A thread is a stack of such calls; one access to the
  memory of a barrier is one step, and the threads interleave freely.
\<close>

section \<open>The barrier structure\<close>

text \<open>
  \<open>seq\<close> and \<open>waiting\<close> share their storage with the 64-bit member \<open>reset\<close> of the
  union (\<open>seq\<close> is the low half on the little-endian machines of the build). The padding,
  which only keeps a barrier on a cache line of its own, is left out.
\<close>

type_synonym bid = nat

record fastsync_barrier =
  seq :: u32
  waiting :: u32
  total_count :: u32
  parent_bar :: "bid option"

definition get_reset :: "fastsync_barrier \<Rightarrow> u64" where
  "get_reset b = push_bit 32 (ucast (waiting b)) OR ucast (seq b)"

definition set_reset :: "u64 \<Rightarrow> fastsync_barrier \<Rightarrow> fastsync_barrier" where
  "set_reset v b = b\<lparr>seq := ucast v, waiting := ucast (drop_bit 32 v)\<rparr>"

text \<open>A pointer argument, \<open>None\<close> for NULL; \<open>attr\<close> is never read.\<close>

definition fastsync_barrier_init :: "log_env \<Rightarrow> fastsync_barrier option \<Rightarrow> u32 \<Rightarrow> log_state \<Rightarrow>
    (int \<times> fastsync_barrier option \<times> log_state) option" where
  "fastsync_barrier_init env p count l = (case p of
     None \<Rightarrow> Some (1, None, l)
   | Some b \<Rightarrow>
       (let b' = (set_reset 0 (b\<lparr>total_count := count\<rparr>))\<lparr>parent_bar := None\<rparr>
        in map_option (\<lambda>l. (0, Some b', l)) (DPRINTF env ''fastsync_barrier_init''
          (''in fastsync barrier init with count %d.'' @ nl) [Dec (sint (total_count b'))] l)))"

text \<open>The debug build reads the barrier for its message.\<close>

definition fastsync_barrier_destroy :: "log_env \<Rightarrow> fastsync_barrier option \<Rightarrow> log_state \<Rightarrow> (int \<times> log_state) option" where
  "fastsync_barrier_destroy env p l =
     (if debug env then
        Option.bind p (\<lambda>b. map_option (Pair 0) (DPRINTF env ''fastsync_barrier_destroy''
          (''in fastsync barrier destroy (%d syncs)'' @ nl) [Dec (sint (seq b))] l))
      else Some (0, l))"

lemma barrier_init_result:
  "(\<exists>l'. fastsync_barrier_init env (Some b) count l = Some (0, Some b', l')) \<longleftrightarrow>
   b' = (set_reset 0 (b\<lparr>total_count := count\<rparr>))\<lparr>parent_bar := None\<rparr>"
  by (auto simp: fastsync_barrier_init_def Let_def DPRINTF_tell)

definition PTHREAD_BARRIER_SERIAL_THREAD :: int where
  "PTHREAD_BARRIER_SERIAL_THREAD = -1"

section \<open>One thread: a stack of calls\<close>

text \<open>
  \<open>Core\<close> is a call of \<open>fastsync_barrier_wait\<close>, \<open>Inter\<close> one of
  \<open>fastsynt_barrier_wait_interproc\<close>. A call has its barrier, the amount it adds to
  \<open>waiting\<close> and its local \<open>cur_seq\<close>. Places in the code: \<open>PSeq\<close> before the read
  of \<open>seq\<close>, \<open>PAdd\<close> before the atomic add, \<open>PTest\<close> before the test of the wait
  loop, \<open>PWait\<close> before the FUTEX_WAIT call, \<open>PSleep\<close> blocked in it, \<open>PRd\<close> before
  the last arriver's read of \<open>seq\<close>, \<open>PReset v\<close> before its 64-bit store, \<open>PWake\<close>
  before its FUTEX_WAKE call.
\<close>

datatype wait_kind = Core | Inter

record frame =
  kind :: wait_kind
  bar :: bid
  inc_count :: u32
  cur_seq :: u32

datatype bpc = PSeq | PAdd | PTest | PWait | PSleep | PRd | PReset u32 | PWake

datatype bthr = Idle | Run bpc frame "frame list"

text \<open>
  A call returns: the whole wait is over, or the caller, whose barrier is the child,
  goes on with its own reset; it does not look at the value.
\<close>

fun finish :: "int \<Rightarrow> frame list \<Rightarrow> bthr \<times> int option" where
  "finish r [] = (Idle, Some r)"
| "finish r (g # st) = (Run PRd g st, None)"

definition wait_frame :: "bid \<Rightarrow> frame" where
  "wait_frame b = \<lparr>kind = Core, bar = b, inc_count = 1, cur_seq = 0\<rparr>"

definition interproc_frame :: "bid \<Rightarrow> u32 \<Rightarrow> frame" where
  "interproc_frame b count = \<lparr>kind = Inter, bar = b, inc_count = count, cur_seq = 0\<rparr>"

text \<open>
  One access of the running call: the new memory, where the thread stands then, and the
  value when the outermost call returns. A sleeping thread has no access to make, and the
  FUTEX_WAKE call is a step of the system. The flag u tells whether \<open>_FUTEX_BARRIER_\<close> is defined,
  as the Makefile does; without it the core-level wait only yields the processor between its tests.
\<close>

fun bar_instr :: "bool \<Rightarrow> (bid \<Rightarrow> fastsync_barrier) \<Rightarrow> bpc \<Rightarrow> frame \<Rightarrow> frame list \<Rightarrow>
    ((bid \<Rightarrow> fastsync_barrier) \<times> bthr \<times> int option) option" where
  "bar_instr u B PSeq f st =
     Some (B, Run PAdd (f\<lparr>cur_seq := atomic_read (seq (B (bar f)))\<rparr>) st, None)"
| "bar_instr u B PAdd f st =
     (let b = B (bar f);
          (count, w) = atomic_addf (waiting b) (inc_count f);
          B' = B(bar f := b\<lparr>waiting := w\<rparr>)
      in if count = total_count b then
           (case parent_bar b of
              Some p \<Rightarrow> Some (B', Run PSeq (interproc_frame p count) (f # st), None)
            | None \<Rightarrow> Some (B', Run PRd f st, None))
         else if count < total_count b then Some (B', Run PTest f st, None)
         else Some (B', finish (case kind f of Core \<Rightarrow> 1 | Inter \<Rightarrow> 0) st))"
| "bar_instr u B PTest f st =
     (if cur_seq f = atomic_read (seq (B (bar f)))
      then Some (B, Run (case kind f of Core \<Rightarrow> if u then PWait else PTest | Inter \<Rightarrow> PTest) f st, None)
      else Some (B, finish 0 st))"
| "bar_instr u B PWait f st =
     Some (B, Run (if seq (B (bar f)) = cur_seq f then PSleep else PTest) f st, None)"
| "bar_instr u B PRd f st = Some (B, Run (PReset (seq (B (bar f)) + 1)) f st, None)"
| "bar_instr u B (PReset v) f st =
     (let b = B (bar f); B' = B(bar f := set_reset (ucast v) b)
      in case kind f of
           Core \<Rightarrow> (if u \<and> 1 < total_count b then Some (B', Run PWake f st, None)
             else Some (B', finish PTHREAD_BARRIER_SERIAL_THREAD st))
         | Inter \<Rightarrow> Some (B', finish 0 st))"
| "bar_instr u B pc f st = None"

section \<open>The system\<close>

text \<open>
  The threads \<open>0, \<dots>, nthr - 1\<close> each wait again and again at the barrier \<open>leaf t\<close> the
  program gave them. \<open>entered\<close> and \<open>returned\<close> count the calls a thread has made and
  those that came back, \<open>brets\<close> lists the values
  they gave, the last one first; the code reads none of the three. \<open>futex_barrier\<close> is the
  configuration the library was built with.
\<close>

record bsys =
  futex_barrier :: bool
  nthr :: nat
  nbar :: nat
  leaf :: "tid \<Rightarrow> bid"
  bars :: "bid \<Rightarrow> fastsync_barrier"
  bthrs :: "tid \<Rightarrow> bthr"
  entered :: "tid \<Rightarrow> nat"
  returned :: "tid \<Rightarrow> nat"
  brets :: "tid \<Rightarrow> int list"

datatype bevent = BCall tid | BInstr tid | BWake tid | BSpurious tid

definition settle :: "bsys \<Rightarrow> tid \<Rightarrow> bthr \<times> int option \<Rightarrow> bsys" where
  "settle s t x = (case x of
     (th, None) \<Rightarrow> s\<lparr>bthrs := (bthrs s)(t := th)\<rparr>
   | (th, Some r) \<Rightarrow> s\<lparr>bthrs := (bthrs s)(t := th), returned := (returned s)(t := Suc (returned s t)),
       brets := (brets s)(t := r # brets s t)\<rparr>)"

text \<open>FUTEX_WAKE with the limit INT_MAX: every sleeper of the barrier goes back to its test.\<close>

fun awake :: "bid \<Rightarrow> bthr \<Rightarrow> bthr" where
  "awake b (Run PSleep f st) = (if bar f = b then Run PTest f st else Run PSleep f st)"
| "awake b th = th"

inductive bstep :: "bsys \<Rightarrow> bevent \<Rightarrow> bsys \<Rightarrow> bool" where
  bcall: "t < nthr s \<Longrightarrow> bthrs s t = Idle \<Longrightarrow>
     bstep s (BCall t) (s\<lparr>bthrs := (bthrs s)(t := Run PSeq (wait_frame (leaf s t)) []),
       entered := (entered s)(t := Suc (entered s t))\<rparr>)"
| binstr: "t < nthr s \<Longrightarrow> bthrs s t = Run pc f st \<Longrightarrow>
     bar_instr (futex_barrier s) (bars s) pc f st = Some (B, x) \<Longrightarrow>
     bstep s (BInstr t) (settle (s\<lparr>bars := B\<rparr>) t x)"
| bwake: "t < nthr s \<Longrightarrow> bthrs s t = Run PWake f st \<Longrightarrow>
     bstep s (BWake t) (settle (s\<lparr>bthrs := awake (bar f) \<circ> bthrs s\<rparr>) t
       (finish PTHREAD_BARRIER_SERIAL_THREAD st))"
| bspurious: "t < nthr s \<Longrightarrow> bthrs s t = Run PSleep f st \<Longrightarrow>
     bstep s (BSpurious t) (s\<lparr>bthrs := (bthrs s)(t := Run PTest f st)\<rparr>)"

text \<open>The same steps as a function, for running schedules.\<close>

fun bnext :: "bsys \<Rightarrow> bevent \<Rightarrow> bsys option" where
  "bnext s (BCall t) = (if t < nthr s \<and> bthrs s t = Idle
     then Some (s\<lparr>bthrs := (bthrs s)(t := Run PSeq (wait_frame (leaf s t)) []),
       entered := (entered s)(t := Suc (entered s t))\<rparr>)
     else None)"
| "bnext s (BInstr t) = (if t < nthr s
     then (case bthrs s t of Idle \<Rightarrow> None
       | Run pc f st \<Rightarrow> (case bar_instr (futex_barrier s) (bars s) pc f st of None \<Rightarrow> None
           | Some (B, x) \<Rightarrow> Some (settle (s\<lparr>bars := B\<rparr>) t x)))
     else None)"
| "bnext s (BWake t) = (if t < nthr s
     then (case bthrs s t of
         Run PWake f st \<Rightarrow> Some (settle (s\<lparr>bthrs := awake (bar f) \<circ> bthrs s\<rparr>) t
           (finish PTHREAD_BARRIER_SERIAL_THREAD st))
       | _ \<Rightarrow> None)
     else None)"
| "bnext s (BSpurious t) = (if t < nthr s
     then (case bthrs s t of
         Run PSleep f st \<Rightarrow> Some (s\<lparr>bthrs := (bthrs s)(t := Run PTest f st)\<rparr>)
       | _ \<Rightarrow> None)
     else None)"

lemma bnext_bstep: "bnext s e = Some s' \<longleftrightarrow> bstep s e s'"
  by (cases e) (auto simp: bstep.simps split: if_splits option.splits bthr.splits bpc.splits)

interpretation barrier_run: executable bstep bnext
  by unfold_locales (rule bnext_bstep)

section \<open>The program's tree of barriers\<close>

text \<open>
  The program builds the tree: after \<open>fastsync_barrier_init\<close> it stores the parents. The
  rules for a tree: barriers are numbered so that a parent comes after its children; a
  barrier at which threads wait has no children; the count a barrier was made with is the
  number of its threads, or the sum of the counts of its children, and is not 0.
\<close>

definition children_count :: "bsys \<Rightarrow> bid \<Rightarrow> nat" where
  "children_count s b = (\<Sum>c<nbar s. if parent_bar (bars s c) = Some b
     then unat (total_count (bars s c)) else 0)"

definition thread_count :: "bsys \<Rightarrow> bid \<Rightarrow> nat" where
  "thread_count s b = (\<Sum>t<nthr s. if leaf s t = b then 1 else 0)"

definition tree_ok :: "bsys \<Rightarrow> bool" where
  "tree_ok s \<longleftrightarrow>
     (\<forall>t < nthr s. leaf s t < nbar s) \<and>
     (\<forall>c < nbar s. \<forall>b. parent_bar (bars s c) = Some b \<longrightarrow> c < b \<and> b < nbar s) \<and>
     (\<forall>b < nbar s. total_count (bars s b) \<noteq> 0 \<and>
        unat (total_count (bars s b)) = thread_count s b + children_count s b \<and>
        (thread_count s b = 0 \<or> children_count s b = 0))"

definition bsys_init :: "bsys \<Rightarrow> bool" where
  "bsys_init s \<longleftrightarrow> tree_ok s \<and>
     (\<forall>b < nbar s. \<exists>env b0 count l b1. (\<exists>l'. fastsync_barrier_init env (Some b0) count l = Some (0, Some b1, l')) \<and>
        bars s b = b1\<lparr>parent_bar := parent_bar (bars s b)\<rparr>) \<and>
     (\<forall>t. bthrs s t = Idle \<and> entered s t = 0 \<and> returned s t = 0 \<and> brets s t = [])"

end
