(* ===== verification/Barrier_Tree.thy ===== *)
theory Barrier_Tree imports Barrier begin

unbundle bit_operations_syntax

text \<open>
  The part of the state no step changes: which barrier is above a thread or a barrier, and
  the count of each barrier. The \<open>parts\<close> of a barrier are the threads that wait at it and
  the barriers below it; the rules \<open>tree_ok\<close> give \<open>shape_ok\<close>, where a barrier's count is the
  sum of the weights of its parts (\<open>tree_ok_shape\<close>).
\<close>

section \<open>The tree, as the steps leave it alone\<close>

datatype part = Thr tid | Bar bid

record tree =
  tn :: nat
  tb :: nat
  tleaf :: "tid \<Rightarrow> bid"
  tpar :: "bid \<Rightarrow> bid option"
  ttot :: "bid \<Rightarrow> u32"

definition tree_of :: "bsys \<Rightarrow> tree" where
  "tree_of s = \<lparr>tn = nthr s, tb = nbar s, tleaf = leaf s,
     tpar = (\<lambda>b. parent_bar (bars s b)), ttot = (\<lambda>b. total_count (bars s b))\<rparr>"

fun up :: "tree \<Rightarrow> part \<Rightarrow> bid option" where
  "up D (Thr t) = (if t < tn D then Some (tleaf D t) else None)"
| "up D (Bar c) = (if c < tb D then tpar D c else None)"

fun weight :: "tree \<Rightarrow> part \<Rightarrow> nat" where
  "weight D (Thr t) = 1"
| "weight D (Bar c) = unat (ttot D c)"

definition parts :: "tree \<Rightarrow> bid \<Rightarrow> part set" where
  "parts D b = {p. up D p = Some b}"

definition shape_ok :: "tree \<Rightarrow> bool" where
  "shape_ok D \<longleftrightarrow>
     (\<forall>t < tn D. tleaf D t < tb D) \<and>
     (\<forall>c < tb D. \<forall>b. tpar D c = Some b \<longrightarrow> c < b \<and> b < tb D) \<and>
     (\<forall>b < tb D. unat (ttot D b) = (\<Sum>p\<in>parts D b. weight D p)) \<and>
     (\<forall>b < tb D. 0 < unat (ttot D b)) \<and>
     (\<forall>b < tb D. \<forall>t c. up D (Thr t) = Some b \<longrightarrow> up D (Bar c) \<noteq> Some b)"

lemma finite_parts [simp]: "finite (parts D b)"
proof (rule finite_subset)
  show "parts D b \<subseteq> Thr ` {..<tn D} \<union> Bar ` {..<tb D}"
  proof
    fix p assume "p \<in> parts D b"
    then show "p \<in> Thr ` {..<tn D} \<union> Bar ` {..<tb D}"
      by (cases p) (auto simp: parts_def split: if_splits)
  qed
qed simp

lemma parts_split:
  "parts D b = Thr ` {t\<in>{..<tn D}. tleaf D t = b} \<union> Bar ` {c\<in>{..<tb D}. tpar D c = Some b}"
proof -
  have "p \<in> parts D b \<longleftrightarrow> p \<in> Thr ` {t\<in>{..<tn D}. tleaf D t = b} \<union> Bar ` {c\<in>{..<tb D}. tpar D c = Some b}" for p
    by (cases p) (auto simp: parts_def)
  then show ?thesis by blast
qed

lemma sum_parts:
  "(\<Sum>p\<in>parts D b. weight D p) =
     (\<Sum>t<tn D. if tleaf D t = b then 1 else 0) +
     (\<Sum>c<tb D. if tpar D c = Some b then unat (ttot D c) else 0)"
proof -
  have "(\<Sum>p\<in>parts D b. weight D p) =
      (\<Sum>p\<in>Thr ` {t\<in>{..<tn D}. tleaf D t = b}. weight D p) +
      (\<Sum>p\<in>Bar ` {c\<in>{..<tb D}. tpar D c = Some b}. weight D p)"
    unfolding parts_split by (rule sum.union_disjoint) auto
  also have "(\<Sum>p\<in>Thr ` {t\<in>{..<tn D}. tleaf D t = b}. weight D p) =
      (\<Sum>t\<in>{t\<in>{..<tn D}. tleaf D t = b}. 1)"
    by (subst sum.reindex) (auto intro: inj_onI)
  also have "\<dots> = (\<Sum>t<tn D. if tleaf D t = b then 1 else 0)"
    by (subst sum.inter_filter) auto
  also have "(\<Sum>p\<in>Bar ` {c\<in>{..<tb D}. tpar D c = Some b}. weight D p) =
      (\<Sum>c\<in>{c\<in>{..<tb D}. tpar D c = Some b}. unat (ttot D c))"
    by (subst sum.reindex) (auto intro: inj_onI)
  also have "\<dots> = (\<Sum>c<tb D. if tpar D c = Some b then unat (ttot D c) else 0)"
    by (subst sum.inter_filter) auto
  finally show ?thesis .
qed

lemma shape_leaf: "shape_ok D \<Longrightarrow> t < tn D \<Longrightarrow> tleaf D t < tb D"
  unfolding shape_ok_def by blast

lemma shape_par: "shape_ok D \<Longrightarrow> c < tb D \<Longrightarrow> tpar D c = Some b \<Longrightarrow> c < b \<and> b < tb D"
  unfolding shape_ok_def by blast

lemma shape_total: "shape_ok D \<Longrightarrow> b < tb D \<Longrightarrow> unat (ttot D b) = (\<Sum>p\<in>parts D b. weight D p)"
  unfolding shape_ok_def by blast

lemma shape_pos: "shape_ok D \<Longrightarrow> b < tb D \<Longrightarrow> 0 < unat (ttot D b)"
  unfolding shape_ok_def by blast

lemma shape_kind:
  "shape_ok D \<Longrightarrow> b < tb D \<Longrightarrow> up D (Thr t) = Some b \<Longrightarrow> up D (Bar c) \<noteq> Some b"
  unfolding shape_ok_def by blast

lemma up_Thr [simp]: "up D (Thr t) = Some b \<longleftrightarrow> t < tn D \<and> tleaf D t = b"
  by auto

lemma up_Bar [simp]: "up D (Bar c) = Some b \<longleftrightarrow> c < tb D \<and> tpar D c = Some b"
  by auto

lemma up_bound:
  assumes "shape_ok D" and "up D p = Some b"
  shows "b < tb D"
proof (cases p)
  case (Thr t)
  with assms shape_leaf [OF assms(1), of t] show ?thesis by (simp del: up.simps)
next
  case (Bar c)
  with assms shape_par [OF assms(1), of c b] show ?thesis by (simp del: up.simps)
qed

lemma parts_bound: "shape_ok D \<Longrightarrow> p \<in> parts D b \<Longrightarrow> b < tb D"
  by (simp add: parts_def up_bound)

lemma weight_pos: "shape_ok D \<Longrightarrow> p \<in> parts D b \<Longrightarrow> 0 < weight D p"
  using shape_pos by (cases p) (auto simp: parts_def split: if_splits)

lemma tree_ok_shape:
  assumes "tree_ok s"
  shows "shape_ok (tree_of s)"
proof -
  let ?D = "tree_of s"
  note T = assms [unfolded tree_ok_def]
  note count = conjunct2 [OF conjunct2 [OF T], rule_format]
  have sel: "tn ?D = nthr s" "tb ?D = nbar s" "tleaf ?D = leaf s"
    "tpar ?D c = parent_bar (bars s c)" "ttot ?D c = total_count (bars s c)" for c
    by (simp_all add: tree_of_def)
  have pos: "0 < unat (total_count (bars s c))" if "c < nbar s" for c
  proof -
    have "total_count (bars s c) \<noteq> 0" using count [OF that] by simp
    then show ?thesis by (simp add: unat_gt_0)
  qed
  have kinds: "up ?D (Bar c) \<noteq> Some b" if "b < nbar s" "up ?D (Thr t) = Some b" for b t c
  proof
    assume "up ?D (Bar c) = Some b"
    then have c: "c < nbar s" "parent_bar (bars s c) = Some b"
      by (simp_all add: sel split: if_splits)
    from that(2) have t: "t < nthr s" "leaf s t = b" by (simp_all add: sel split: if_splits)
    have "1 \<le> thread_count s b"
      unfolding thread_count_def
      using t by (intro order_trans [OF _ member_le_sum [of t]]) simp_all
    moreover have "unat (total_count (bars s c)) \<le> children_count s b"
      unfolding children_count_def
      using c by (intro order_trans [OF _ member_le_sum [of c]]) simp_all
    moreover have "thread_count s b = 0 \<or> children_count s b = 0"
      using count [OF that(1)] by simp
    ultimately show False using pos [OF c(1)] by linarith
  qed
  have total: "unat (total_count (bars s b)) = (\<Sum>p\<in>parts ?D b. weight ?D p)"
    if "b < nbar s" for b
    using count [OF that] unfolding sum_parts sel thread_count_def children_count_def by blast
  show ?thesis
    unfolding shape_ok_def sel
  proof (intro conjI)
    show "\<forall>t<nthr s. leaf s t < nbar s" by (rule conjunct1 [OF T])
    show "\<forall>c<nbar s. \<forall>b. parent_bar (bars s c) = Some b \<longrightarrow> c < b \<and> b < nbar s"
      by (rule conjunct1 [OF conjunct2 [OF T]])
    show "\<forall>b<nbar s. unat (total_count (bars s b)) = (\<Sum>p\<in>parts ?D b. weight ?D p)"
      using total by blast
    show "\<forall>b<nbar s. 0 < unat (total_count (bars s b))" using pos by blast
    show "\<forall>b<nbar s. \<forall>t c. up ?D (Thr t) = Some b \<longrightarrow> up ?D (Bar c) \<noteq> Some b"
      using kinds by blast
  qed
qed

end
