(* ===== verification/Barrier_Inv.thy ===== *)
theory Barrier_Inv imports Barrier_Tree begin

text \<open>
  The invariant of the barriers. Two ghost functions carry it: \<open>G b\<close>, the number of rounds
  barrier b has finished, of which \<open>seq\<close> is the residue, and \<open>A p\<close>, the number of rounds the
  part p (a thread, or a barrier below) has arrived in.

  \<^item> \<open>node_ok\<close>: every part of b has arrived in G b or G b + 1 rounds, and \<open>waiting\<close> is the
    weight of those that have arrived in the open round;
  \<^item> \<open>link_ok\<close>: a barrier arrives at its parent once it is \<open>full\<close>, and is never ahead of it;
  \<^item> \<open>thr_ok\<close>: the frames of a thread climb the tree (\<open>chain\<close>), all but the top one are of
    full barriers (\<open>callers_ok\<close>), and the top one is where its place says (\<open>top_ok\<close>);
  \<^item> a barrier is \<open>owned\<close>, in order to open its next round, by at most one thread.

  The lemmas then say that a thread's condition survives an arrival and a release by another
  thread (\<open>thr_arrive\<close>, \<open>thr_release\<close>).
\<close>

section \<open>The invariant\<close>

type_synonym rounds = "bid \<Rightarrow> nat"
type_synonym arrivals = "part \<Rightarrow> nat"

definition full :: "tree \<Rightarrow> rounds \<Rightarrow> arrivals \<Rightarrow> bid \<Rightarrow> bool" where
  "full D G A b \<longleftrightarrow> (\<forall>q\<in>parts D b. A q = Suc (G b))"

definition arrived :: "tree \<Rightarrow> rounds \<Rightarrow> arrivals \<Rightarrow> bid \<Rightarrow> part set" where
  "arrived D G A b = {q\<in>parts D b. A q = Suc (G b)}"

definition node_ok :: "tree \<Rightarrow> rounds \<Rightarrow> arrivals \<Rightarrow> bid \<Rightarrow> fastsync_barrier \<Rightarrow> bool" where
  "node_ok D G A b r \<longleftrightarrow> seq r = of_nat (G b) \<and>
     (\<forall>q\<in>parts D b. A q = G b \<or> A q = Suc (G b)) \<and>
     unat (waiting r) = (\<Sum>q\<in>arrived D G A b. weight D q)"

definition link_ok :: "tree \<Rightarrow> rounds \<Rightarrow> arrivals \<Rightarrow> bid \<Rightarrow> bool" where
  "link_ok D G A c \<longleftrightarrow> (\<forall>b. tpar D c = Some b \<longrightarrow> G c \<le> G b \<and>
     (A (Bar c) = G c \<or> A (Bar c) = Suc (G c) \<and> full D G A c))"

fun chain :: "tree \<Rightarrow> tid \<Rightarrow> frame list \<Rightarrow> bool" where
  "chain D t [] = False"
| "chain D t [f] = (t < tn D \<and> kind f = Core \<and> bar f = tleaf D t \<and> inc_count f = 1)"
| "chain D t (f # g # st) = (kind f = Inter \<and> bar g < tb D \<and> tpar D (bar g) = Some (bar f) \<and>
     inc_count f = ttot D (bar g) \<and> chain D t (g # st))"

fun part_of :: "tid \<Rightarrow> frame list \<Rightarrow> part" where
  "part_of t [] = Thr t"
| "part_of t (g # st) = Bar (bar g)"

definition entering :: "bpc \<Rightarrow> bool" where
  "entering pc \<longleftrightarrow> pc = PSeq \<or> pc = PAdd"

fun finishing :: "bpc \<Rightarrow> bool" where
  "finishing PRd = True" | "finishing (PReset v) = True" | "finishing pc = False"

definition ready :: "tree \<Rightarrow> rounds \<Rightarrow> arrivals \<Rightarrow> bid \<Rightarrow> bool" where
  "ready D G A b \<longleftrightarrow> full D G A b \<and>
     (\<forall>p. tpar D b = Some p \<longrightarrow> A (Bar b) = Suc (G b) \<and> G p = Suc (G b))"

fun top_ok :: "tree \<Rightarrow> rounds \<Rightarrow> arrivals \<Rightarrow> part \<Rightarrow> bpc \<Rightarrow> frame \<Rightarrow> bool" where
  "top_ok D G A p PSeq f = (A p = G (bar f))"
| "top_ok D G A p PAdd f = (A p = G (bar f) \<and> cur_seq f = of_nat (G (bar f)))"
| "top_ok D G A p PTest f = (\<exists>k. A p = Suc k \<and> cur_seq f = of_nat k)"
| "top_ok D G A p PWait f = (kind f = Core \<and> (\<exists>k. A p = Suc k \<and> cur_seq f = of_nat k))"
| "top_ok D G A p PSleep f = (kind f = Core \<and> (\<exists>k. A p = Suc k \<and> cur_seq f = of_nat k))"
| "top_ok D G A p PRd f = ready D G A (bar f)"
| "top_ok D G A p (PReset v) f = (ready D G A (bar f) \<and> v = of_nat (Suc (G (bar f))))"
| "top_ok D G A p PWake f = (kind f = Core \<and> A p = G (bar f))"

fun callers_ok :: "tree \<Rightarrow> rounds \<Rightarrow> arrivals \<Rightarrow> bool \<Rightarrow> frame list \<Rightarrow> bool" where
  "callers_ok D G A e [] = True"
| "callers_ok D G A e (h # st) = (full D G A (bar h) \<and>
     A (Bar (bar h)) = (if e then G (bar h) else Suc (G (bar h))) \<and> callers_ok D G A False st)"

fun thr_ok :: "tree \<Rightarrow> rounds \<Rightarrow> arrivals \<Rightarrow> tid \<Rightarrow> nat \<Rightarrow> nat \<Rightarrow> bthr \<Rightarrow> bool" where
  "thr_ok D G A t en re Idle = (re = en \<and>
     (t < tn D \<longrightarrow> A (Thr t) = en \<and> G (tleaf D t) = en))"
| "thr_ok D G A t en re (Run pc f st) = (chain D t (f # st) \<and>
     top_ok D G A (part_of t st) pc f \<and> callers_ok D G A (entering pc) st \<and> en = Suc re \<and>
     A (Thr t) = (if st = [] \<and> entering pc then re else en))"

fun owned :: "bthr \<Rightarrow> bid set" where
  "owned Idle = {}"
| "owned (Run pc f st) = bar ` set st \<union> (if finishing pc then {bar f} else {})"

definition bok :: "tree \<Rightarrow> rounds \<Rightarrow> arrivals \<Rightarrow> bsys \<Rightarrow> bool" where
  "bok D G A s \<longleftrightarrow> tree_of s = D \<and> shape_ok D \<and>
     (\<forall>b < tb D. node_ok D G A b (bars s b)) \<and>
     (\<forall>c < tb D. link_ok D G A c) \<and>
     (\<forall>t. thr_ok D G A t (entered s t) (returned s t) (bthrs s t)) \<and>
     (\<forall>t u. t \<noteq> u \<longrightarrow> owned (bthrs s t) \<inter> owned (bthrs s u) = {})"

definition barrier_inv :: "bsys \<Rightarrow> bool" where
  "barrier_inv s \<longleftrightarrow> (\<exists>G A. bok (tree_of s) G A s)"

section \<open>Facts about stacks\<close>

lemma chain_part:
  assumes "chain D t (f # st)"
  shows "part_of t st \<in> parts D (bar f)" and "unat (inc_count f) = weight D (part_of t st)"
  using assms by (cases st; simp add: parts_def)+

lemma chain_tn: "chain D t st \<Longrightarrow> t < tn D"
  by (induction D t st rule: chain.induct) auto

lemma chain_bars:
  assumes "shape_ok D" and "chain D t st" and "f \<in> set st"
  shows "bar f < tb D"
  using assms
proof (induction D t st rule: chain.induct)
  case (3 D t h g st)
  then have "up D (Bar (bar g)) = Some (bar h)" by simp
  from up_bound [OF 3(2) this] 3 show ?case by auto
qed (auto dest: shape_leaf)

lemma owned_full:
  assumes "thr_ok D G A t en re th" and "b \<in> owned th"
  shows "full D G A b"
proof (cases th)
  case (Run pc f st)
  have "full D G A (bar h)" if "callers_ok D G A e st" and "h \<in> set st" for e h
    using that by (induction D G A e st rule: callers_ok.induct) auto
  with assms Run show ?thesis
    by (cases pc) (auto simp: ready_def)
qed (use assms in simp)

section \<open>Another thread's step\<close>

text \<open>The parts whose arrivals a thread's own condition speaks of.\<close>

definition uses :: "tid \<Rightarrow> bthr \<Rightarrow> part set" where
  "uses t th = insert (Thr t) (Bar ` owned th)"

lemma full_arrive:
  assumes "full D G A c" and "p \<in> parts D b" and "A p = G b"
  shows "full D G (A(p := k)) c"
proof -
  have "p \<notin> parts D c"
  proof
    assume "p \<in> parts D c"
    with assms(2) have "c = b" by (simp add: parts_def)
    with assms \<open>p \<in> parts D c\<close> show False by (auto simp: full_def)
  qed
  with assms(1) show ?thesis by (auto simp: full_def)
qed

lemma callers_arrive:
  assumes "callers_ok D G A e st" and "p \<in> parts D b" and "A p = G b"
    and "p \<notin> Bar ` bar ` set st"
  shows "callers_ok D G (A(p := k)) e st"
  using assms
  by (induction D G A e st rule: callers_ok.induct) (auto intro: full_arrive)

lemma thr_arrive:
  assumes "thr_ok D G A u en re th" and "p \<in> parts D b" and "A p = G b" and "p \<notin> uses u th"
  shows "thr_ok D G (A(p := k)) u en re th"
proof (cases th)
  case Idle
  with assms show ?thesis by (auto simp: uses_def)
next
  case (Run pc f st)
  have "part_of u st \<noteq> p"
    using assms(4) Run by (cases st) (auto simp: uses_def)
  then have "top_ok D G (A(p := k)) (part_of u st) pc f"
    using assms Run by (cases pc) (auto simp: ready_def uses_def intro: full_arrive)
  moreover have "callers_ok D G (A(p := k)) (entering pc) st"
    using assms Run by (auto simp: uses_def intro!: callers_arrive)
  ultimately show ?thesis using assms Run by (auto simp: uses_def)
qed

lemma callers_release:
  assumes "callers_ok D G A e st" and "b \<notin> bar ` set st"
  shows "callers_ok D (G(b := k)) A e st"
  using assms
  by (induction D G A e st rule: callers_ok.induct) (auto simp: full_def)

lemma ready_release:
  assumes "ready D G A c" and "full D G A b" and "c \<noteq> b" and "c < tb D"
  shows "ready D (G(b := Suc (G b))) A c"
proof -
  have "tpar D c \<noteq> Some b"
  proof
    assume c: "tpar D c = Some b"
    with assms(1) have "A (Bar c) = G b" by (simp add: ready_def)
    moreover from c assms(4) have "Bar c \<in> parts D b" by (simp add: parts_def)
    ultimately show False using assms(2) by (auto simp: full_def)
  qed
  with assms(1,3) show ?thesis by (auto simp: ready_def full_def)
qed

lemma thr_release:
  assumes "thr_ok D G A u en re th" and "full D G A b" and "b \<notin> owned th"
    and "shape_ok D"
  shows "thr_ok D (G(b := Suc (G b))) A u en re th"
proof (cases th)
  case Idle
  have "tleaf D u \<noteq> b" if "u < tn D"
  proof
    assume "tleaf D u = b"
    with that have "Thr u \<in> parts D b" by (simp add: parts_def)
    with assms(1,2) Idle that \<open>tleaf D u = b\<close> show False by (auto simp: full_def)
  qed
  with assms Idle show ?thesis by auto
next
  case (Run pc f st)
  then have ch: "chain D u (f # st)" using assms(1) by simp
  have "top_ok D (G(b := Suc (G b))) A (part_of u st) pc f"
    using assms chain_part(1) [OF ch] chain_bars [OF assms(4) ch, of f] Run
    by (cases pc) (auto simp: full_def intro: ready_release)
  moreover have "callers_ok D (G(b := Suc (G b))) A (entering pc) st"
    using assms Run by (auto intro!: callers_release)
  ultimately show ?thesis using assms Run by auto
qed

end
