(* ===== verification/Barrier_Steps.thy ===== *)
theory Barrier_Steps imports Barrier_Inv begin

unbundle bit_operations_syntax

text \<open>
  Every step of the barrier system keeps \<open>barrier_inv\<close>. Three kinds of step change what
  the invariant counts: one only moves a thread (\<open>bok_local\<close>), one is an arrival, the
  atomic add that makes a thread or a full child barrier part of the current round
  (\<open>bok_arrive\<close>), and one is a release, the 64-bit store that opens the next round
  (\<open>bok_release\<close>). The last section interprets the contract \<open>invariant_of\<close>.
\<close>

section \<open>The 64-bit view\<close>

lemma set_reset_seq [simp]: "seq (set_reset (ucast (v :: u32)) r) = v"
proof -
  have "ucast (ucast v :: u64) = v"
    by (rule bit_word_eqI) (auto simp: bit_simps)
  then show ?thesis by (simp add: set_reset_def)
qed

lemma set_reset_waiting [simp]: "waiting (set_reset (ucast (v :: u32)) r) = 0"
proof -
  have "ucast (drop_bit 32 (ucast v :: u64)) = (0 :: u32)"
    by (rule bit_word_eqI) (auto simp: bit_simps dest: bit_imp_le_length)
  then show ?thesis by (simp add: set_reset_def)
qed

lemma set_get_reset: "set_reset (get_reset b) b = b"
proof -
  have "ucast (get_reset b) = seq b"
    by (rule bit_word_eqI) (auto simp: get_reset_def bit_simps)
  moreover have "ucast (drop_bit 32 (get_reset b)) = waiting b"
    by (rule bit_word_eqI) (auto simp: get_reset_def bit_simps dest: bit_imp_le_length)
  ultimately show ?thesis by (simp add: set_reset_def)
qed

lemma get_set_reset: "get_reset (set_reset v b) = v"
  by (rule bit_word_eqI) (auto simp: get_reset_def set_reset_def bit_simps)

lemma set_reset_static [simp]:
  "total_count (set_reset v r) = total_count r" "parent_bar (set_reset v r) = parent_bar r"
  by (simp_all add: set_reset_def)

section \<open>The three kinds of step\<close>

lemma bok_local:
  assumes "bok D G A s" and "tree_of s' = tree_of s" and "bars s' = bars s"
    and "\<And>u. thr_ok D G A u (entered s' u) (returned s' u) (bthrs s' u)"
    and "\<And>u. owned (bthrs s' u) \<subseteq> owned (bthrs s u)"
  shows "bok D G A s'"
proof -
  have "owned (bthrs s' t) \<inter> owned (bthrs s' u) = {}" if "t \<noteq> u" for t u
    using assms(1) assms(5) [of t] assms(5) [of u] that unfolding bok_def by blast
  with assms show ?thesis by (simp add: bok_def)
qed

text \<open>A round is complete exactly when the weights of its arrivals add up to the count.\<close>

lemma full_weight:
  assumes "shape_ok D" and "b < tb D"
  shows "full D G A b \<longleftrightarrow> (\<Sum>q\<in>arrived D G A b. weight D q) = unat (ttot D b)"
proof -
  have sub: "arrived D G A b \<subseteq> parts D b" by (auto simp: arrived_def)
  have "full D G A b \<longleftrightarrow> arrived D G A b = parts D b"
    by (auto simp: full_def arrived_def)
  also have "\<dots> \<longleftrightarrow> (\<Sum>q\<in>arrived D G A b. weight D q) = (\<Sum>q\<in>parts D b. weight D q)"
  proof
    assume eq: "(\<Sum>q\<in>arrived D G A b. weight D q) = (\<Sum>q\<in>parts D b. weight D q)"
    show "arrived D G A b = parts D b"
    proof (rule ccontr)
      assume "arrived D G A b \<noteq> parts D b"
      then obtain x where x: "x \<in> parts D b" "x \<notin> arrived D G A b" using sub by blast
      have "(\<Sum>q\<in>arrived D G A b. weight D q) < (\<Sum>q\<in>parts D b. weight D q)"
        by (rule sum_strict_mono2 [of _ _ x]) (use sub x weight_pos [OF assms(1) x(1)] in auto)
      with eq show False by simp
    qed
  qed simp
  finally show ?thesis by (simp add: shape_total [OF assms])
qed

lemma node_arrive:
  assumes "shape_ok D" and "node_ok D G A b r" and "b < tb D" and "p \<in> parts D b" and "A p = G b"
    and "unat i = weight D p"
  shows "node_ok D G (A(p := Suc (G b))) b (r\<lparr>waiting := waiting r + i\<rparr>)"
    and "waiting r + i = ttot D b \<longleftrightarrow> full D G (A(p := Suc (G b))) b"
    and "waiting r + i \<le> ttot D b"
proof -
  let ?A = "A(p := Suc (G b))"
  have arr: "arrived D G ?A b = insert p (arrived D G A b)"
    using assms(4) by (auto simp: arrived_def)
  have p: "p \<notin> arrived D G A b" using assms(5) by (simp add: arrived_def)
  have fin: "finite (arrived D G A b)" by (simp add: arrived_def)
  have sub: "arrived D G ?A b \<subseteq> parts D b" by (auto simp: arrived_def)
  have "(\<Sum>q\<in>arrived D G ?A b. weight D q) \<le> (\<Sum>q\<in>parts D b. weight D q)"
    by (rule sum_mono2) (use sub in auto)
  also have "\<dots> = unat (ttot D b)" by (rule shape_total [OF assms(1,3), symmetric])
  finally have le: "(\<Sum>q\<in>arrived D G ?A b. weight D q) \<le> unat (ttot D b)" .
  have "unat (waiting r) + unat i = (\<Sum>q\<in>arrived D G ?A b. weight D q)"
    using assms(2,6) p fin by (simp add: arr node_ok_def)
  with le have sum: "unat (waiting r + i) = (\<Sum>q\<in>arrived D G ?A b. weight D q)"
    using unsigned_less [of "ttot D b", where 'a = nat] by (simp add: unat_add_lem [THEN iffD1])
  show "node_ok D G ?A b (r\<lparr>waiting := waiting r + i\<rparr>)"
    using assms(2) sum by (auto simp: node_ok_def)
  show "waiting r + i \<le> ttot D b" using le sum by (simp add: word_le_nat_alt)
  show "waiting r + i = ttot D b \<longleftrightarrow> full D G ?A b"
    by (simp add: full_weight [OF assms(1,3)] word_unat_eq_iff sum)
qed

lemma bok_node: "bok D G A s \<Longrightarrow> b < tb D \<Longrightarrow> node_ok D G A b (bars s b)"
  and bok_thr: "bok D G A s \<Longrightarrow> thr_ok D G A t (entered s t) (returned s t) (bthrs s t)"
  and bok_link: "bok D G A s \<Longrightarrow> c < tb D \<Longrightarrow> link_ok D G A c"
  and bok_shape: "bok D G A s \<Longrightarrow> shape_ok D"
  and bok_tree: "bok D G A s \<Longrightarrow> tree_of s = D"
  and bok_owned: "bok D G A s \<Longrightarrow> t \<noteq> u \<Longrightarrow> owned (bthrs s t) \<inter> owned (bthrs s u) = {}"
  by (simp_all add: bok_def)

lemma tree_of_upd:
  assumes "tree_of s = D" and "nthr s' = nthr s" and "nbar s' = nbar s" and "leaf s' = leaf s"
    and "bars s' = (bars s)(b := r)"
    and "total_count r = total_count (bars s b)" and "parent_bar r = parent_bar (bars s b)"
  shows "tree_of s' = D"
  using assms by (auto simp: tree_of_def fun_eq_iff)

lemma bok_arrive:
  assumes ok: "bok D G A s"
    and p: "p \<in> parts D b" "A p = G b" "unat i = weight D p"
    and same: "nthr s' = nthr s" "nbar s' = nbar s" "leaf s' = leaf s"
      "\<And>u. u \<noteq> t \<Longrightarrow> bthrs s' u = bthrs s u \<and> entered s' u = entered s u \<and> returned s' u = returned s u"
    and mem: "bars s' = (bars s)(b := (bars s b)\<lparr>waiting := waiting (bars s b) + i\<rparr>)"
    and self: "thr_ok D G (A(p := Suc (G b))) t (entered s' t) (returned s' t) (bthrs s' t)"
    and caller: "\<And>c. p = Bar c \<Longrightarrow> full D G A c \<and> A p = G c \<and> c \<in> owned (bthrs s t)"
    and own: "\<And>u. p = Thr u \<Longrightarrow> u = t"
    and more: "owned (bthrs s' t) \<subseteq> insert b (owned (bthrs s t))"
  shows "bok D G (A(p := Suc (G b))) s'"
proof -
  let ?A = "A(p := Suc (G b))"
  note sh = bok_shape [OF ok]
  have b: "b < tb D" using parts_bound [OF sh p(1)] .
  have tree: "tree_of s' = D"
    by (rule tree_of_upd [OF bok_tree [OF ok] same(1,2,3) mem]) simp_all
  have nodes: "node_ok D G ?A c (bars s' c)" if "c < tb D" for c
  proof (cases "c = b")
    case True
    with node_arrive(1) [OF sh bok_node [OF ok b] b p] mem show ?thesis by simp
  next
    case False
    with p(1) have "p \<notin> parts D c" by (auto simp: parts_def)
    then have "arrived D G ?A c = arrived D G A c" by (auto simp: arrived_def)
    with bok_node [OF ok that] False mem \<open>p \<notin> parts D c\<close> show ?thesis
      by (auto simp: node_ok_def)
  qed
  have links: "link_ok D G ?A c" if "c < tb D" for c
  proof (cases "p = Bar c")
    case True
    with caller [OF True] p(1,2) bok_link [OF ok that] show ?thesis
      by (auto simp: link_ok_def intro: full_arrive)
  next
    case False
    with bok_link [OF ok that] full_arrive [of D G A c, OF _ p(1,2)] show ?thesis
      by (simp add: link_ok_def) blast
  qed
  have free: "b \<notin> owned (bthrs s u)" for u
    using owned_full [OF bok_thr [OF ok], of b u] p(1,2) by (auto simp: full_def)
  have others: "thr_ok D G ?A u (entered s' u) (returned s' u) (bthrs s' u)" for u
  proof (cases "u = t")
    case True
    with self show ?thesis by simp
  next
    case False
    have "p \<notin> uses u (bthrs s u)"
      using own False caller bok_owned [OF ok False] by (auto simp: uses_def)
    with thr_arrive [OF bok_thr [OF ok] p(1,2)] same(4) [OF False] show ?thesis by simp
  qed
  have "owned (bthrs s' x) \<inter> owned (bthrs s' y) = {}" if "x \<noteq> y" for x y
  proof -
    have sub: "owned (bthrs s' x) \<subseteq> (if x = t then insert b (owned (bthrs s x)) else owned (bthrs s x))"
      for x using more same(4) [of x] by auto
    show ?thesis
      using sub [of x] sub [of y] free bok_owned [OF ok that] that by (auto split: if_splits)
  qed
  with tree sh nodes links others show ?thesis by (simp add: bok_def)
qed

lemma bok_release:
  assumes ok: "bok D G A s"
    and b: "ready D G A b" "b < tb D" "b \<in> owned (bthrs s t)"
    and same: "nthr s' = nthr s" "nbar s' = nbar s" "leaf s' = leaf s"
      "\<And>u. u \<noteq> t \<Longrightarrow> bthrs s' u = bthrs s u \<and> entered s' u = entered s u \<and> returned s' u = returned s u"
    and mem: "bars s' = (bars s)(b := set_reset (ucast (of_nat (Suc (G b)) :: u32)) (bars s b))"
    and self: "thr_ok D (G(b := Suc (G b))) A t (entered s' t) (returned s' t) (bthrs s' t)"
    and less: "owned (bthrs s' t) \<subseteq> owned (bthrs s t)"
  shows "bok D (G(b := Suc (G b))) A s'"
proof -
  let ?G = "G(b := Suc (G b))"
  note sh = bok_shape [OF ok]
  have full: "full D G A b" using b(1) by (simp add: ready_def)
  have tree: "tree_of s' = D"
    by (rule tree_of_upd [OF bok_tree [OF ok] same(1,2,3) mem]) simp_all
  have nodes: "node_ok D ?G A c (bars s' c)" if "c < tb D" for c
  proof (cases "c = b")
    case True
    have "arrived D ?G A b = {}" using full by (auto simp: arrived_def full_def)
    then have "node_ok D ?G A b (set_reset (ucast (of_nat (Suc (G b)) :: u32)) (bars s b))"
      using full by (simp add: node_ok_def full_def del: of_nat_Suc)
    with True mem show ?thesis by simp
  next
    case False
    with bok_node [OF ok that] mem show ?thesis by (simp add: node_ok_def arrived_def)
  qed
  have links: "link_ok D ?G A c" if "c < tb D" for c
  proof (cases "c = b")
    case True
    have "q \<noteq> b" if "tpar D b = Some q" for q
      using shape_par [OF sh b(2) that] by simp
    with True b(1) show ?thesis by (auto simp: link_ok_def ready_def)
  next
    case False
    have "full D ?G A c = full D G A c" using False by (simp add: full_def)
    with False bok_link [OF ok that] show ?thesis by (auto simp: link_ok_def intro: le_SucI)
  qed
  have others: "thr_ok D ?G A u (entered s' u) (returned s' u) (bthrs s' u)" for u
  proof (cases "u = t")
    case True
    with self show ?thesis by simp
  next
    case False
    with b(3) bok_owned [OF ok False] have "b \<notin> owned (bthrs s u)" by blast
    from thr_release [OF bok_thr [OF ok] full this sh] same(4) [OF False] show ?thesis by simp
  qed
  have "owned (bthrs s' x) \<inter> owned (bthrs s' y) = {}" if "x \<noteq> y" for x y
  proof -
    have sub: "owned (bthrs s' x) \<subseteq> owned (bthrs s x)" for x
      using less same(4) [of x] by (cases "x = t") auto
    show ?thesis using sub [of x] sub [of y] bok_owned [OF ok that] by blast
  qed
  with tree sh nodes links others show ?thesis by (simp add: bok_def)
qed

section \<open>The accesses\<close>

lemma settle_simps [simp]:
  "nthr (settle s t x) = nthr s" "nbar (settle s t x) = nbar s" "leaf (settle s t x) = leaf s"
  "bars (settle s t x) = bars s" "entered (settle s t x) = entered s"
  "bthrs (settle s t x) = (bthrs s)(t := fst x)"
  "returned (settle s t x) = (if snd x = None then returned s
     else (returned s)(t := Suc (returned s t)))"
  "futex_barrier (settle s t x) = futex_barrier s"
  by (simp_all add: settle_def split: prod.splits option.splits)

definition returned_by :: "bthr \<times> int option \<Rightarrow> nat \<Rightarrow> nat" where
  "returned_by x n = (if snd x = None then n else Suc n)"

lemma finish_ok:
  assumes "chain D t (f # st)" and "callers_ok D G A False st" and "A (part_of t st) = G (bar f)"
    and "A (Thr t) = Suc re"
  shows "thr_ok D G A t (Suc re) (returned_by (finish r st) re) (fst (finish r st))"
    and "owned (fst (finish r st)) \<subseteq> bar ` set st"
  using assms
  by (cases st; auto simp: returned_by_def ready_def entering_def)+

lemma chain_below:
  assumes "shape_ok D" and "chain D t (f # st)" and "g \<in> set st"
  shows "bar g < bar f"
  using assms(2,3)
proof (induction st arbitrary: f)
  case Nil
  then show ?case by simp
next
  case (Cons h st)
  then have "bar h < bar f"
    using shape_par [OF assms(1), of "bar h" "bar f"] by simp
  moreover have "bar g < bar h" if "g \<in> set st"
    using Cons.IH [of h] Cons.prems(1) that by simp
  ultimately show ?case using Cons.prems(2) by fastforce
qed

lemma callers_add:
  assumes "shape_ok D" and "chain D t (f # st)" and "callers_ok D G A True st"
    and "A (part_of t st) = G (bar f)"
  shows "callers_ok D G (A(part_of t st := Suc (G (bar f)))) False st"
proof (cases st)
  case Nil
  then show ?thesis by simp
next
  case (Cons h st')
  let ?A = "A(Bar (bar h) := Suc (G (bar f)))"
  from assms(2) Cons have ch: "chain D t (h # st')" by simp
  have p: "Bar (bar h) \<in> parts D (bar f)" using chain_part(1) [OF assms(2)] Cons by simp
  have a: "A (Bar (bar h)) = G (bar f)" using assms(4) Cons by simp
  have "callers_ok D G ?A False st'"
    by (rule callers_arrive [of D G A False st', OF _ p a])
      (use assms(3) Cons in \<open>auto dest!: chain_below [OF assms(1) ch]\<close>)
  moreover have "full D G ?A (bar h)"
    by (rule full_arrive [of D G A "bar h", OF _ p a]) (use assms(3) Cons in simp)
  moreover have "?A (Bar (bar h)) = Suc (G (bar h))"
    using a assms(3) Cons by simp
  ultimately show ?thesis using Cons by simp
qed

lemma finishing_entering: "finishing pc \<Longrightarrow> \<not> entering pc"
  by (cases pc) (auto simp: entering_def)

lemma round_up:
  assumes "A p = G b \<or> A p = Suc (G b)" and "A p = Suc k" and "(of_nat k :: u32) \<noteq> of_nat (G b)"
  shows "A p = G b"
  using assms by auto

text \<open>The steps that change neither a barrier nor a count: an access of the running call.\<close>

lemma bok_quiet:
  assumes ok: "bok D G A s" and run: "bthrs s t = Run pc f st"
    and self: "thr_ok D G A t (entered s t) (returned_by x (returned s t)) (fst x)"
    and less: "owned (fst x) \<subseteq> owned (Run pc f st)"
  shows "bok D G A (settle (s\<lparr>bars := bars s\<rparr>) t x)"
proof (rule bok_local [OF ok])
  show "tree_of (settle (s\<lparr>bars := bars s\<rparr>) t x) = tree_of s" by (simp add: tree_of_def)
  show "thr_ok D G A u (entered (settle (s\<lparr>bars := bars s\<rparr>) t x) u)
      (returned (settle (s\<lparr>bars := bars s\<rparr>) t x) u) (bthrs (settle (s\<lparr>bars := bars s\<rparr>) t x) u)" for u
    using self bok_thr [OF ok, of u] by (auto simp: returned_by_def)
  show "owned (bthrs (settle (s\<lparr>bars := bars s\<rparr>) t x) u) \<subseteq> owned (bthrs s u)" for u
    using less run by auto
qed simp

text \<open>While a child still waits for arrivals, it has not yet arrived at its parent.\<close>

lemma child_late:
  assumes ok: "bok D G A s" and "b < tb D" and "tpar D b = Some q"
    and "p \<in> parts D b" and "A p = G b"
  shows "A (Bar b) = G b \<and> G b = G q \<and> p \<noteq> Bar b"
proof -
  note sh = bok_shape [OF ok]
  have "\<not> full D G A b" using assms(4,5) by (auto simp: full_def intro!: bexI [of _ p])
  with bok_link [OF ok assms(2)] assms(3) have a: "A (Bar b) = G b" "G b \<le> G q"
    by (auto simp: link_ok_def)
  have "Bar b \<in> parts D q" using assms(2,3) by (simp add: parts_def)
  with bok_node [OF ok parts_bound [OF sh]] have "A (Bar b) = G q \<or> A (Bar b) = Suc (G q)"
    by (auto simp: node_ok_def)
  moreover have "p \<noteq> Bar b"
    using assms(3,4) shape_par [OF sh assms(2,3)] by (auto simp: parts_def)
  ultimately show ?thesis using a by auto
qed

lemma step_add:
  assumes ok: "bok D G A s" and run: "bthrs s t = Run PAdd f st"
    and instr: "bar_instr (futex_barrier s) (bars s) PAdd f st = Some (B, x)"
  shows "\<exists>A. bok D G A (settle (s\<lparr>bars := B\<rparr>) t x)"
proof -
  let ?b = "bar f" and ?p = "part_of t st"
  let ?r = "bars s ?b"
  let ?A = "A(?p := Suc (G ?b))"
  from bok_thr [OF ok, of t] run
  have ch: "chain D t (f # st)" and a: "A ?p = G ?b" and c: "cur_seq f = of_nat (G ?b)"
    and call: "callers_ok D G A True st" and en: "entered s t = Suc (returned s t)"
    and at: "A (Thr t) = (if st = [] then returned s t else entered s t)"
    by (auto simp: entering_def)
  note p = chain_part [OF ch]
  note sh = bok_shape [OF ok]
  have b: "?b < tb D" by (rule parts_bound [OF sh p(1)])
  note node = node_arrive [OF sh bok_node [OF ok b] b p(1) a p(2)]
  have call': "callers_ok D G ?A False st"
    by (rule callers_add [OF sh ch call a])
  have at': "?A (Thr t) = entered s t"
    using at en a by (cases st) auto
  have tot: "total_count ?r = ttot D ?b" "parent_bar ?r = tpar D ?b"
    using bok_tree [OF ok] by (auto simp: tree_of_def)
  have B: "B = (bars s)(?b := ?r\<lparr>waiting := waiting ?r + inc_count f\<rparr>)"
    using instr by (auto simp: Let_def split: if_splits option.splits)
  have x: "snd x = None \<and> thr_ok D G ?A t (entered s t) (returned s t) (fst x) \<and>
      owned (fst x) \<subseteq> insert ?b (owned (bthrs s t))"
  proof (cases "full D G ?A ?b")
    case True
    with node(2) have eq: "waiting ?r + inc_count f = total_count ?r" by (simp add: tot)
    show ?thesis
    proof (cases "tpar D ?b")
      case None
      with instr eq tot have "x = (Run PRd f st, None)" by (auto simp: Let_def)
      with True None ch call' en at' run show ?thesis
        by (auto simp: ready_def entering_def)
    next
      case (Some q)
      with instr eq tot have "x = (Run PSeq (interproc_frame q (ttot D ?b)) (f # st), None)"
        by (auto simp: Let_def)
      moreover have "A (Bar ?b) = G ?b" and "A (Bar ?b) = G q"
        using child_late [OF ok b Some p(1) a] by simp_all
      moreover have "?p \<noteq> Bar ?b"
        using child_late [OF ok b Some p(1) a] by simp
      ultimately show ?thesis
        using True Some ch call' en at' run b p(1) a
        by (auto simp: interproc_frame_def entering_def)
    qed
  next
    case False
    with node(2,3) have "waiting ?r + inc_count f \<noteq> total_count ?r"
      and "waiting ?r + inc_count f < total_count ?r" by (auto simp: tot)
    with instr have "x = (Run PTest f st, None)" by (auto simp: Let_def)
    with ch call' en at' run c show ?thesis by (auto simp: entering_def)
  qed
  show ?thesis
  proof (intro exI, rule bok_arrive [OF ok p(1) a p(2)])
    show "bars (settle (s\<lparr>bars := B\<rparr>) t x) =
        (bars s)(?b := ?r\<lparr>waiting := waiting ?r + inc_count f\<rparr>)" by (simp add: B)
    show "full D G A c \<and> A ?p = G c \<and> c \<in> owned (bthrs s t)" if "?p = Bar c" for c
      using that call run by (cases st) auto
    show "u = t" if "?p = Thr u" for u using that by (cases st) auto
  qed (use x in auto)
qed

lemma returned_by_simps [simp]:
  "returned_by (th, None) n = n" "returned_by (th, Some r) n = Suc n"
  by (simp_all add: returned_by_def)

lemma chain_core: "chain D t (f # st) \<Longrightarrow> kind f = Core \<Longrightarrow> st = []"
  by (cases st) auto

lemma chain_inter: "chain D t (f # st) \<Longrightarrow> kind f = Inter \<Longrightarrow> st \<noteq> []"
  by (cases st) auto

lemma chain_cong:
  "kind f = kind f' \<Longrightarrow> bar f = bar f' \<Longrightarrow> inc_count f = inc_count f' \<Longrightarrow>
   chain D t (f # st) = chain D t (f' # st)"
  by (cases st) auto

lemma step_reset:
  assumes ok: "bok D G A s" and run: "bthrs s t = Run (PReset v) f st"
    and instr: "bar_instr (futex_barrier s) (bars s) (PReset v) f st = Some (B, x)"
  shows "bok D (G(bar f := Suc (G (bar f)))) A (settle (s\<lparr>bars := B\<rparr>) t x)"
proof -
  let ?b = "bar f" and ?p = "part_of t st"
  let ?G = "G(?b := Suc (G ?b))"
  note sh = bok_shape [OF ok]
  from bok_thr [OF ok, of t] run
  have ch: "chain D t (f # st)" and rd: "ready D G A ?b" and v: "v = of_nat (Suc (G ?b))"
    and call: "callers_ok D G A False st" and en: "entered s t = Suc (returned s t)"
    and at: "A (Thr t) = entered s t"
    by (auto simp: entering_def)
  note p = chain_part [OF ch]
  have b: "?b < tb D" by (rule parts_bound [OF sh p(1)])
  have a: "A ?p = ?G ?b" using rd p(1) by (simp add: ready_def full_def)
  have below: "?b \<notin> bar ` set st" using chain_below [OF sh ch] by fastforce
  have call': "callers_ok D ?G A False st" by (rule callers_release [OF call below])
  have B: "B = (bars s)(?b := set_reset (ucast v) (bars s ?b))"
    using instr by (auto simp: Let_def split: if_splits wait_kind.splits)
  have fin: "thr_ok D ?G A t (entered s t) (returned_by (finish r st) (returned s t)) (fst (finish r st)) \<and>
      owned (fst (finish r st)) \<subseteq> bar ` set st" for r
    using finish_ok [OF ch call' a at [unfolded en]] unfolding en by blast
  have x: "thr_ok D ?G A t (entered s t) (returned_by x (returned s t)) (fst x) \<and>
      owned (fst x) \<subseteq> bar ` set st"
  proof (cases "futex_barrier s \<and> kind f = Core \<and> 1 < total_count (bars s ?b)")
    case True
    then have "x = (Run PWake f st, None)" using instr by (auto simp: Let_def)
    moreover have "st = []" using chain_core [OF ch] True by simp
    ultimately show ?thesis
      using True ch a at en by (simp add: entering_def)
  next
    case False
    then obtain r where "x = finish r st"
      using instr by (cases "kind f") (auto simp: Let_def)
    with fin show ?thesis by simp
  qed
  show ?thesis
  proof (rule bok_release [OF ok rd b, of t])
    show "?b \<in> owned (bthrs s t)" by (simp add: run)
    show "bars (settle (s\<lparr>bars := B\<rparr>) t x) =
        (bars s)(?b := set_reset (ucast (of_nat (Suc (G ?b)) :: u32)) (bars s ?b))"
      by (simp add: B v del: of_nat_Suc)
  qed (use x run in \<open>auto simp: returned_by_def\<close>)
qed

lemma step_test:
  assumes ok: "bok D G A s" and run: "bthrs s t = Run PTest f st"
    and instr: "bar_instr (futex_barrier s) (bars s) PTest f st = Some (B, x)"
  shows "bok D G A (settle (s\<lparr>bars := B\<rparr>) t x)"
proof -
  let ?b = "bar f" and ?p = "part_of t st"
  note sh = bok_shape [OF ok]
  from bok_thr [OF ok, of t] run obtain k
  where ch: "chain D t (f # st)" and k: "A ?p = Suc k" "cur_seq f = of_nat k"
    and call: "callers_ok D G A False st" and en: "entered s t = Suc (returned s t)"
    and at: "A (Thr t) = entered s t"
    by (auto simp: entering_def)
  note p = chain_part [OF ch]
  have b: "?b < tb D" by (rule parts_bound [OF sh p(1)])
  have B: "B = bars s" using instr by (auto split: if_splits)
  have "thr_ok D G A t (entered s t) (returned_by x (returned s t)) (fst x) \<and>
      owned (fst x) \<subseteq> owned (Run PTest f st)"
  proof (cases "cur_seq f = seq (bars s ?b)")
    case True
    with instr have "x = (Run (case kind f of Core \<Rightarrow> if futex_barrier s then PWait else PTest | Inter \<Rightarrow> PTest) f st, None)" by simp
    with ch k call en at show ?thesis
      by (auto simp: entering_def split: wait_kind.splits)
  next
    case False
    with instr have x: "x = finish 0 st" by simp
    have "seq (bars s ?b) = of_nat (G ?b)" and "A ?p = G ?b \<or> A ?p = Suc (G ?b)"
      using bok_node [OF ok b] p(1) by (auto simp: node_ok_def)
    with False k have "A ?p = G ?b" by (metis nat.inject)
    from finish_ok [OF ch call this] at en x show ?thesis by simp
  qed
  then show ?thesis unfolding B by (intro bok_quiet [OF ok run]) simp_all
qed

lemma thr_awake:
  assumes "thr_ok D G A u en re th"
  shows "thr_ok D G A u en re (awake b th)" and "owned (awake b th) = owned th"
  using assms by (cases "(b, th)" rule: awake.cases; auto simp: entering_def)+

text \<open>The barrier whose next round a step opens, and the round numbers after it.\<close>

fun opened :: "bsys \<Rightarrow> bevent \<Rightarrow> bid option" where
  "opened s (BInstr t) = (case bthrs s t of Run (PReset v) f st \<Rightarrow> Some (bar f) | _ \<Rightarrow> None)"
| "opened s e = None"

definition advance :: "bid option \<Rightarrow> rounds \<Rightarrow> rounds" where
  "advance x G = (case x of None \<Rightarrow> G | Some b \<Rightarrow> G(b := Suc (G b)))"

lemma step_call:
  assumes ok: "bok D G A s" and t: "t < nthr s" "bthrs s t = Idle"
  shows "bok D G A (s\<lparr>bthrs := (bthrs s)(t := Run PSeq (wait_frame (leaf s t)) []),
       entered := (entered s)(t := Suc (entered s t))\<rparr>)"
proof (rule bok_local [OF ok])
  let ?s' = "s\<lparr>bthrs := (bthrs s)(t := Run PSeq (wait_frame (leaf s t)) []),
       entered := (entered s)(t := Suc (entered s t))\<rparr>"
  have D: "nthr s = tn D" "leaf s = tleaf D" using bok_tree [OF ok] by (auto simp: tree_of_def)
  show "tree_of ?s' = tree_of s" by (simp add: tree_of_def)
  show "thr_ok D G A u (entered ?s' u) (returned ?s' u) (bthrs ?s' u)" for u
    using bok_thr [OF ok, of u] t D
    by (cases "u = t") (auto simp: wait_frame_def entering_def)
qed auto

lemma step_instr:
  assumes ok: "bok D G A s" and run: "bthrs s t = Run pc f st"
    and instr: "bar_instr (futex_barrier s) (bars s) pc f st = Some (B, x)"
  shows "\<exists>A. bok D (advance (opened s (BInstr t)) G) A (settle (s\<lparr>bars := B\<rparr>) t x)"
proof -
  note thr = bok_thr [OF ok, of t, unfolded run]
  note quiet = bok_quiet [OF ok run]
  have sq: "seq (bars s (bar f)) = of_nat (G (bar f))"
    using bok_node [OF ok, of "bar f"] chain_bars [OF bok_shape [OF ok], of t "f # st" f] thr
    by (simp add: node_ok_def)
  show ?thesis
  proof (cases pc)
    case PSeq
    then have "B = bars s" and "bok D G A (settle (s\<lparr>bars := bars s\<rparr>) t x)"
      using instr thr sq
      by (auto intro!: quiet simp: entering_def chain_cong [of f "f\<lparr>cur_seq := y\<rparr>" for y])
    with PSeq run show ?thesis by (auto simp: advance_def)
  next
    case PAdd
    with step_add [OF ok, of t f st] run instr show ?thesis by (simp add: advance_def)
  next
    case PTest
    with step_test [OF ok, of t f st] run instr show ?thesis by (auto simp: advance_def)
  next
    case PWait
    then have "B = bars s" and "bok D G A (settle (s\<lparr>bars := bars s\<rparr>) t x)"
      using instr thr by (auto intro!: quiet simp: entering_def split: if_splits)
    with PWait run show ?thesis by (auto simp: advance_def)
  next
    case PRd
    then have "B = bars s" and "bok D G A (settle (s\<lparr>bars := bars s\<rparr>) t x)"
      using instr thr sq by (auto intro!: quiet simp: entering_def)
    with PRd run show ?thesis by (auto simp: advance_def)
  next
    case (PReset v)
    with step_reset [OF ok, of t v f st] run instr show ?thesis by (auto simp: advance_def)
  qed (use instr in auto)
qed

lemma step_wake:
  assumes ok: "bok D G A s" and run: "bthrs s t = Run PWake f st"
  shows "bok D G A (settle (s\<lparr>bthrs := awake (bar f) \<circ> bthrs s\<rparr>) t
    (finish PTHREAD_BARRIER_SERIAL_THREAD st))" (is "bok D G A ?s'")
proof -
  note thr = bok_thr [OF ok, of t, unfolded run]
  then have st: "st = []" using chain_core by auto
  show ?thesis
  proof (rule bok_local [OF ok])
    show "tree_of ?s' = tree_of s" by (simp add: tree_of_def)
    show "thr_ok D G A u (entered ?s' u) (returned ?s' u) (bthrs ?s' u)" for u
    proof (cases "u = t")
      case True
      with thr st show ?thesis by (cases f) (auto simp: entering_def)
    next
      case False
      with thr_awake(1) [OF bok_thr [OF ok, of u]] st show ?thesis by simp
    qed
    show "owned (bthrs ?s' u) \<subseteq> owned (bthrs s u)" for u
      using thr_awake(2) [OF bok_thr [OF ok, of u]] st by auto
  qed simp
qed

lemma step_spurious:
  assumes ok: "bok D G A s" and run: "bthrs s t = Run PSleep f st"
  shows "bok D G A (s\<lparr>bthrs := (bthrs s)(t := Run PTest f st)\<rparr>)" (is "bok D G A ?s'")
proof (rule bok_local [OF ok])
  show "tree_of ?s' = tree_of s" by (simp add: tree_of_def)
  show "thr_ok D G A u (entered ?s' u) (returned ?s' u) (bthrs ?s' u)" for u
    using bok_thr [OF ok, of u] run by (cases "u = t") (auto simp: entering_def)
  show "owned (bthrs ?s' u) \<subseteq> owned (bthrs s u)" for u using run by auto
qed simp

lemma bok_step:
  assumes "bstep s e s'" and "bok D G A s"
  shows "\<exists>A. bok D (advance (opened s e) G) A s'"
  using assms
proof (induction rule: bstep.induct)
  case (bcall t s)
  from step_call [OF bcall.prems bcall.hyps] show ?case by (auto simp: advance_def)
next
  case (binstr t s pc f st B x)
  from step_instr [OF binstr.prems binstr.hyps(2,3)] show ?case .
next
  case (bwake t s f st)
  from step_wake [OF bwake.prems bwake.hyps(2)] show ?case by (auto simp: advance_def)
next
  case (bspurious t s f st)
  from step_spurious [OF bspurious.prems bspurious.hyps(2)] show ?case by (auto simp: advance_def)
qed

section \<open>Reachable states\<close>

lemma barrier_inv_bok: "bsys_init s \<Longrightarrow> \<exists>D A. bok D (\<lambda>_. 0) A s"
proof -
  assume init: "bsys_init s"
  let ?D = "tree_of s"
  have sh: "shape_ok ?D" using init by (simp add: bsys_init_def tree_ok_shape)
  have zero: "seq (bars s b) = 0 \<and> waiting (bars s b) = 0" if "b < nbar s" for b
  proof -
    from init that obtain env b0 count l b1
      where b1: "\<exists>l'. fastsync_barrier_init env (Some b0) count l = Some (0, Some b1, l')"
        and b: "bars s b = b1\<lparr>parent_bar := parent_bar (bars s b)\<rparr>"
      unfolding bsys_init_def by blast
    from b1 have "seq b1 = 0" "waiting b1 = 0"
      by (auto simp: barrier_init_result set_reset_def)
    with b show ?thesis by (metis fastsync_barrier.select_convs(1,2) fastsync_barrier.surjective fastsync_barrier.update_convs(4))
  qed
  have "bok ?D (\<lambda>_. 0) (\<lambda>_. 0) s"
    using init sh zero
    by (auto simp: bok_def bsys_init_def node_ok_def link_ok_def arrived_def tree_of_def)
  then show ?thesis by blast
qed

lemma barrier_inv_init: "bsys_init s \<Longrightarrow> barrier_inv s"
  using barrier_inv_bok bok_tree unfolding barrier_inv_def by blast

lemma barrier_inv_step: "barrier_inv s \<Longrightarrow> bstep s e s' \<Longrightarrow> barrier_inv s'"
  unfolding barrier_inv_def using bok_step bok_tree by metis

interpretation barrier_safe: invariant_of bsys_init bstep barrier_inv
  by unfold_locales (rule barrier_inv_init, assumption, rule barrier_inv_step)

end
