(* ===== verification/Barrier_Live.thy ===== *)
theory Barrier_Live imports Barrier_Steps begin

text \<open>
  Two more facts of every reachable state, which the code needs so that nobody waits for
  ever: a barrier whose count is complete has a thread that is going to open its next round
  (\<open>attended\<close>), and a thread that sleeps although its round is over has a thread in front of
  its FUTEX_WAKE call (\<open>awaited\<close>).
\<close>

definition attended :: "bsys \<Rightarrow> bool" where
  "attended s \<longleftrightarrow> (\<forall>b < nbar s. waiting (bars s b) = total_count (bars s b) \<longrightarrow>
     (\<exists>t. b \<in> owned (bthrs s t)))"

definition waker :: "bsys \<Rightarrow> bid \<Rightarrow> tid \<Rightarrow> bool" where
  "waker s b u \<longleftrightarrow> (\<exists>g st. bthrs s u = Run PWake g st \<and> bar g = b)"

text \<open>Where the code spins instead of making the futex call, nobody sleeps.\<close>

definition sleeps :: "bthr \<Rightarrow> bool" where
  "sleeps th \<longleftrightarrow> (\<exists>f st. th = Run PWait f st \<or> th = Run PSleep f st)"

definition awaited :: "bsys \<Rightarrow> bool" where
  "awaited s \<longleftrightarrow> (\<forall>t. sleeps (bthrs s t) \<longrightarrow> futex_barrier s) \<and> (\<forall>t f st. bthrs s t = Run PSleep f st \<longrightarrow>
     cur_seq f \<noteq> seq (bars s (bar f)) \<longrightarrow> (\<exists>u. waker s (bar f) u))"

lemma attendedD: "attended s \<Longrightarrow> b < nbar s \<Longrightarrow> waiting (bars s b) = total_count (bars s b) \<Longrightarrow>
    \<exists>t. b \<in> owned (bthrs s t)"
  unfolding attended_def by blast

lemma awaitedD: "awaited s \<Longrightarrow> bthrs s t = Run PSleep f st \<Longrightarrow>
    cur_seq f \<noteq> seq (bars s (bar f)) \<Longrightarrow> \<exists>u. waker s (bar f) u"
  unfolding awaited_def by blast

lemma sleeps_simps [simp]:
  "sleeps (Run PWait f st)" "sleeps (Run PSleep f st)" "\<not> sleeps Idle" "\<not> sleeps (fst (finish r st))"
  "\<not> sleeps (Run PSeq f st)" "\<not> sleeps (Run PTest f st)"
  by (auto simp: sleeps_def) (cases st; simp)+

lemma sleeps_run: "sleeps (Run pc f st) \<longleftrightarrow> pc = PWait \<or> pc = PSleep"
  by (auto simp: sleeps_def)

lemma awake_sleeps: "sleeps (awake b th) \<Longrightarrow> sleeps th"
  by (induction b th rule: awake.induct) (auto simp: sleeps_def split: if_splits)

lemma bok_total: "bok D G A s \<Longrightarrow> total_count (bars s b) = ttot D b"
  and bok_parent: "bok D G A s \<Longrightarrow> parent_bar (bars s b) = tpar D b"
  and bok_nbar: "bok D G A s \<Longrightarrow> nbar s = tb D"
  and bok_nthr: "bok D G A s \<Longrightarrow> nthr s = tn D"
  and bok_leaf: "bok D G A s \<Longrightarrow> leaf s = tleaf D"
  by (drule bok_tree, auto simp: tree_of_def)+

lemma bok_full:
  assumes ok: "bok D G A s" and b: "b < tb D"
  shows "full D G A b \<longleftrightarrow> waiting (bars s b) = total_count (bars s b)"
  using bok_node [OF ok b] full_weight [OF bok_shape [OF ok] b, of G A]
  by (simp add: node_ok_def word_unat_eq_iff bok_total [OF ok])

lemma owned_finish [simp]: "owned (fst (finish r st)) = bar ` set st"
  by (cases st) auto

lemma finish_pc: "fst (finish r st) \<noteq> Run PSleep g st'" "fst (finish r st) \<noteq> Run PWake g st'"
  by (cases st; simp)+

lemma awake_simps [simp]:
  "owned (awake b th) = owned th"
  "awake b th = Run PWake g st \<longleftrightarrow> th = Run PWake g st"
  "awake b th = Run PSleep g st \<longleftrightarrow> th = Run PSleep g st \<and> bar g \<noteq> b"
  by (induction b th rule: awake.induct) auto

text \<open>The count never passes the total, so the code's last case is not reached.\<close>

lemma add_bound:
  assumes ok: "bok D G A s" and run: "bthrs s t = Run PAdd f st"
  shows "waiting (bars s (bar f)) + inc_count f \<le> total_count (bars s (bar f))"
    and "bar f < tb D"
proof -
  note thr = bok_thr [OF ok, of t, unfolded run]
  then have ch: "chain D t (f # st)" by simp
  note p = chain_part [OF ch]
  show b: "bar f < tb D" by (rule parts_bound [OF bok_shape [OF ok] p(1)])
  show "waiting (bars s (bar f)) + inc_count f \<le> total_count (bars s (bar f))"
    using node_arrive(3) [OF bok_shape [OF ok] bok_node [OF ok b] b p(1) _ p(2)] thr
    by (simp add: bok_total [OF ok])
qed

text \<open>What one access does to the ownership of barriers and to their counts.\<close>

lemma instr_owned:
  assumes ok: "bok D G A s" and run: "bthrs s t = Run pc f st"
    and instr: "bar_instr (futex_barrier s) (bars s) pc f st = Some (B, x)"
    and b: "b < tb D" "waiting (B b) = total_count (B b)"
  shows "b \<in> owned (fst x) \<or>
    b \<notin> owned (Run pc f st) \<and> waiting (bars s b) = total_count (bars s b)"
proof (cases pc)
  case PAdd
  with instr add_bound(1) [OF ok] run b show ?thesis
    by (auto simp: Let_def split: if_splits option.splits)
next
  case (PReset v)
  have "total_count (bars s b) \<noteq> 0"
    using shape_pos [OF bok_shape [OF ok] b(1)] by (auto simp: bok_total [OF ok])
  with PReset instr b(2) show ?thesis
    by (auto simp: Let_def split: if_splits wait_kind.splits)
qed (use instr b in \<open>auto split: if_splits wait_kind.splits\<close>)


text \<open>Only the 64-bit store moves a sequence number, and it leaves nobody asleep unattended.\<close>

lemma instr_seq:
  "bar_instr u B0 pc f st = Some (B, x) \<Longrightarrow> \<forall>v. pc \<noteq> PReset v \<Longrightarrow> seq (B b) = seq (B0 b)"
  by (cases pc) (auto simp: Let_def split: if_splits option.splits wait_kind.splits)

lemma two_parts:
  assumes "shape_ok D" and "b < tb D" and "p \<in> parts D b" and "q \<in> parts D b" and "p \<noteq> q"
  shows "1 < ttot D b"
proof -
  have "weight D p + weight D q = (\<Sum>r\<in>{p, q}. weight D r)" using assms(5) by simp
  also have "\<dots> \<le> (\<Sum>r\<in>parts D b. weight D r)"
    by (rule sum_mono2) (use assms in auto)
  also have "\<dots> = unat (ttot D b)" by (rule shape_total [OF assms(1,2), symmetric])
  finally show ?thesis
    using weight_pos [OF assms(1,3)] weight_pos [OF assms(1,4)] by (simp add: word_less_nat_alt)
qed

lemma reset_sleeper:
  assumes ok: "bok D G A s" and run: "bthrs s t = Run (PReset v) f st"
    and sleep: "bthrs s u = Run PSleep g st'" "bar g = bar f"
  shows "kind f = Core \<and> 1 < total_count (bars s (bar f)) \<and> st = []"
proof -
  note sh = bok_shape [OF ok]
  have ch: "chain D t (f # st)" and ch': "chain D u (g # st')" and core: "kind g = Core"
    using bok_thr [OF ok, of t] bok_thr [OF ok, of u] run sleep by auto
  have p: "part_of t st \<in> parts D (bar f)" and q: "part_of u st' \<in> parts D (bar f)"
    using chain_part(1) [OF ch] chain_part(1) [OF ch'] sleep by auto
  have st': "st' = []" by (rule chain_core [OF ch' core])
  have b: "bar f < tb D" by (rule parts_bound [OF sh p])
  have up: "up D (Thr u) = Some (bar f)" using q st' by (simp add: parts_def)
  have "kind f = Core"
  proof (rule ccontr)
    assume "kind f \<noteq> Core"
    then obtain h st2 where "st = h # st2" using chain_inter [OF ch] by (cases st; cases "kind f") auto
    with p have "up D (Bar (bar h)) = Some (bar f)" by (simp add: parts_def)
    with shape_kind [OF sh b up] show False by simp
  qed
  then have st: "st = []" by (rule chain_core [OF ch])
  have "t \<noteq> u" using run sleep by auto
  with two_parts [OF sh b p q] st st' \<open>kind f = Core\<close> show ?thesis by (simp add: bok_total [OF ok])
qed


section \<open>Every step keeps both\<close>

lemma bstep_static:
  "bstep s e s' \<Longrightarrow> nbar s' = nbar s \<and> nthr s' = nthr s \<and> leaf s' = leaf s \<and> futex_barrier s' = futex_barrier s"
  by (induction rule: bstep.induct) auto

lemma attended_step:
  assumes ok: "bok D G A s" and att: "attended s" and step: "bstep s e s'"
  shows "attended s'"
  unfolding attended_def
proof (intro allI impI)
  fix b assume b: "b < nbar s'" and full: "waiting (bars s' b) = total_count (bars s' b)"
  have b': "b < nbar s" "b < tb D"
    using b bstep_static [OF step] bok_nbar [OF ok] by simp_all
  note prev = attendedD [OF att b'(1)]
  from step show "\<exists>t. b \<in> owned (bthrs s' t)"
  proof cases
    case (bcall t)
    with full prev obtain u where "b \<in> owned (bthrs s u)" by auto
    with bcall show ?thesis by (intro exI [of _ u]) auto
  next
    case (binstr t pc f st B x)
    show ?thesis
    proof (cases "b \<in> owned (fst x)")
      case True
      with binstr show ?thesis by (intro exI [of _ t]) simp
    next
      case False
      have "waiting (B b) = total_count (B b)" using full binstr by simp
      with instr_owned [OF ok, of t pc f st B x b] b'(2) False binstr have
        "b \<notin> owned (bthrs s t)" "waiting (bars s b) = total_count (bars s b)" by simp_all
      with prev obtain u where "b \<in> owned (bthrs s u)" "u \<noteq> t" by blast
      with binstr show ?thesis by (intro exI [of _ u]) simp
    qed
  next
    case (bwake t f st)
    with full prev obtain u where "b \<in> owned (bthrs s u)" by auto
    with bwake show ?thesis by (intro exI [of _ u]) auto
  next
    case (bspurious t f st)
    with full prev obtain u where "b \<in> owned (bthrs s u)" by auto
    with bspurious show ?thesis by (intro exI [of _ u]) auto
  qed
qed

lemma instr_pc:
  "bar_instr u B0 pc f st = Some (B, x) \<Longrightarrow> fst x = Run PSleep g st' \<Longrightarrow>
     g = f \<and> seq (B (bar f)) = cur_seq f"
  "bar_instr u B0 pc f st = Some (B, x) \<Longrightarrow> pc \<noteq> PWake"
  by (cases pc; auto simp: Let_def finish_pc split: if_splits option.splits wait_kind.splits)+

lemma instr_sleeps:
  "bar_instr u B0 pc f st = Some (B, x) \<Longrightarrow> sleeps (fst x) \<Longrightarrow> u \<or> sleeps (Run pc f st)"
  using sleeps_simps(4)
  by (cases pc) (fastforce simp: Let_def sleeps_run split: if_splits option.splits wait_kind.splits)+

lemma step_sleeps: "bstep s e s' \<Longrightarrow> sleeps (bthrs s' u) \<Longrightarrow> futex_barrier s \<or> (\<exists>t. sleeps (bthrs s t))"
proof (induction rule: bstep.induct)
  case (binstr t s pc f st B x)
  then show ?case using instr_sleeps [of "futex_barrier s" "bars s" pc f st B x] by (cases "u = t") (simp, metis, simp, blast)
qed (auto dest: awake_sleeps split: if_splits)

lemma awaited_step:
  assumes ok: "bok D G A s" and aw: "awaited s" and step: "bstep s e s'"
  shows "awaited s'"
  unfolding awaited_def
proof (intro conjI allI impI)
  show "futex_barrier s'" if "sleeps (bthrs s' u)" for u
    using step_sleeps [OF step that] aw bstep_static [OF step] by (auto simp: awaited_def)
next
  fix u g st' assume sleep: "bthrs s' u = Run PSleep g st'" and old: "cur_seq g \<noteq> seq (bars s' (bar g))"
  note prev = awaitedD [OF aw, of u g st']
  from step show "\<exists>w. waker s' (bar g) w"
  proof cases
    case (bcall t)
    with sleep old prev obtain w where "waker s (bar g) w" by (auto split: if_splits)
    with bcall show ?thesis by (intro exI [of _ w]) (auto simp: waker_def)
  next
    case (binstr t pc f st B x)
    have u: "u \<noteq> t" using sleep old binstr instr_pc(1) [of _ _ pc f st B x g st'] by auto
    then have sleep': "bthrs s u = Run PSleep g st'" using sleep binstr by simp
    show ?thesis
    proof (cases "\<exists>v. pc = PReset v \<and> bar g = bar f")
      case True
      then obtain v where v: "pc = PReset v" "bar g = bar f" by blast
      with reset_sleeper [OF ok, of t v f st u g st'] binstr sleep'
      have "kind f = Core" "1 < total_count (bars s (bar f))" by auto
      moreover have "futex_barrier s"
        using aw sleep' by (metis awaited_def sleeps_simps(2))
      ultimately show ?thesis using binstr v
        by (intro exI [of _ t]) (auto simp: waker_def Let_def)
    next
      case False
      then have "seq (B (bar g)) = seq (bars s (bar g))"
        using instr_seq [of _ _ pc f st B x "bar g"] binstr by (cases pc) (auto simp: Let_def split: if_splits wait_kind.splits)
      with prev sleep' old binstr obtain w where w: "waker s (bar g) w" by auto
      with instr_pc(2) binstr have "w \<noteq> t" by (auto simp: waker_def)
      with w binstr show ?thesis by (intro exI [of _ w]) (simp add: waker_def)
    qed
  next
    case (bwake t f st)
    with sleep finish_pc have "u \<noteq> t" by (auto simp: fun_upd_def)
    with bwake sleep have sleep': "bthrs s u = Run PSleep g st'" "bar g \<noteq> bar f" by auto
    with prev old bwake obtain w where w: "waker s (bar g) w" by auto
    with sleep' bwake have "w \<noteq> t" by (auto simp: waker_def)
    with w bwake show ?thesis by (intro exI [of _ w]) (auto simp: waker_def)
  next
    case (bspurious t f st)
    with sleep old prev obtain w where "waker s (bar g) w" by (auto split: if_splits)
    with bspurious show ?thesis by (intro exI [of _ w]) (auto simp: waker_def)
  qed
qed

definition barrier_live :: "bsys \<Rightarrow> bool" where
  "barrier_live s \<longleftrightarrow> barrier_inv s \<and> attended s \<and> awaited s"

lemma barrier_live_init: "bsys_init s \<Longrightarrow> barrier_live s"
proof -
  assume init: "bsys_init s"
  have "waiting (bars s b) \<noteq> total_count (bars s b)" if b: "b < nbar s" for b
  proof -
    from init b obtain env b0 count l b1
      where "\<exists>l'. fastsync_barrier_init env (Some b0) count l = Some (0, Some b1, l')"
        and eq: "bars s b = b1\<lparr>parent_bar := parent_bar (bars s b)\<rparr>"
      unfolding bsys_init_def by blast
    then have "waiting b1 = 0" by (auto simp: barrier_init_result set_reset_def)
    moreover have "waiting (bars s b) = waiting b1" by (subst eq) simp
    moreover have "total_count (bars s b) \<noteq> 0"
      using init b unfolding bsys_init_def tree_ok_def by blast
    ultimately show ?thesis by simp
  qed
  then have "attended s" by (auto simp: attended_def)
  moreover have "awaited s" using init by (simp add: awaited_def bsys_init_def)
  ultimately show ?thesis using barrier_inv_init [OF init] by (simp add: barrier_live_def)
qed

lemma barrier_live_step: "barrier_live s \<Longrightarrow> bstep s e s' \<Longrightarrow> barrier_live s'"
  unfolding barrier_live_def
  using barrier_inv_step attended_step awaited_step by (metis barrier_inv_def)

interpretation barrier_alive: invariant_of bsys_init bstep barrier_live
  by unfold_locales (rule barrier_live_init, assumption, rule barrier_live_step)

end
