(* ===== verification/Barrier_Waits.thy ===== *)
theory Barrier_Waits imports Barrier_Live begin

text \<open>
  How the rounds of the barriers of one tree are related. Upwards from a thread's barrier
  the round numbers do not fall; an open round has been entered by all threads below
  (\<open>entered_round\<close>). When nothing moves (\<open>bquiet\<close>), every barrier that somebody waits for
  leads up to a barrier that is not complete (\<open>rest_open\<close>), and from there down to a thread
  that has not made its call (\<open>rest_late\<close>).
\<close>

section \<open>Threads that meet\<close>

text \<open>\<open>under s t b\<close>: the calls of thread t are counted at barrier b, its own or one above it.\<close>

inductive under :: "bsys \<Rightarrow> tid \<Rightarrow> bid \<Rightarrow> bool" for s :: bsys and t :: tid where
  under_leaf: "t < nthr s \<Longrightarrow> under s t (leaf s t)"
| under_parent: "under s t c \<Longrightarrow> parent_bar (bars s c) = Some b \<Longrightarrow> under s t b"

definition joined :: "bsys \<Rightarrow> tid \<Rightarrow> tid \<Rightarrow> bool" where
  "joined s t u \<longleftrightarrow> (\<exists>b. under s t b \<and> under s u b)"

lemma under_tb:
  assumes "bok D G A s" and "under s t b"
  shows "b < tb D"
  using assms(2)
proof (induction rule: under.induct)
  case under_leaf
  then show ?case
    using shape_leaf [OF bok_shape [OF assms(1)]] by (simp add: bok_nthr [OF assms(1)] bok_leaf [OF assms(1)])
next
  case (under_parent c b)
  then show ?case
    using shape_par [OF bok_shape [OF assms(1)], of c b] by (simp add: bok_parent [OF assms(1)])
qed

lemma bok_part:
  assumes "bok D G A s" and "p \<in> parts D b"
  shows "A p = G b \<or> A p = Suc (G b)"
  using bok_node [OF assms(1) parts_bound [OF bok_shape [OF assms(1)] assms(2)]] assms(2)
  by (simp add: node_ok_def)

lemma thr_arrivals:
  assumes "thr_ok D G A t en re th" and "t < tn D"
  shows "A (Thr t) \<le> en" and "re \<le> A (Thr t)" and "re \<le> en" and "re \<noteq> A (Thr t) \<Longrightarrow> en = A (Thr t)"
  using assms by (cases th; auto)+

lemma returned_round:
  assumes ok: "bok D G A s" and t: "t < tn D"
  shows "returned s t \<le> G (tleaf D t)"
proof -
  note thr = bok_thr [OF ok, of t]
  have p: "A (Thr t) = G (tleaf D t) \<or> A (Thr t) = Suc (G (tleaf D t))"
    by (rule bok_part [OF ok]) (simp add: parts_def t)
  show ?thesis
  proof (cases "bthrs s t")
    case Idle
    with thr t show ?thesis by simp
  next
    case (Run pc f st)
    with thr t p show ?thesis by (cases pc; cases st) (auto simp: entering_def)
  qed
qed

lemma round_up_tree:
  assumes ok: "bok D G A s" and "under s t b"
  shows "G (tleaf D t) \<le> G b"
  using assms(2)
proof (induction rule: under.induct)
  case under_leaf
  then show ?case by (simp add: bok_leaf [OF ok])
next
  case (under_parent c b)
  from under_tb [OF ok under_parent.hyps(1)] bok_link [OF ok, of c] under_parent
  show ?case by (simp add: link_ok_def bok_parent [OF ok])
qed

text \<open>A round that is open at b, or complete there, has been entered by all threads under b.\<close>

lemma entered_round:
  assumes ok: "bok D G A s" and "under s u b"
  shows "G b \<le> entered s u \<and> (full D G A b \<longrightarrow> Suc (G b) \<le> entered s u)"
  using assms(2)
proof (induction rule: under.induct)
  case under_leaf
  then have u: "u < tn D" by (simp add: bok_nthr [OF ok])
  then have p: "Thr u \<in> parts D (tleaf D u)" by (simp add: parts_def)
  with bok_part [OF ok p] thr_arrivals(1) [OF bok_thr [OF ok, of u] u] show ?case
    by (auto simp: bok_leaf [OF ok] full_def)
next
  case (under_parent c b)
  have c: "c < tb D" by (rule under_tb [OF ok under_parent.hyps(1)])
  have par: "tpar D c = Some b" using under_parent.hyps(2) by (simp add: bok_parent [OF ok])
  have p: "Bar c \<in> parts D b" using c par by (simp add: parts_def)
  from bok_link [OF ok c] par under_parent.IH have "A (Bar c) \<le> entered s u"
    by (auto simp: link_ok_def)
  with bok_part [OF ok p] p show ?case by (auto simp: full_def)
qed

lemma live_reach:
  assumes "reach bsys_init bstep s"
  obtains D G A where "bok D G A s" and "attended s" and "awaited s"
  using barrier_alive.reach_inv [OF assms]
  by (auto simp: barrier_live_def barrier_inv_def)

section \<open>Threads at rest\<close>

text \<open>
  A thread is at rest outside the barriers, asleep in the kernel, or spinning (in the
  inter-processor wait, or in any wait of the library built without the futex) on a sequence
  number that has not moved: the states no access of its
  own changes (\<open>at_rest_iff\<close>).
\<close>

definition spins :: "bool \<Rightarrow> frame \<Rightarrow> bool" where
  "spins u f \<longleftrightarrow> kind f = Inter \<or> \<not> u"

definition at_rest :: "bsys \<Rightarrow> tid \<Rightarrow> bool" where
  "at_rest s t \<longleftrightarrow> (case bthrs s t of Idle \<Rightarrow> True
     | Run pc f st \<Rightarrow> pc = PSleep \<or>
         pc = PTest \<and> spins (futex_barrier s) f \<and> cur_seq f = seq (bars s (bar f)))"

lemma settle_same: "settle (s\<lparr>bars := bars s\<rparr>) t (bthrs s t, None) = s"
  by (simp add: settle_def)

lemma at_rest_stays:
  assumes "at_rest s t" and "bstep s e s'" and "e = BInstr t \<or> e = BWake t"
  shows "s' = s"
  using assms(2,1,3)
proof cases
  case (binstr u pc f st B x)
  with assms have "u = t" by auto
  with binstr assms(1) settle_same [of s t] show ?thesis
    by (auto simp: at_rest_def spins_def split: wait_kind.splits)
qed (auto simp: at_rest_def)

lemma instr_moves:
  assumes "bar_instr u B0 pc f st = Some (B, x)"
    and "\<not> (pc = PTest \<and> spins u f \<and> cur_seq f = seq (B0 (bar f)))"
  shows "fst x \<noteq> Run pc f st"
proof -
  have fin: "fst (finish r st) \<noteq> Run pc f st" for r by (cases st) auto
  show ?thesis
    using assms fin by (cases pc) (auto simp: Let_def spins_def split: if_splits option.splits wait_kind.splits)
qed

lemma instr_some: "pc \<noteq> PSleep \<Longrightarrow> pc \<noteq> PWake \<Longrightarrow> bar_instr u B pc f st \<noteq> None"
  by (cases pc) (auto simp: Let_def split: option.splits wait_kind.splits)

lemma at_rest_iff:
  assumes "t < nthr s"
  shows "at_rest s t \<longleftrightarrow> (\<forall>e s'. (e = BInstr t \<or> e = BWake t) \<and> bstep s e s' \<longrightarrow> s' = s)"
proof
  show "at_rest s t" if stays: "\<forall>e s'. (e = BInstr t \<or> e = BWake t) \<and> bstep s e s' \<longrightarrow> s' = s"
  proof (rule ccontr)
    assume no: "\<not> at_rest s t"
    then obtain pc f st where run: "bthrs s t = Run pc f st" and "pc \<noteq> PSleep"
      and spin: "\<not> (pc = PTest \<and> spins (futex_barrier s) f \<and> cur_seq f = seq (bars s (bar f)))"
      by (cases "bthrs s t") (auto simp: at_rest_def)
    show False
    proof (cases "pc = PWake")
      case True
      with bwake [OF assms, of f st] run stays
      have "bthrs s t = fst (finish PTHREAD_BARRIER_SERIAL_THREAD st)"
        by (metis fun_upd_same settle_simps(6))
      with run True finish_pc(2) show False by metis
    next
      case False
      with instr_some \<open>pc \<noteq> PSleep\<close> obtain B x where i: "bar_instr (futex_barrier s) (bars s) pc f st = Some (B, x)"
        by (metis option.exhaust surj_pair)
      from stays binstr [OF assms run i] have "bthrs s t = fst x"
        by (metis fun_upd_same settle_simps(6))
      with instr_moves [OF i spin] run show False by simp
    qed
  qed
qed (use at_rest_stays in blast)

definition bquiet :: "bsys \<Rightarrow> bool" where
  "bquiet s \<longleftrightarrow> (\<forall>t < nthr s. at_rest s t)"

text \<open>At rest inside a call means: arrived in the round that is open at the barrier.\<close>

lemma rest_arrived:
  assumes ok: "bok D G A s" and aw: "awaited s" and q: "bquiet s"
    and run: "bthrs s t = Run pc f st"
  shows "chain D t (f # st) \<and> callers_ok D G A False st \<and> A (part_of t st) = Suc (G (bar f))
    \<and> \<not> finishing pc"
proof -
  have rest: "at_rest s u" if "bthrs s u = Run pc' f' st'" for u pc' f' st'
    using q bok_thr [OF ok, of u] that chain_tn [of D u "f' # st'"]
    by (auto simp: bquiet_def bok_nthr [OF ok])
  have "\<not> waker s b u" for b u
    using rest by (force simp: waker_def at_rest_def)
  with rest [OF run] awaitedD [OF aw, of t f st] run
  have pc: "pc = PSleep \<or> pc = PTest" and sq: "cur_seq f = seq (bars s (bar f))"
    by (auto simp: at_rest_def)
  from bok_thr [OF ok, of t] run pc obtain k where ch: "chain D t (f # st)"
    and k: "A (part_of t st) = Suc k" "cur_seq f = of_nat k" and call: "callers_ok D G A False st"
    by (auto simp: entering_def)
  note p = chain_part(1) [OF ch]
  have "(of_nat k :: u32) = of_nat (G (bar f))"
    using sq k bok_node [OF ok parts_bound [OF bok_shape [OF ok] p]] by (simp add: node_ok_def)
  then have "G (bar f) \<noteq> Suc k" using of_nat_word_Suc_neq [of k] by auto
  with bok_part [OF ok p] k ch call pc show ?thesis by auto
qed

text \<open>Along the stack of a thread that has arrived everywhere, all barriers are in its round.\<close>

lemma chain_rounds:
  assumes "chain D t (f # st)" and "callers_ok D G A False st" and "A (part_of t st) = Suc (G (bar f))"
  shows "A (Thr t) = Suc (G (bar f)) \<and> G (tleaf D t) = G (bar f) \<and> (\<forall>g\<in>set st. G (bar g) = G (bar f))"
  using assms
proof (induction st arbitrary: f)
  case Nil
  then show ?case by simp
next
  case (Cons h st)
  then have ch: "chain D t (h # st)" and eq: "G (bar h) = G (bar f)" by simp_all
  from Cons.prems(2) chain_part(1) [OF ch] have "A (part_of t st) = Suc (G (bar h))"
    by (simp add: full_def)
  with Cons.IH [OF ch] Cons.prems(2) eq show ?case by simp
qed

lemma chain_under:
  assumes ok: "bok D G A s" and "chain D u (f # st)" and "g \<in> set st" and "under s t (bar g)"
  shows "under s t (bar f)"
  using assms(2-4)
proof (induction st arbitrary: f)
  case Nil
  then show ?case by simp
next
  case (Cons h st)
  from Cons.prems have ch: "chain D u (h # st)" and par: "tpar D (bar h) = Some (bar f)" by simp_all
  have "under s t (bar h)"
    using Cons.IH [OF ch] Cons.prems(2,3) by auto
  with par show ?case by (auto intro: under_parent simp: bok_parent [OF ok])
qed

lemma chain_parent:
  "chain D t (f # st) \<Longrightarrow> g \<in> set st \<Longrightarrow> \<exists>h\<in>set (f # st). tpar D (bar g) = Some (bar h)"
proof (induction st arbitrary: f)
  case (Cons h st)
  show ?case
  proof (cases "g = h")
    case False
    with Cons.prems Cons.IH [of h] show ?thesis by auto
  qed (use Cons.prems in auto)
qed simp

text \<open>A complete barrier at rest has a thread that waits for a barrier above it.\<close>

lemma rest_owner:
  assumes ok: "bok D G A s" and att: "attended s" and aw: "awaited s" and q: "bquiet s"
    and b: "b < tb D" "full D G A b"
  obtains u pc f st g where "bthrs s u = Run pc f st" and "g \<in> set st" and "bar g = b"
proof -
  from attendedD [OF att, of b] b bok_full [OF ok b(1)] bok_nbar [OF ok]
  obtain u where u: "b \<in> owned (bthrs s u)" by auto
  then obtain pc f st where run: "bthrs s u = Run pc f st" by (cases "bthrs s u") auto
  with u rest_arrived [OF ok aw q run] that show ?thesis by auto
qed

lemma rest_open:
  assumes ok: "bok D G A s" and att: "attended s" and aw: "awaited s" and q: "bquiet s"
    and "bthrs s u = Run pc f st" and "under s t (bar f)"
  shows "\<exists>b. under s t b \<and> \<not> full D G A b \<and> G b = G (bar f)"
  using assms(5,6)
proof (induction "tb D - bar f" arbitrary: u pc f st rule: less_induct)
  case less
  show ?case
  proof (cases "full D G A (bar f)")
    case True
    have b: "bar f < tb D" by (rule under_tb [OF ok less.prems(2)])
    obtain v pc' f' st' g where run: "bthrs s v = Run pc' f' st'" and g: "g \<in> set st'" "bar g = bar f"
      by (rule rest_owner [OF ok att aw q b True])
    note v = rest_arrived [OF ok aw q run]
    have "bar f < bar f'" using chain_below [OF bok_shape [OF ok]] v g by fastforce
    moreover have "bar f' < tb D" using chain_bars [OF bok_shape [OF ok]] v by auto
    ultimately have "tb D - bar f' < tb D - bar f" by simp
    moreover have "under s t (bar f')" using chain_under [OF ok] v g less.prems(2) by metis
    moreover have "G (bar f') = G (bar f)" using chain_rounds [of D v f' st' G A] v g by metis
    ultimately show ?thesis using less.hyps [of f' v pc' st'] run by auto
  qed (use less.prems in blast)
qed

lemma rest_late:
  assumes ok: "bok D G A s" and att: "attended s" and aw: "awaited s" and q: "bquiet s"
    and "b < tb D" and "\<not> full D G A b"
  shows "\<exists>u. under s u b \<and> bthrs s u = Idle \<and> entered s u = G b"
  using assms(5,6)
proof (induction b rule: less_induct)
  case (less b)
  then obtain p where p: "p \<in> parts D b" "A p \<noteq> Suc (G b)" by (auto simp: full_def)
  with bok_part [OF ok p(1)] have a: "A p = G b" by simp
  show ?case
  proof (cases p)
    case (Thr u)
    with p have u: "u < tn D" "tleaf D u = b" by (auto simp: parts_def split: if_splits)
    have idle: "bthrs s u = Idle"
    proof (cases "bthrs s u")
      case (Run pc f st)
      with rest_arrived [OF ok aw q Run] chain_rounds [of D u f st G A] u a Thr show ?thesis
        by auto
    qed simp
    with bok_thr [OF ok, of u] u a Thr have "entered s u = G b" by simp
    moreover have "under s u b"
      using under_leaf [of u s] u by (simp add: bok_nthr [OF ok] bok_leaf [OF ok])
    ultimately show ?thesis using idle by blast
  next
    case (Bar c)
    with p have c: "c < tb D" "tpar D c = Some b" by (auto simp: parts_def split: if_splits)
    have "\<not> full D G A c"
    proof
      assume "full D G A c"
      from rest_owner [OF ok att aw q c(1) this] obtain u pc f st g
        where run: "bthrs s u = Run pc f st" and g: "g \<in> set st" "bar g = c" by metis
      note u = rest_arrived [OF ok aw q run]
      from chain_parent [OF _ g(1), of D u f] u g c obtain h
        where "h \<in> set (f # st)" "bar h = b" by auto
      then have "G b = G c" using chain_rounds [of D u f st G A] u g by auto
      moreover have "A (Bar c) = Suc (G c)"
        using conjunct1 [OF conjunct2 [OF u]] g
        by (induction st) auto
      ultimately show False using a Bar by simp
    qed
    moreover from this bok_link [OF ok c(1)] c(2) a Bar have "G c = G b" by (simp add: link_ok_def)
    moreover have "c < b" using shape_par [OF bok_shape [OF ok] c] by simp
    ultimately obtain u where "under s u c" "bthrs s u = Idle" "entered s u = G b"
      using less.IH [of c] c(1) by auto
    moreover from this have "under s u b"
      by (intro under_parent [of s u c b]) (simp_all add: bok_parent [OF ok] c)
    ultimately show ?thesis by blast
  qed
qed

lemma under_stack:
  assumes ok: "bok D G A s" and "chain D t (f # st)"
  shows "under s t (bar f)"
  using assms(2)
proof (induction st arbitrary: f)
  case Nil
  then show ?case
    using under_leaf [of t s] by (simp add: bok_nthr [OF ok] bok_leaf [OF ok])
next
  case (Cons h st)
  then have "under s t (bar h)" by simp
  with Cons.prems show ?case by (auto intro: under_parent simp: bok_parent [OF ok])
qed

end
