(* ===== verification/Barrier_Progress.thy ===== *)
theory Barrier_Progress imports Barrier_Waits begin

text \<open>
  The barriers come to rest. Every step of the code that changes the state lowers a measure:
  first what all threads together still have to do to arrive, to climb and to come back down
  the tree (\<open>to_go\<close>), then how far the waiting threads are from sleeping or from the end of
  their wait (\<open>to_sleep\<close>). The one step that changes nothing is a turn of a wait that
  spins. In a fair run all threads are at rest in the end.
\<close>

section \<open>The measure\<close>

text \<open>A call at barrier b of n may climb to the barriers above, fewer than \<open>n - b\<close>.\<close>

fun place_rank :: "nat \<Rightarrow> bpc \<Rightarrow> bid \<Rightarrow> nat" where
  "place_rank n PSeq b = 5 + 6 * (n - b)"
| "place_rank n PAdd b = 4 + 6 * (n - b)"
| "place_rank n PRd b = 3"
| "place_rank n (PReset v) b = 2"
| "place_rank n pc b = 1"

fun to_go :: "nat \<Rightarrow> bthr \<Rightarrow> nat" where
  "to_go n Idle = 0"
| "to_go n (Run pc f st) = 4 * length st + place_rank n pc (bar f)"

definition to_sleep :: "(bid \<Rightarrow> fastsync_barrier) \<Rightarrow> bthr \<Rightarrow> nat" where
  "to_sleep B th = (case th of
     Run PTest f st \<Rightarrow> if seq (B (bar f)) = cur_seq f then 2 else 1
   | Run PWait f st \<Rightarrow> if seq (B (bar f)) = cur_seq f then 1 else 2
   | _ \<Rightarrow> 0)"

definition barrier_work :: "bsys \<Rightarrow> nat \<times> nat" where
  "barrier_work s = (\<Sum>t<nthr s. to_go (nbar s) (bthrs s t), \<Sum>t<nthr s. to_sleep (bars s) (bthrs s t))"

fun own_step :: "bevent \<Rightarrow> bool" where
  "own_step (BInstr t) = True"
| "own_step (BWake t) = True"
| "own_step e = False"

lemma to_go_finish: "to_go n (fst (finish r st)) < to_go n (Run pc f st)"
  by (cases st; cases pc) simp_all

lemma to_go_awake [simp]: "to_go n (awake b th) = to_go n th"
  by (induction b th rule: awake.induct) auto

lemma instr_work:
  assumes "bar_instr u B pc f st = Some (B', x)" and "bar f < n"
    and "\<And>p. parent_bar (B (bar f)) = Some p \<Longrightarrow> bar f < p"
  shows "to_go n (fst x) < to_go n (Run pc f st) \<or> B' = B \<and> to_go n (fst x) = to_go n (Run pc f st) \<and>
    (x = (Run pc f st, None) \<or> to_sleep B (fst x) < to_sleep B (Run pc f st))"
proof -
  note fin = to_go_finish [of n _ st pc f]
  show ?thesis
  proof (cases pc)
    case PAdd
    have "6 + 6 * (n - p) \<le> 6 * (n - bar f)" if "parent_bar (B (bar f)) = Some p" for p
      using assms(2) assms(3) [OF that] by linarith
    with assms(1) PAdd fin show ?thesis
      by (fastforce simp: Let_def interproc_frame_def split: if_splits option.splits)
  next
    case (PReset v)
    with assms(1) fin show ?thesis by (auto simp: Let_def split: if_splits wait_kind.splits)
  qed (use assms(1) fin in \<open>auto simp: to_sleep_def split: if_splits wait_kind.splits\<close>)
qed

lemma own_step_work:
  assumes "barrier_inv s" and "bstep s e s'" and "s' \<noteq> s" and "own_step e"
  shows "(barrier_work s', barrier_work s) \<in> less_than <*lex*> less_than"
  using assms(2)
proof cases
  case (binstr t pc f st B x)
  from assms(1) obtain D G A where ok: "bok D G A s" by (auto simp: barrier_inv_def)
  have "chain D t (f # st)" using bok_thr [OF ok, of t] binstr(4) by simp
  then have b: "bar f < nbar s" using chain_bars [OF bok_shape [OF ok]] by (simp add: bok_nbar [OF ok])
  have up: "bar f < p" if "parent_bar (bars s (bar f)) = Some p" for p
  proof -
    have "tpar D (bar f) = Some p" "bar f < tb D"
      using that b by (simp_all add: bok_parent [OF ok] bok_nbar [OF ok])
    with bok_shape [OF ok] show ?thesis unfolding shape_ok_def by blast
  qed
  have "to_go (nbar s) (fst x) < to_go (nbar s) (bthrs s t) \<or>
      B = bars s \<and> to_go (nbar s) (fst x) = to_go (nbar s) (bthrs s t) \<and>
      (x = (bthrs s t, None) \<or> to_sleep (bars s) (fst x) < to_sleep (bars s) (bthrs s t))"
    unfolding binstr(4) by (rule instr_work [OF binstr(5) b up])
  moreover have "\<not> (B = bars s \<and> x = (bthrs s t, None))"
    using settle_same [of s t] binstr(2) assms(3) by auto
  ultimately show ?thesis
    using binstr sum_upd [of "{..<nthr s}" t "to_go (nbar s)" "bthrs s" "fst x"]
      sum_upd [of "{..<nthr s}" t "to_sleep (bars s)" "bthrs s" "fst x"]
    by (auto simp: barrier_work_def)
next
  case (bwake t f st)
  let ?x = "finish PTHREAD_BARRIER_SERIAL_THREAD st"
  have "(\<Sum>u<nthr s. to_go (nbar s) (((awake (bar f) \<circ> bthrs s)(t := fst ?x)) u)) <
      (\<Sum>u<nthr s. to_go (nbar s) (bthrs s u))"
    using bwake(3) sum_upd [of "{..<nthr s}" t "to_go (nbar s)" "awake (bar f) \<circ> bthrs s" "fst ?x"]
      to_go_finish [of "nbar s" PTHREAD_BARRIER_SERIAL_THREAD st PWake f] bwake(4)
    by simp
  with bwake show ?thesis by (simp add: barrier_work_def)
qed (use assms(4) in auto)

interpretation barrier_rest: descends bsys_init "\<lambda>s e s'. bstep s e s' \<and> s' \<noteq> s" barrier_inv
  own_step "less_than <*lex*> less_than" barrier_work
  by unfold_locales (auto simp: barrier_inv_init barrier_inv_step intro: own_step_work)

section \<open>Fair runs\<close>

text \<open>A run of the threads inside the barriers, which may pause; no client makes a call and no
  signal arrives. It is fair when every thread comes to a rest or to its step again and again.\<close>

definition steps_of :: "tid \<Rightarrow> bsys \<Rightarrow> bsys \<Rightarrow> bool" where
  "steps_of t s s' \<longleftrightarrow> bstep s (BInstr t) s' \<or> bstep s (BWake t) s'"

definition barrier_runs :: "(nat \<Rightarrow> bsys) \<Rightarrow> bool" where
  "barrier_runs f \<longleftrightarrow> reach bsys_init bstep (f 0) \<and> (\<forall>i. f (Suc i) = f i \<or> (\<exists>t. steps_of t (f i) (f (Suc i))))"

definition barrier_fair :: "(nat \<Rightarrow> bsys) \<Rightarrow> bool" where
  "barrier_fair f \<longleftrightarrow> (\<forall>t i. \<exists>j\<ge>i. at_rest (f j) t \<or> steps_of t (f j) (f (Suc j)))"

lemma idle_step_rest:
  assumes "steps_of t s s"
  shows "at_rest s t"
proof -
  from assms obtain e where e: "e = BInstr t \<or> e = BWake t" "bstep s e s" by (auto simp: steps_of_def)
  then have "t < nthr s" by (auto simp: bstep.simps)
  moreover have "s' = s" if "e' = BInstr t \<or> e' = BWake t" "bstep s e' s'" for e' s'
  proof -
    from e that have "e' = e" by (auto simp: bstep.simps)
    with e(2) that(2) show ?thesis by (simp add: bnext_bstep [symmetric])
  qed
  ultimately show ?thesis using at_rest_iff by blast
qed

lemma runs_reach: "barrier_runs f \<Longrightarrow> reach bsys_init bstep (f i)"
  by (rule run_reach [where f = f]) (auto simp: barrier_runs_def steps_of_def)

lemma fair_rest:
  assumes "barrier_runs f" and "barrier_fair f"
  shows "\<exists>n. bquiet (f n) \<and> (\<forall>i\<ge>n. f i = f n)"
proof -
  have "f (Suc i) = f i \<or> (\<exists>e. (bstep (f i) e (f (Suc i)) \<and> f (Suc i) \<noteq> f i) \<and> own_step e)" for i
    using assms(1) own_step.simps unfolding barrier_runs_def steps_of_def by metis
  from barrier_rest.settles [of f, OF barrier_safe.reach_inv [OF runs_reach [OF assms(1)]] this]
  obtain n where n: "\<forall>i\<ge>n. f i = f n" by blast
  have "at_rest (f n) t" for t
  proof -
    from assms(2) obtain j where j: "n \<le> j" "at_rest (f j) t \<or> steps_of t (f j) (f (Suc j))"
      unfolding barrier_fair_def by blast
    have "f j = f n" "f (Suc j) = f n" using n j(1) by (blast, meson le_SucI)
    with j(2) idle_step_rest show ?thesis by metis
  qed
  with n show ?thesis unfolding bquiet_def by blast
qed

section \<open>Along a run\<close>

lemma instr_parent_bar: "bar_instr u B pc f st = Some (B', x) \<Longrightarrow> parent_bar (B' b) = parent_bar (B b)"
  by (cases pc) (auto simp: Let_def split: if_splits option.splits wait_kind.splits)

lemma steps_static:
  assumes "steps_of u s s'"
  shows "nthr s' = nthr s" and "leaf s' = leaf s" and "parent_bar (bars s' b) = parent_bar (bars s b)"
    and "entered s' = entered s"
  using assms by (auto simp: steps_of_def bstep.simps dest: instr_parent_bar)

lemma under_mono:
  assumes "under s t b" and "nthr s' = nthr s" and "leaf s' = leaf s"
    and "\<And>b. parent_bar (bars s' b) = parent_bar (bars s b)"
  shows "under s' t b"
  using assms(1)
proof (induction rule: under.induct)
  case under_leaf
  with under.under_leaf [of t s'] assms(2,3) show ?case by simp
next
  case (under_parent c b)
  with under.under_parent [of s' t c b] assms(4) show ?case by simp
qed

lemma runs_static:
  assumes "barrier_runs f"
  shows "entered (f i) = entered (f 0) \<and> nthr (f i) = nthr (f 0) \<and> leaf (f i) = leaf (f 0) \<and>
    (\<forall>b. parent_bar (bars (f i) b) = parent_bar (bars (f 0) b))"
proof (induction i)
  case (Suc i)
  with assms steps_static [of _ "f i" "f (Suc i)"] show ?case unfolding barrier_runs_def by metis
qed simp

lemma runs_joined:
  assumes "barrier_runs f"
  shows "joined (f i) t u \<longleftrightarrow> joined (f 0) t u"
  unfolding joined_def using runs_static [OF assms, of i] under_mono [of "f i" _ _ "f 0"] under_mono [of "f 0" _ _ "f i"]
  by metis

end
