(* ===== verification/Barrier_Spec.thy ===== *)
theory Barrier_Spec imports Barrier_Progress begin

text \<open>
  The barriers refine an abstract barrier without memory, tree or kernel: the threads arrive
  and leave, and a thread leaves its n-th call only when every thread it meets has arrived n
  times. The concrete steps between are steps of the abstract barrier that change nothing.
\<close>

section \<open>The abstract barrier\<close>

text \<open>\<open>meets t u\<close>: the calls of t and u are counted at a common barrier.\<close>

record meeting =
  meets :: "tid \<Rightarrow> tid \<Rightarrow> bool"
  arrived :: "tid \<Rightarrow> nat"
  left :: "tid \<Rightarrow> nat"

datatype move = Arrive tid | Leave tid | Between

fun meeting_step :: "meeting \<Rightarrow> move \<Rightarrow> meeting \<Rightarrow> bool" where
  "meeting_step a (Arrive t) a' \<longleftrightarrow> arrived a t = left a t \<and>
     a' = a\<lparr>arrived := (arrived a)(t := Suc (arrived a t))\<rparr>"
| "meeting_step a (Leave t) a' \<longleftrightarrow> left a t < arrived a t \<and> (\<forall>u. meets a t u \<longrightarrow> left a t < arrived a u) \<and>
     a' = a\<lparr>left := (left a)(t := Suc (left a t))\<rparr>"
| "meeting_step a Between a' \<longleftrightarrow> a' = a"

definition meeting_init :: "meeting \<Rightarrow> bool" where
  "meeting_init a \<longleftrightarrow> (\<forall>t. arrived a t = 0 \<and> left a t = 0)"

text \<open>What the abstract barrier promises: no thread has left more often than the threads it meets,
  and itself, have arrived.\<close>

definition meeting_inv :: "meeting \<Rightarrow> bool" where
  "meeting_inv a \<longleftrightarrow> (\<forall>t. left a t \<le> arrived a t) \<and> (\<forall>t u. meets a t u \<longrightarrow> left a t \<le> arrived a u)"

lemma meeting_inv_step: "meeting_inv a \<Longrightarrow> meeting_step a x a' \<Longrightarrow> meeting_inv a'"
  by (cases x) (auto simp: meeting_inv_def le_SucI, metis le_SucI)

section \<open>The refinement\<close>

definition meeting_of :: "bsys \<Rightarrow> meeting" where
  "meeting_of s = \<lparr>meets = joined s, arrived = entered s, left = returned s\<rparr>"

fun move_of :: "bsys \<Rightarrow> bevent \<Rightarrow> bsys \<Rightarrow> move" where
  "move_of s (BCall t) s' = Arrive t"
| "move_of s (BSpurious t) s' = Between"
| "move_of s (BInstr t) s' = (if returned s' t = returned s t then Between else Leave t)"
| "move_of s (BWake t) s' = (if returned s' t = returned s t then Between else Leave t)"

lemma step_joined:
  assumes "bstep s e s'"
  shows "joined s' = joined s"
proof -
  have "parent_bar (bars s' b) = parent_bar (bars s b)" for b
    using assms by cases (auto dest: instr_parent_bar)
  then have "joined s' t u \<longleftrightarrow> joined s t u" for t u
    unfolding joined_def using bstep_static [OF assms] under_mono [of s _ _ s'] under_mono [of s' _ _ s]
    by metis
  then show ?thesis by blast
qed

text \<open>No call of a thread is over before those it meets have made theirs.\<close>

lemma met:
  assumes ok: "bok D G A s" and "joined s t u"
  shows "returned s t \<le> entered s u"
proof -
  from assms(2) obtain b where b: "under s t b" "under s u b" by (auto simp: joined_def)
  have "t < nthr s" using b(1) by (induction rule: under.induct)
  then have "returned s t \<le> G (tleaf D t)"
    by (intro returned_round [OF ok]) (simp add: bok_nthr [OF ok])
  also have "\<dots> \<le> G b" by (rule round_up_tree [OF ok b(1)])
  also have "\<dots> \<le> entered s u" using entered_round [OF ok b(2)] by simp
  finally show ?thesis .
qed

lemma returned_settle:
  "returned (settle s t x) = (if snd x = None then returned s else (returned s)(t := Suc (returned s t)))"
  by simp

lemma leave_step:
  assumes ok: "bok D G A s" "bok D' G' A' s'" and step: "bstep s e s'" and e: "e = BInstr t \<or> e = BWake t"
    and "returned s' t \<noteq> returned s t"
  shows "meeting_step (meeting_of s) (Leave t) (meeting_of s')"
proof -
  from step e assms(5) have ret: "returned s' = (returned s)(t := Suc (returned s t))" and en: "entered s' = entered s"
    and t: "t < nthr s"
    by (auto simp: bstep.simps split: if_splits)
  have j: "joined s' = joined s" by (rule step_joined [OF step])
  have "Suc (returned s t) \<le> entered s u" if "joined s t u" for u
    using met [OF ok(2), of t u] that by (simp add: ret en j)
  moreover have "joined s t t" using under_leaf [OF t] by (auto simp: joined_def)
  ultimately show ?thesis by (auto simp: meeting_of_def ret en j less_eq_Suc_le)
qed

lemma meeting_step_of:
  assumes "barrier_live s" and step: "bstep s e s'"
  shows "meeting_step (meeting_of s) (move_of s e s') (meeting_of s')"
proof -
  from assms(1) barrier_live_step [OF assms] obtain D G A D' G' A'
    where ok: "bok D G A s" "bok D' G' A' s'" by (auto simp: barrier_live_def barrier_inv_def)
  note j = step_joined [OF step]
  have between: "meeting_of s' = meeting_of s" if "e = BInstr t \<or> e = BWake t" "returned s' t = returned s t" for t
    using step that j by (auto simp: bstep.simps meeting_of_def split: if_splits dest: fun_cong)
  show ?thesis
  proof (cases e)
    case (BCall t)
    with step j bok_thr [OF ok(1), of t] show ?thesis by (auto simp: bstep.simps meeting_of_def)
  next
    case (BInstr t)
    with between leave_step [OF ok step] show ?thesis by auto
  next
    case (BWake t)
    with between leave_step [OF ok step] show ?thesis by auto
  next
    case (BSpurious t)
    with step j show ?thesis by (auto simp: bstep.simps meeting_of_def)
  qed
qed

interpretation barrier_meets: specified bsys_init bstep barrier_live meeting_init meeting_step meeting_of move_of meeting_inv
proof unfold_locales
  show "meeting_init (meeting_of s)" if "bsys_init s" for s
    using that by (simp add: meeting_init_def meeting_of_def bsys_init_def)
  show "meeting_step (meeting_of s) (move_of s e s') (meeting_of s')" if "barrier_live s" "bstep s e s'" for s e s'
    using that by (rule meeting_step_of)
  show "meeting_inv a" if "meeting_init a" for a
    using that by (simp add: meeting_init_def meeting_inv_def)
qed (rule meeting_inv_step)

end
