(* ===== verification/Barrier_Serial.thy ===== *)
theory Barrier_Serial imports Barrier_Live begin

text \<open>
  The serial thread. Each round of a core-level barrier is opened by one thread, the one that
  then returns PTHREAD_BARRIER_SERIAL_THREAD; on its way it may still have to wake the
  sleepers. \<open>owes\<close> counts, for a thread, the serial returns it has made and the one it is
  about to make; summed over the threads of a barrier these are the rounds opened there.
\<close>

definition serial_returns :: "bsys \<Rightarrow> tid \<Rightarrow> nat" where
  "serial_returns s t = count_list (brets s t) PTHREAD_BARRIER_SERIAL_THREAD"

definition owes :: "bsys \<Rightarrow> tid \<Rightarrow> nat" where
  "owes s t = serial_returns s t + (case bthrs s t of Run PWake f st \<Rightarrow> 1 | _ \<Rightarrow> 0)"

definition serial_inv :: "rounds \<Rightarrow> bsys \<Rightarrow> bool" where
  "serial_inv G s \<longleftrightarrow> (\<forall>u<nthr s. G (leaf s u) = (\<Sum>t<nthr s. if leaf s t = leaf s u then owes s t else 0))"

lemma settle_brets [simp]:
  "brets (settle s t x) = (case snd x of None \<Rightarrow> brets s | Some r \<Rightarrow> (brets s)(t := r # brets s t))"
  by (simp add: settle_def split: prod.splits option.splits)

lemma codes_differ [simp]:
  "PTHREAD_BARRIER_SERIAL_THREAD \<noteq> 0" "PTHREAD_BARRIER_SERIAL_THREAD \<noteq> 1"
  "0 \<noteq> PTHREAD_BARRIER_SERIAL_THREAD" "1 \<noteq> PTHREAD_BARRIER_SERIAL_THREAD"
  by (simp_all add: PTHREAD_BARRIER_SERIAL_THREAD_def)

lemma owes_run: "bthrs s t = Run pc f st \<Longrightarrow>
    owes s t = serial_returns s t + (if pc = PWake then 1 else 0)"
  by (cases pc) (auto simp: owes_def)

lemma owes_idle: "bthrs s t = Idle \<Longrightarrow> owes s t = serial_returns s t"
  by (simp add: owes_def)

lemma owes_cong: "bthrs s' t = bthrs s t \<Longrightarrow> brets s' t = brets s t \<Longrightarrow> owes s' t = owes s t"
  by (simp add: owes_def serial_returns_def)

lemma owes_finish:
  "owes (settle s t (finish r st)) t = serial_returns s t +
     (if st = [] \<and> r = PTHREAD_BARRIER_SERIAL_THREAD then 1 else 0)"
  by (cases st) (simp_all add: owes_def serial_returns_def)

lemma owes_settle:
  "owes (settle s t (th, None)) t = serial_returns s t + (case th of Run PWake f st \<Rightarrow> 1 | _ \<Rightarrow> 0)"
  "owes (settle s t (Idle, Some r)) t = serial_returns s t +
     (if r = PTHREAD_BARRIER_SERIAL_THREAD then 1 else 0)"
  by (simp_all add: owes_def serial_returns_def)

lemma serial_returns_bars [simp]: "serial_returns (s\<lparr>bars := B\<rparr>) t = serial_returns s t"
  by (simp add: serial_returns_def)

lemma chain_leaf: "chain D t st \<Longrightarrow> tleaf D t \<in> bar ` set st"
  by (induction D t st rule: chain.induct) auto

text \<open>A thread's debt grows by one exactly when it opens a round of its own barrier.\<close>

lemma owes_instr:
  assumes ok: "bok D G A s" and run: "bthrs s t = Run pc f st"
    and instr: "bar_instr (futex_barrier s) (bars s) pc f st = Some (B, x)"
  shows "owes (settle (s\<lparr>bars := B\<rparr>) t x) t =
    owes s t + (if opened s (BInstr t) = Some (leaf s t) then 1 else 0)"
proof -
  have ch: "chain D t (f # st)" using bok_thr [OF ok, of t] run by simp
  show ?thesis
  proof (cases pc)
    case (PReset v)
    show ?thesis
    proof (cases "kind f")
      case Core
      then have "st = []" "bar f = leaf s t" using chain_core [OF ch] ch by (auto simp: bok_leaf [OF ok])
      with PReset Core run instr show ?thesis
        by (auto simp: Let_def owes_run owes_finish owes_settle serial_returns_def split: if_splits)
    next
      case Inter
      then obtain h st' where st: "st = h # st'" using chain_inter [OF ch] by (cases st) auto
      have leaf: "leaf s t \<in> bar ` set st" using ch st chain_leaf [of D t st] by (simp add: bok_leaf [OF ok])
      then have "leaf s t \<noteq> bar f"
        using chain_below [OF bok_shape [OF ok] ch] by fastforce
      with PReset Inter run instr st show ?thesis
        by (auto simp: Let_def owes_run owes_settle serial_returns_def)
    qed
  qed (use run instr in \<open>auto simp: Let_def owes_run owes_finish owes_settle
      split: if_splits option.splits wait_kind.splits\<close>)
qed


lemma owes_other:
  assumes ok: "bok D G A s" and "bstep s e s'" and "e \<noteq> BInstr u"
  shows "owes s' u = owes s u"
  using assms(2,3)
proof cases
  case (bwake t f st)
  have "st = []" using bok_thr [OF ok, of t] bwake chain_core [of D t f st] by simp
  moreover have "owes s' u = owes s u" if "u \<noteq> t"
  proof -
    have "(case awake b th of Run PWake g st \<Rightarrow> 1 | _ \<Rightarrow> 0) =
        (case th of Run PWake g st \<Rightarrow> 1 | _ \<Rightarrow> (0 :: nat))" for b th
      by (induction b th rule: awake.induct) auto
    with that bwake \<open>st = []\<close> show ?thesis by (simp add: owes_def serial_returns_def)
  qed
  ultimately show ?thesis
    using bwake owes_run [of s t PWake f st]
    by (cases "u = t") (auto simp: owes_settle serial_returns_def)
qed (auto simp: owes_def serial_returns_def split: option.splits)

lemma opens_leaf:
  assumes ok: "bok D G A s" and o: "opened s e = Some (leaf s u)" and u: "u < nthr s"
  shows "\<exists>t<nthr s. e = BInstr t \<and> leaf s t = leaf s u"
proof -
  from o obtain t v f st where e: "e = BInstr t" and run: "bthrs s t = Run (PReset v) f st"
    and f: "bar f = leaf s u"
    by (cases "(s, e)" rule: opened.cases) (auto split: bthr.splits bpc.splits)
  have ch: "chain D t (f # st)" using bok_thr [OF ok, of t] run by simp
  have "kind f = Core"
  proof (rule ccontr)
    assume "kind f \<noteq> Core"
    then obtain h st2 where "st = h # st2" using chain_inter [OF ch] by (cases st; cases "kind f") auto
    with chain_part(1) [OF ch] have "up D (Bar (bar h)) = Some (leaf s u)" by (simp add: parts_def f)
    moreover have "up D (Thr u) = Some (leaf s u)"
      using u by (simp add: bok_nthr [OF ok] bok_leaf [OF ok])
    ultimately show False
      using shape_kind [OF bok_shape [OF ok] up_bound [OF bok_shape [OF ok]]] by blast
  qed
  with chain_core [OF ch] ch f e show ?thesis by (auto simp: bok_nthr [OF ok] bok_leaf [OF ok])
qed

lemma serial_inv_step:
  assumes ok: "bok D G A s" and inv: "serial_inv G s" and step: "bstep s e s'"
  shows "serial_inv (advance (opened s e) G) s'"
  unfolding serial_inv_def
proof (intro allI impI)
  fix u assume "u < nthr s'"
  then have u: "u < nthr s" by (simp add: bstep_static [OF step])
  let ?inc = "\<lambda>t. if opened s e = Some (leaf s u) \<and> e = BInstr t then 1 else (0 :: nat)"
  have debt: "owes s' t = owes s t + ?inc t" if "leaf s t = leaf s u" for t
  proof (cases "e = BInstr t")
    case True
    from step that True show ?thesis
      by cases (auto simp: owes_instr [OF ok])
  next
    case False
    with owes_other [OF ok step] show ?thesis by simp
  qed
  have "(\<Sum>t<nthr s. if leaf s t = leaf s u then owes s' t else 0) =
      (\<Sum>t<nthr s. (if leaf s t = leaf s u then owes s t else 0) +
        (if leaf s t = leaf s u then ?inc t else 0))"
    by (rule sum.cong) (auto simp: debt)
  also have "\<dots> = G (leaf s u) + (\<Sum>t<nthr s. if leaf s t = leaf s u then ?inc t else 0)"
    using inv u by (simp add: serial_inv_def sum.distrib)
  also have "(\<Sum>t<nthr s. if leaf s t = leaf s u then ?inc t else 0) =
      (if opened s e = Some (leaf s u) then 1 else 0)"
  proof (cases "opened s e = Some (leaf s u)")
    case True
    with opens_leaf [OF ok True u] obtain w where w: "w < nthr s" "e = BInstr w" "leaf s w = leaf s u"
      by blast
    then have "(\<Sum>t<nthr s. if leaf s t = leaf s u then ?inc t else 0) =
        (\<Sum>t<nthr s. if t = w then 1 else 0)"
      using True by (intro sum.cong) auto
    with w True show ?thesis by simp
  qed (simp add: sum.neutral)
  finally show "advance (opened s e) G (leaf s' u) =
      (\<Sum>t<nthr s'. if leaf s' t = leaf s' u then owes s' t else 0)"
    by (auto simp: advance_def bstep_static [OF step] split: option.splits)
qed

definition barrier_serial :: "bsys \<Rightarrow> bool" where
  "barrier_serial s \<longleftrightarrow> (\<exists>D G A. bok D G A s \<and> serial_inv G s)"

lemma barrier_serial_init: "bsys_init s \<Longrightarrow> barrier_serial s"
proof -
  assume init: "bsys_init s"
  from barrier_inv_bok [OF init] obtain D A where "bok D (\<lambda>_. 0) A s" by blast
  moreover have "owes s t = 0" for t
    using init by (simp add: bsys_init_def owes_def serial_returns_def)
  ultimately show ?thesis
    by (auto simp: barrier_serial_def serial_inv_def intro!: exI)
qed

lemma barrier_serial_step: "barrier_serial s \<Longrightarrow> bstep s e s' \<Longrightarrow> barrier_serial s'"
  unfolding barrier_serial_def using bok_step serial_inv_step by blast

interpretation barrier_turns: invariant_of bsys_init bstep barrier_serial
  by unfold_locales (rule barrier_serial_init, assumption, rule barrier_serial_step)

end
