(* ===== verification/Barrier_Props.thy ===== *)
theory Barrier_Props imports Barrier_Spec Barrier_Serial begin

text \<open>
  What the barriers promise to the program, built with the futex or without, in every
  reachable state of every tree of barriers that follows the rules (\<open>tree_ok\<close>), for any
  number of threads, rounds (also past the wrap-around of the 32-bit sequence number),
  spurious wake-ups and interleavings.
\<close>

section \<open>Two programs\<close>

text \<open>
  Two threads at one barrier, and two threads with a barrier of their own each below a
  common one, built without the futex: the initial states, and states they reach.
\<close>

definition fresh :: "u32 \<Rightarrow> bid option \<Rightarrow> fastsync_barrier" where
  "fresh n p = \<lparr>seq = 0, waiting = 0, total_count = n, parent_bar = p\<rparr>"

definition threads_on :: "bool \<Rightarrow> nat \<Rightarrow> (tid \<Rightarrow> bid) \<Rightarrow> nat \<Rightarrow> (bid \<Rightarrow> fastsync_barrier) \<Rightarrow> bsys" where
  "threads_on u n l m B = \<lparr>futex_barrier = u, nthr = n, nbar = m, leaf = l, bars = B, bthrs = (\<lambda>_. Idle),
     entered = (\<lambda>_. 0), returned = (\<lambda>_. 0), brets = (\<lambda>_. [])\<rparr>"

definition flat0 :: bsys where
  "flat0 = threads_on True 2 (\<lambda>_. 0) 1 (\<lambda>_. fresh 2 None)"

definition tree0 :: bsys where
  "tree0 = threads_on False 2 id 3 (\<lambda>b. if b = 2 then fresh 2 None else fresh 1 (Some 2))"

lemma fresh_init: "n \<noteq> 0 \<Longrightarrow> \<exists>env b0 count l b1. (\<exists>l'. fastsync_barrier_init env (Some b0) count l = Some (0, Some b1, l')) \<and>
    fresh n p = b1\<lparr>parent_bar := parent_bar (fresh n p)\<rparr>"
  by (rule exI [of _ "app_log 1"], rule exI [of _ "fresh n p"], rule exI [of _ n])
    (simp add: barrier_init_result fresh_def set_reset_def)

lemma flat0_reach: "reach bsys_init bstep flat0"
proof (rule reach_start)
  show "bsys_init flat0"
    using fresh_init [of 2 None]
    by (simp add: bsys_init_def flat0_def threads_on_def tree_ok_def thread_count_def
        children_count_def fresh_def small_ranges)
qed

lemma tree0_reach: "reach bsys_init bstep tree0"
proof (rule reach_start)
  show "bsys_init tree0"
    using fresh_init [of 2 None] fresh_init [of 1 "Some 2"]
    by (auto simp: bsys_init_def tree0_def threads_on_def tree_ok_def thread_count_def
        children_count_def fresh_def small_ranges)
qed

lemmas run_defs = flat0_def tree0_def threads_on_def fresh_def wait_frame_def
  interproc_frame_def settle_def Let_def PTHREAD_BARRIER_SERIAL_THREAD_def

text \<open>Thread 0 of the two at one barrier sleeps; thread 1 has opened the next round.\<close>

definition flat_waiting :: bsys where
  "flat_waiting = flat0\<lparr>bars := (\<lambda>_. fresh 2 None)(0 := (fresh 2 None)\<lparr>waiting := 1\<rparr>),
     bthrs := (\<lambda>_. Idle)(0 := Run PSleep (wait_frame 0) []), entered := (\<lambda>_. 0)(0 := 1)\<rparr>"

definition flat_sleep :: "bevent list" where
  "flat_sleep = [BCall 0, BInstr 0, BInstr 0, BInstr 0, BInstr 0]"

definition flat_store :: "bevent list" where
  "flat_store = flat_sleep @ [BCall 1, BInstr 1, BInstr 1, BInstr 1]"

definition flat_open :: "bevent list" where
  "flat_open = flat_store @ [BInstr 1]"

definition flat_over :: "bevent list" where
  "flat_over = flat_open @ [BWake 1, BInstr 0]"

definition tree_over :: "bevent list" where
  "tree_over = BCall 0 # replicate 5 (BInstr 0) @ BCall 1 # replicate 8 (BInstr 1) @ replicate 3 (BInstr 0)"

definition after :: "bsys \<Rightarrow> bevent list \<Rightarrow> bsys" where
  "after s es = the (exec bnext s es)"

lemmas runs = flat_sleep_def flat_store_def flat_open_def flat_over_def tree_over_def run_defs
  numeral_eq_Suc

lemma after_reach:
  assumes "reach bsys_init bstep s" and "exec bnext s es \<noteq> None"
  shows "reach bsys_init bstep (after s es)"
  using assms barrier_run.exec_reach [OF assms(1), of es] by (auto simp: after_def)

lemma flat_waiting_run: "exec bnext flat0 flat_sleep = Some flat_waiting"
  by (simp add: run_defs flat_sleep_def flat_waiting_def)

lemma flat_waiting_reach: "reach bsys_init bstep flat_waiting"
  by (rule barrier_run.exec_reach [OF flat0_reach flat_waiting_run])

text \<open>What these runs lead to.\<close>

lemma flat_store_run:
  "exec bnext flat0 flat_store \<noteq> None \<and>
   bthrs (after flat0 flat_store) 1 = Run (PReset 1) (wait_frame 0) []"
  by (simp add: runs after_def)

lemma flat_open_run:
  "exec bnext flat0 flat_open \<noteq> None \<and>
   bthrs (after flat0 flat_open) 0 = Run PSleep (wait_frame 0) [] \<and>
   seq (bars (after flat0 flat_open) 0) = 1"
  by (simp add: runs after_def set_reset_def)

lemma flat_over_run:
  "exec bnext flat0 flat_over \<noteq> None \<and> nthr (after flat0 flat_over) = 2 \<and>
   leaf (after flat0 flat_over) = (\<lambda>_. 0) \<and> (\<forall>t. bthrs (after flat0 flat_over) t = Idle) \<and>
   returned (after flat0 flat_over) 0 = 1 \<and> brets (after flat0 flat_over) 0 = [0] \<and>
   brets (after flat0 flat_over) 1 = [-1]"
  by (simp add: runs after_def set_reset_def)

lemma tree_over_run:
  "exec bnext tree0 tree_over \<noteq> None \<and> returned (after tree0 tree_over) 0 = 1 \<and>
   nthr (after tree0 tree_over) = 2 \<and>
   leaf (after tree0 tree_over) 0 = 0 \<and> leaf (after tree0 tree_over) 1 = 1 \<and>
   parent_bar (bars (after tree0 tree_over) 0) = Some 2 \<and>
   parent_bar (bars (after tree0 tree_over) 1) = Some 2"
  by (simp add: runs after_def set_reset_def)

lemma joined_by:
  assumes "t < nthr s" and "u < nthr s" and "parent_bar (bars s (leaf s t)) = Some b"
    and "parent_bar (bars s (leaf s u)) = Some b"
  shows "joined s t u"
  using assms under_parent [OF under_leaf] unfolding joined_def by blast

lemma tree_over_joined: "joined (after tree0 tree_over) 0 1"
  using tree_over_run by (intro joined_by [of _ _ _ 2]) auto

section \<open>Rounds\<close>

text \<open>C7: a barrier separates the rounds. If the calls of the threads t and u are counted at a
  common barrier (of their own, or any number of levels up the tree), then no call of t has
  returned before u has made a call of the same round: the number of calls t came back from
  is at most the number of calls u has made.\<close>

theorem barrier_safety:
  assumes "reach bsys_init bstep s" and "joined s t u"
  shows "returned s t \<le> entered s u"
  using barrier_meets.reach_spec_inv [OF assms(1)] assms(2) by (simp add: meeting_inv_def meeting_of_def)

theorem barrier_safety_witness:
  "returned (after tree0 tree_over) 0 = 1 \<and> 1 \<le> entered (after tree0 tree_over) 1"
  using barrier_safety [OF after_reach [OF tree0_reach] tree_over_joined] tree_over_run by simp

text \<open>C8: a tree of barriers refines an abstract barrier that has no words, levels or kernel:
  every step of the code is the arrival of a thread that is outside, or the leaving of a
  thread when every thread whose calls are counted at a common barrier with its own has
  arrived as often as the leaving thread now leaves, or changes nothing abstract (an access
  in between, a wait at the next level, a wake-up, wanted or spurious). So a reachable state
  of the code stands for a state the abstract barrier can reach.\<close>

theorem barrier_refinement:
  assumes "reach bsys_init bstep s" and "bstep s e s'"
  shows "reach meeting_init meeting_step (meeting_of s) \<and>
    meeting_step (meeting_of s) (move_of s e s') (meeting_of s')"
  using barrier_meets.reach_abs [OF assms(1)] barrier_meets.reach_abs_step [OF assms] by blast

theorem barrier_refinement_witness:
  "\<exists>s'. bstep (after flat0 flat_open) (BWake 1) s' \<and>
     meeting_step (meeting_of (after flat0 flat_open)) (Leave 1) (meeting_of s')"
proof -
  have r: "reach bsys_init bstep (after flat0 flat_open)"
    using flat_open_run by (intro after_reach [OF flat0_reach]) simp
  obtain s' where s': "bnext (after flat0 flat_open) (BWake 1) = Some s'"
    and "returned s' 1 \<noteq> returned (after flat0 flat_open) 1"
    by (simp add: runs after_def set_reset_def)
  then have step: "bstep (after flat0 flat_open) (BWake 1) s'"
    and m: "move_of (after flat0 flat_open) (BWake 1) s' = Leave 1" by (simp_all only: bnext_bstep move_of.simps if_False)
  from step barrier_refinement [OF r step] show ?thesis unfolding m by blast
qed

text \<open>Who waits when nothing moves.\<close>

lemma quiet_waits:
  assumes "reach bsys_init bstep s" and q: "bquiet s" and "bthrs s t \<noteq> Idle"
  shows "\<exists>u. joined s t u \<and> bthrs s u = Idle \<and> entered s u < entered s t"
proof -
  obtain D G A where ok: "bok D G A s" and att: "attended s" and aw: "awaited s"
    by (rule live_reach [OF assms(1)])
  obtain pc f st where run: "bthrs s t = Run pc f st" using assms(3) by (cases "bthrs s t") auto
  note r = rest_arrived [OF ok aw q run]
  have t: "A (Thr t) = Suc (G (bar f))" using chain_rounds [of D t f st G A] r by simp
  have "under s t (bar f)" using under_stack [OF ok] r by blast
  from rest_open [OF ok att aw q run this] obtain b
    where b: "under s t b" "\<not> full D G A b" "G b = G (bar f)" by blast
  from rest_late [OF ok att aw q under_tb [OF ok b(1)] b(2)] obtain u
    where u: "under s u b" "bthrs s u = Idle" "entered s u = G b" by blast
  have "A (Thr t) \<le> entered s t"
    using thr_arrivals(1) [OF bok_thr [OF ok, of t]] chain_tn [of D t "f # st"] r by simp
  with t u b show ?thesis by (auto simp: joined_def)
qed

text \<open>Nobody waits in vain. When no access and no wake-up call of any thread can change
  anything any more, every thread inside a call waits for a thread of its own tree that is
  outside the barriers and has made fewer calls. (With equal numbers of calls everywhere no
  thread is inside.)\<close>

theorem barrier_no_deadlock:
  assumes "reach bsys_init bstep s"
    and "\<forall>t < nthr s. \<forall>e s'. (e = BInstr t \<or> e = BWake t) \<and> bstep s e s' \<longrightarrow> s' = s"
    and "bthrs s t \<noteq> Idle"
  shows "\<exists>u. joined s t u \<and> bthrs s u = Idle \<and> entered s u < entered s t"
  by (rule quiet_waits [OF assms(1) _ assms(3)]) (use assms(2) at_rest_iff in \<open>auto simp: bquiet_def\<close>)

theorem barrier_no_deadlock_witness:
  "bthrs flat_waiting 0 \<noteq> Idle \<and> (\<exists>u. joined flat_waiting 0 u \<and> bthrs flat_waiting u = Idle \<and>
     entered flat_waiting u < entered flat_waiting 0)"
proof -
  have "at_rest flat_waiting t" for t
    by (simp add: at_rest_def flat_waiting_def run_defs)
  then have q: "\<forall>t < nthr flat_waiting. \<forall>e s'. (e = BInstr t \<or> e = BWake t) \<and>
      bstep flat_waiting e s' \<longrightarrow> s' = flat_waiting"
    using at_rest_stays by blast
  have i: "bthrs flat_waiting 0 \<noteq> Idle" by (simp add: flat_waiting_def)
  from i barrier_no_deadlock [OF flat_waiting_reach q i] show ?thesis by blast
qed

text \<open>C9: every round completes. When all threads joined with t have made at least as many
  calls as t, then in every fair run of the code (in which clients make no further call) t
  comes back from its last call after finitely many steps, and stays outside.\<close>

theorem barrier_round_completes:
  assumes "barrier_runs f" and "barrier_fair f" and "t < nthr (f 0)"
    and "\<forall>u. joined (f 0) t u \<longrightarrow> entered (f 0) t \<le> entered (f 0) u"
  shows "\<exists>n. \<forall>i\<ge>n. bthrs (f i) t = Idle \<and> returned (f i) t = entered (f 0) t"
proof -
  from fair_rest [OF assms(1,2)] obtain n where n: "bquiet (f n)" "\<forall>i\<ge>n. f i = f n" by blast
  note r = runs_reach [OF assms(1), of n]
  have "bthrs (f n) t = Idle"
  proof (rule ccontr)
    assume "bthrs (f n) t \<noteq> Idle"
    from quiet_waits [OF r n(1) this] obtain u
      where "joined (f 0) t u" "entered (f 0) u < entered (f 0) t"
      using runs_joined [OF assms(1), of n] runs_static [OF assms(1), of n] by auto
    with assms(4) show False by (meson not_less)
  qed
  moreover obtain D G A where "bok D G A (f n)" by (rule live_reach [OF r])
  then have "returned (f n) t = entered (f n) t"
    using bok_thr [of D G A "f n" t] calculation by simp
  ultimately have "bthrs (f n) t = Idle \<and> returned (f n) t = entered (f 0) t"
    using runs_static [OF assms(1), of n] by simp
  with n(2) show ?thesis by metis
qed

text \<open>Thread 0 is about to see that its round is over; then all threads are outside.\<close>

definition last_step :: "nat \<Rightarrow> bsys" where
  "last_step i = after flat0 (if i = 0 then flat_open @ [BWake 1] else flat_over)"

lemma last_step_run:
  "exec bnext flat0 (flat_open @ [BWake 1]) \<noteq> None \<and> entered (last_step 0) 0 = 1 \<and>
   entered (last_step 0) 1 = 1 \<and> nthr (last_step 0) = 2 \<and> bthrs (last_step 0) 0 \<noteq> Idle \<and>
   bnext (last_step 0) (BInstr 0) = Some (last_step 1)"
  by (simp add: runs after_def set_reset_def last_step_def)

theorem barrier_round_completes_witness:
  "bthrs (last_step 0) 0 \<noteq> Idle \<and> (\<exists>n. bthrs (last_step n) 0 = Idle \<and> returned (last_step n) 0 = 1)"
proof -
  have r: "reach bsys_init bstep (last_step 0)"
    using after_reach [OF flat0_reach] last_step_run by (simp add: last_step_def)
  have step: "steps_of 0 (last_step 0) (last_step 1)"
    using last_step_run bnext_bstep unfolding steps_of_def by blast
  have "last_step (Suc i) = last_step i \<or> (\<exists>t. steps_of t (last_step i) (last_step (Suc i)))" for i
    using step by (cases i) (auto simp: last_step_def)
  with r have runs: "barrier_runs last_step" by (simp add: barrier_runs_def)
  have "at_rest (last_step (Suc i)) t" for t i
    using flat_over_run by (simp add: at_rest_def last_step_def)
  then have fair: "barrier_fair last_step"
    unfolding barrier_fair_def by (metis le_SucI order_refl)
  have "entered (last_step 0) 0 \<le> entered (last_step 0) u" if "joined (last_step 0) 0 u" for u
  proof -
    from that obtain b where "under (last_step 0) u b" by (auto simp: joined_def)
    then have "u < nthr (last_step 0)" by (induction rule: under.induct)
    then have "u = 0 \<or> u = 1" using last_step_run by auto
    with last_step_run show ?thesis by auto
  qed
  then have "\<exists>n. \<forall>i\<ge>n. bthrs (last_step i) 0 = Idle \<and> returned (last_step i) 0 = entered (last_step 0) 0"
    using barrier_round_completes [OF runs fair, of 0] last_step_run by simp
  with last_step_run show ?thesis by auto
qed

text \<open>C10: no wake-up is lost. A thread that still sleeps in the kernel although the sequence
  number has moved past the one it read is going to be woken: some thread stands in front of
  the FUTEX_WAKE call on that barrier.\<close>

theorem barrier_no_lost_wakeup:
  assumes "reach bsys_init bstep s" and "bthrs s t = Run PSleep f st"
    and "seq (bars s (bar f)) \<noteq> cur_seq f"
  shows "\<exists>u g st. bthrs s u = Run PWake g st \<and> bar g = bar f"
proof -
  have aw: "awaited s" by (rule live_reach [OF assms(1)])
  from awaitedD [OF aw assms(2)] assms(3) show ?thesis by (auto simp: waker_def)
qed

theorem barrier_no_lost_wakeup_witness:
  "bthrs (after flat0 flat_open) 0 = Run PSleep (wait_frame 0) [] \<and>
   (\<exists>u g st. bthrs (after flat0 flat_open) u = Run PWake g st \<and> bar g = 0)"
proof -
  have r: "reach bsys_init bstep (after flat0 flat_open)"
    using flat_open_run by (intro after_reach [OF flat0_reach]) simp
  have z: "bar (wait_frame 0) = 0" "cur_seq (wait_frame 0) = 0" by (simp_all add: wait_frame_def)
  from barrier_no_lost_wakeup [OF r, of 0 "wait_frame 0" "[]"] flat_open_run z
  show ?thesis by simp
qed

text \<open>C11: the two halves of the 64-bit store that opens a round are not torn by other
  threads. Between the read of \<open>seq\<close> and the store no thread adds to \<open>waiting\<close> and no
  thread moves \<open>seq\<close>: at the store the count is still complete, the value is the sequence
  number plus one, and no other thread is about to store to this barrier. So the store is
  the increment of one half and the clearing of exactly this round's arrivals in the other.\<close>

theorem barrier_reset_exact:
  assumes "reach bsys_init bstep s" and "bthrs s t = Run (PReset v) f st"
  shows "waiting (bars s (bar f)) = total_count (bars s (bar f)) \<and> v = seq (bars s (bar f)) + 1
    \<and> set_reset (ucast v) (bars s (bar f)) = (bars s (bar f))\<lparr>seq := seq (bars s (bar f)) + 1, waiting := 0\<rparr>
    \<and> (\<forall>u w g st'. bthrs s u = Run (PReset w) g st' \<longrightarrow> bar g = bar f \<longrightarrow> u = t)"
proof -
  obtain D G A where ok: "bok D G A s" by (rule live_reach [OF assms(1)])
  note thr = bok_thr [OF ok, of t, unfolded assms(2)]
  then have b: "bar f < tb D" using chain_bars [OF bok_shape [OF ok], of t "f # st" f] by simp
  have r: "full D G A (bar f)" "v = of_nat (Suc (G (bar f)))" using thr by (auto simp: ready_def)
  have w: "waiting (bars s (bar f)) = total_count (bars s (bar f))"
    using r bok_full [OF ok b] by simp
  have v: "v = seq (bars s (bar f)) + 1"
    using r bok_node [OF ok b] by (simp add: node_ok_def)
  have "u = t" if "bthrs s u = Run (PReset w) g st'" and "bar g = bar f" for u w g st'
    using bok_owned [OF ok, of u t] that assms(2) by auto
  moreover have "set_reset (ucast v) (bars s (bar f)) =
      (bars s (bar f))\<lparr>seq := seq (bars s (bar f)) + 1, waiting := 0\<rparr>"
    by (rule fastsync_barrier.equality) (simp_all add: v)
  ultimately show ?thesis using w v by blast
qed

theorem barrier_reset_exact_witness:
  "bthrs (after flat0 flat_store) 1 = Run (PReset 1) (wait_frame 0) [] \<and>
   waiting (bars (after flat0 flat_store) 0) = total_count (bars (after flat0 flat_store) 0) \<and>
   seq (bars (after flat0 flat_store) 0) + 1 = 1"
proof -
  have r: "reach bsys_init bstep (after flat0 flat_store)"
    using flat_store_run by (intro after_reach [OF flat0_reach]) simp
  have z: "bar (wait_frame 0) = 0" by (simp add: wait_frame_def)
  from barrier_reset_exact [OF r, of 1 1 "wait_frame 0" "[]"] flat_store_run z
  show ?thesis by simp
qed

section \<open>Return values\<close>

text \<open>C12: one serial thread per round. When all threads of a core-level barrier are outside
  it and have gone through the same number n of rounds, PTHREAD_BARRIER_SERIAL_THREAD was
  returned exactly n times among them.\<close>

theorem barrier_serial_once:
  assumes "reach bsys_init bstep s" and "u < nthr s"
    and "\<forall>t < nthr s. leaf s t = leaf s u \<longrightarrow> bthrs s t = Idle"
  shows "(\<Sum>t<nthr s. if leaf s t = leaf s u then serial_returns s t else 0) = returned s u"
proof -
  from barrier_turns.reach_inv [OF assms(1)] obtain D G A
    where ok: "bok D G A s" and inv: "serial_inv G s" by (auto simp: barrier_serial_def)
  have "(\<Sum>t<nthr s. if leaf s t = leaf s u then serial_returns s t else 0) =
      (\<Sum>t<nthr s. if leaf s t = leaf s u then owes s t else 0)"
    using assms(3) by (intro sum.cong) (auto simp: owes_idle)
  also have "\<dots> = G (leaf s u)" using inv assms(2) by (simp add: serial_inv_def)
  also have "\<dots> = returned s u"
    using bok_thr [OF ok, of u] assms(2,3) by (simp add: bok_nthr [OF ok] bok_leaf [OF ok])
  finally show ?thesis .
qed

theorem barrier_serial_once_witness:
  "serial_returns (after flat0 flat_over) 0 + serial_returns (after flat0 flat_over) 1 = 1"
proof -
  have r: "reach bsys_init bstep (after flat0 flat_over)"
    using flat_over_run by (intro after_reach [OF flat0_reach]) simp
  from barrier_serial_once [OF r, of 0] flat_over_run show ?thesis
    by (simp add: small_ranges)
qed

text \<open>A call returns 0 or PTHREAD_BARRIER_SERIAL_THREAD. The value 1 at the end of the
  function, for a count beyond the total (\<open>should be unreachable\<close>), is never returned.\<close>

theorem barrier_return_codes:
  assumes "reach bsys_init bstep s" and "bstep s e s'" and "brets s' t = r # brets s t"
  shows "r = 0 \<or> r = PTHREAD_BARRIER_SERIAL_THREAD"
proof -
  obtain D G A where ok: "bok D G A s" by (rule live_reach [OF assms(1)])
  from assms(2) show ?thesis
  proof cases
    case (binstr u pc f st B x)
    then have "snd x = Some r" using assms(3) by (auto split: option.splits if_splits)
    with binstr(5) add_bound(1) [OF ok, of u f st] binstr(4) show ?thesis
      by (cases pc; cases st) (auto simp: Let_def split: if_splits option.splits wait_kind.splits)
  next
    case (bwake u f st)
    with assms(3) show ?thesis by (cases st) (auto split: option.splits if_splits)
  qed (use assms(3) in auto)
qed

theorem barrier_return_codes_witness:
  "\<exists>s'. bstep (after flat0 flat_open) (BWake 1) s' \<and>
     (\<exists>r. brets s' 1 = r # brets (after flat0 flat_open) 1 \<and>
        (r = 0 \<or> r = PTHREAD_BARRIER_SERIAL_THREAD))"
proof -
  have r: "reach bsys_init bstep (after flat0 flat_open)"
    using flat_open_run by (intro after_reach [OF flat0_reach]) simp
  obtain s' where s': "bnext (after flat0 flat_open) (BWake 1) = Some s'"
    and b: "brets s' 1 = PTHREAD_BARRIER_SERIAL_THREAD # brets (after flat0 flat_open) 1"
    by (simp add: runs after_def set_reset_def)
  then have step: "bstep (after flat0 flat_open) (BWake 1) s'" by (simp only: bnext_bstep)
  from step b barrier_return_codes [OF r step b] show ?thesis by blast
qed

end
