(* ===== verification/Cond.thy ===== *)
theory Cond imports Mutex_Inv begin

unbundle bit_operations_syntax

text \<open>
  The condition variables of src/fastsync/fastsync_cond.c, on top of the mutex of Mutex.thy:
  a wait unlocks the mutex with the code of \<open>fastsync_mutex_unlock\<close>, sleeps in the kernel and
  gets the mutex back with the blocking loop of lock. The condition variables form trees; the
  first thread that waits at a node waits at the parent instead and releases the others of
  the node when it comes back. Any number of threads, mutexes, condition variables and calls
  of them interleave.
\<close>

section \<open>The structure\<close>

text \<open>
  \<open>cmutex\<close> and \<open>cseq\<close> are the members \<open>mutex\<close> and \<open>seq\<close>. A pointer to a mutex or a condition
  variable is its number, \<open>None\<close> for NULL. The kernel compares the low half of \<open>cseq\<close>, which is what \<open>int cur_seq = cond->seq\<close> keeps.
\<close>

type_synonym cid = nat
type_synonym mid = nat

record fastsync_cond =
  use_child :: int
  cmutex :: "mid option"
  cseq :: u64
  parent :: "cid option"

definition low_seq :: "fastsync_cond \<Rightarrow> u32" where
  "low_seq c = ucast (cseq c)"

text \<open>Initialization leaves \<open>use_child\<close> and \<open>parent\<close> as they are.\<close>

definition fastsync_cond_init :: "fastsync_cond option \<Rightarrow> int \<times> fastsync_cond option" where
  "fastsync_cond_init p = (case p of None \<Rightarrow> (1, None)
     | Some c \<Rightarrow> (0, Some (c\<lparr>cseq := 0, cmutex := None\<rparr>)))"

definition fastsync_cond_destroy :: "fastsync_cond option \<Rightarrow> int \<times> fastsync_cond option" where
  "fastsync_cond_destroy p = (case p of None \<Rightarrow> (1, None)
     | Some c \<Rightarrow> (0, Some (c\<lparr>cseq := 0, cmutex := None\<rparr>)))"

section \<open>One thread\<close>

text \<open>
  Places in \<open>fastsync_cond_wait\<close>: \<open>WMutex\<close> and \<open>WMutex2\<close> before the two reads of
  \<open>cond->mutex\<close>, \<open>WCas\<close> before the compare-and-exchange, \<open>WChild\<close> before the test of
  \<open>use_child\<close> and \<open>parent\<close>, \<open>WParent\<close> inside the call for the parent, \<open>WInc\<close> before the
  read and \<open>WInc2 v\<close> before the write of \<open>cond->seq++\<close>, \<open>WRequeue\<close> before its
  FUTEX_REQUEUE, \<open>WReset\<close> before \<open>use_child = 0\<close>; \<open>WSeq\<close> before the read of \<open>seq\<close>,
  \<open>WUnlock k\<close> from the call of unlock to the FUTEX_WAIT with the value k, \<open>WSleep k\<close> blocked
  in it, \<open>WLock\<close> in the loop that takes the mutex again. \<open>SAdd\<close> and \<open>SWake\<close> are before the
  atomic add and the FUTEX_WAKE of signal (\<open>True\<close>: of signal_count), \<open>BAdd\<close>, \<open>BMutex\<close> and
  \<open>BRequeue\<close> before the three accesses of broadcast.
\<close>

datatype cplace = WMutex | WMutex2 | WCas | WChild | WParent | WInc | WInc2 u64 | WRequeue | WReset
  | WSeq | WUnlock u32 | WSleep u32 | WLock | SAdd bool | SWake bool | BAdd | BMutex | BRequeue

text \<open>What a function does up to its first access: \<open>Inl r\<close> when it returns \<open>r\<close> without any.\<close>

definition fastsync_cond_wait :: "cid option \<Rightarrow> mid option \<Rightarrow> int + cid \<times> cplace" where
  "fastsync_cond_wait p m = (case p of None \<Rightarrow> Inl 1
     | Some c \<Rightarrow> if m = None then Inl 1 else Inr (c, WMutex))"

definition fastsync_cond_signal :: "cid option \<Rightarrow> int + cid \<times> cplace" where
  "fastsync_cond_signal p = (case p of None \<Rightarrow> Inl 1 | Some c \<Rightarrow> Inr (c, SAdd False))"

definition fastsync_cond_signal_count :: "cid \<Rightarrow> int + cid \<times> cplace" where
  "fastsync_cond_signal_count c = Inr (c, SAdd True)"

definition fastsync_cond_broadcast :: "cid option \<Rightarrow> int + cid \<times> cplace" where
  "fastsync_cond_broadcast p = (case p of None \<Rightarrow> Inl 1 | Some c \<Rightarrow> Inr (c, BAdd))"

text \<open>
  One access to the memory of a condition variable, in a call with the mutex m: the new
  contents and how it goes on, at a place of the same call, in a call for the parent, or with
  a return. \<open>use_child\<close> and the
  members next to it are only used by the owner of the mutex, so \<open>WChild\<close> is one access.
  Places that wait for the mutex or the kernel have none.
\<close>

datatype cgoes = Goto cplace | Into cid | Return int

fun cond_instr :: "mid \<Rightarrow> cplace \<Rightarrow> fastsync_cond \<Rightarrow> (fastsync_cond \<times> cgoes) option" where
  "cond_instr m WMutex c = Some (c, Goto (if cmutex c \<noteq> Some m then WMutex2 else WChild))"
| "cond_instr m WMutex2 c = Some (c, if cmutex c \<noteq> None then Return 2 else Goto WCas)"
| "cond_instr m WCas c =
     (let old = cmutex c in
      if old \<noteq> None then Some (c, Return 2) else Some (c\<lparr>cmutex := Some m\<rparr>, Goto WChild))"
| "cond_instr m WChild c = (case parent c of
     Some p \<Rightarrow> if use_child c = 0 then Some (c\<lparr>use_child := 1\<rparr>, Into p) else Some (c, Goto WSeq)
   | None \<Rightarrow> Some (c, Goto WSeq))"
| "cond_instr m WInc c = Some (c, Goto (WInc2 (cseq c)))"
| "cond_instr m (WInc2 v) c = Some (c\<lparr>cseq := v + 1\<rparr>, Goto WRequeue)"
| "cond_instr m WReset c = Some (c\<lparr>use_child := 0\<rparr>, Return 0)"
| "cond_instr m (SAdd n) c = (let (r, v) = atomic_addf (cseq c) 1 in Some (c\<lparr>cseq := v\<rparr>, Goto (SWake n)))"
| "cond_instr m BAdd c = (let (r, v) = atomic_addf (cseq c) 1 in Some (c\<lparr>cseq := v\<rparr>, Goto BMutex))"
| "cond_instr m BMutex c = Some (c, if cmutex c \<noteq> None then Goto BRequeue else Return 0)"
| "cond_instr m pl c = None"

text \<open>The mutex to whose queue FUTEX_REQUEUE moves the sleepers: the argument of the wait, or
  for broadcast the member \<open>mutex\<close>, read again.\<close>

definition requeue_to :: "mid \<Rightarrow> cplace \<Rightarrow> fastsync_cond \<Rightarrow> mid option" where
  "requeue_to m pl c = (if pl = WRequeue then Some m else cmutex c)"

text \<open>
  The calls of a thread, the innermost first. When a call returns, its caller, if there is
  one, is a wait in its call for the parent, which does not look at the value.
\<close>

type_synonym calls = "(cid \<times> cplace) list"

fun leave :: "int \<Rightarrow> calls \<Rightarrow> calls \<times> int option" where
  "leave r [] = ([], Some r)"
| "leave r ((c, pl) # cs) = ((c, WInc) # cs, None)"

fun proceed :: "cid \<Rightarrow> cgoes \<Rightarrow> calls \<Rightarrow> calls \<times> int option" where
  "proceed c (Goto pl) cs = ((c, pl) # cs, None)"
| "proceed c (Into p) cs = ((p, WMutex) # (c, WParent) # cs, None)"
| "proceed c (Return r) cs = leave r cs"

section \<open>The system\<close>

text \<open>
  The threads \<open>0, \<dots>, cthreads - 1\<close> and the mutexes \<open>0, \<dots>, nmut - 1\<close>; \<open>arg t\<close> is the mutex
  of the wait that thread t is in (a call for the parent passes it on), \<open>crets\<close> what its last
  call returned, \<open>woken\<close> what its last signal_count stored.
\<close>

record csys =
  cthreads :: nat
  nmut :: nat
  locks :: "mid \<Rightarrow> msys"
  conds :: "cid \<Rightarrow> fastsync_cond"
  stack :: "tid \<Rightarrow> calls"
  arg :: "tid \<Rightarrow> mid"
  crets :: "tid \<Rightarrow> int option"
  woken :: "tid \<Rightarrow> int"

definition csys_init :: "csys \<Rightarrow> bool" where
  "csys_init s \<longleftrightarrow> (\<forall>m. msys_init (locks s m) \<and> threads (locks s m) = cthreads s) \<and>
     (\<forall>c. \<exists>c0. fastsync_cond_init (Some c0) = (0, Some (conds s c)) \<and> use_child c0 = 0) \<and>
     (\<forall>t. stack s t = [])"

text \<open>A thread blocked in the FUTEX_WAIT of condition variable c.\<close>

fun asleep :: "cid \<Rightarrow> calls \<Rightarrow> bool" where
  "asleep c ((d, WSleep k) # cs) \<longleftrightarrow> d = c"
| "asleep c cs \<longleftrightarrow> False"

fun awakened :: "calls \<Rightarrow> calls" where
  "awakened ((d, pl) # cs) = (d, WLock) # cs"
| "awakened [] = []"

text \<open>The mutex as it sees a thread that comes out of FUTEX_WAIT (\<open>join\<close>) or is moved to
  its queue by the kernel (\<open>requeue\<close>; \<open>u\<close> is the one woken instead).\<close>

definition join :: "tid \<Rightarrow> msys \<Rightarrow> msys" where
  "join u m = m\<lparr>pcs := (pcs m)(u := LXchg), rets := (rets m)(u := None)\<rparr>"

definition requeue :: "(tid \<Rightarrow> bool) \<Rightarrow> tid \<Rightarrow> msys \<Rightarrow> msys" where
  "requeue R u m = m\<lparr>pcs := (\<lambda>v. if v = u then LXchg else if R v then LSleep else pcs m v),
     rets := (\<lambda>v. if R v then None else rets m v)\<rparr>"

definition wake_waiter :: "tid \<Rightarrow> csys \<Rightarrow> csys" where
  "wake_waiter u s = s\<lparr>locks := (locks s)(arg s u := join u (locks s (arg s u))), stack := (stack s)(u := awakened (stack s u))\<rparr>"

definition requeue_waiters :: "cid \<Rightarrow> mid \<Rightarrow> tid \<Rightarrow> csys \<Rightarrow> csys" where
  "requeue_waiters c m u s = s\<lparr>locks := (locks s)(m := requeue (\<lambda>v. asleep c (stack s v)) u (locks s m)),
     stack := (\<lambda>v. if asleep c (stack s v) then awakened (stack s v) else stack s v)\<rparr>"

definition move :: "tid \<Rightarrow> calls \<times> int option \<Rightarrow> csys \<Rightarrow> csys" where
  "move t x s = s\<lparr>stack := (stack s)(t := fst x), crets := (crets s)(t := snd x)\<rparr>"

definition begin_call :: "tid \<Rightarrow> int + cid \<times> cplace \<Rightarrow> csys \<Rightarrow> csys" where
  "begin_call t f s = (case f of
     Inl r \<Rightarrow> s\<lparr>crets := (crets s)(t := Some r)\<rparr>
   | Inr x \<Rightarrow> s\<lparr>stack := (stack s)(t := [x]), crets := (crets s)(t := None)\<rparr>)"

datatype cevent = OnMutex mid mevent
  | CallWait tid "cid option" "mid option" | CallSignal tid "cid option" | CallSignalCount tid cid
  | CallBroadcast tid "cid option"
  | CInstr tid | Unlock tid | FutexWait tid | Relocked tid
  | FutexWake tid "tid option" | FutexRequeue tid "tid option" | Interrupted tid

text \<open>
  A thread is in one call at a time, of a mutex or of a condition variable. It calls wait only
  while it holds the mutex it passes, signal and broadcast with or without mutexes.
\<close>

definition idle :: "mpc \<Rightarrow> bool" where
  "idle pc \<longleftrightarrow> pc = Out \<or> pc = Held"

definition outside :: "csys \<Rightarrow> tid \<Rightarrow> bool" where
  "outside s t \<longleftrightarrow> t < cthreads s \<and> stack s t = [] \<and> (\<forall>m < nmut s. idle (pcs (locks s m) t))"

fun client_call :: "csys \<Rightarrow> mevent \<Rightarrow> bool" where
  "client_call s (CallLock t p) \<longleftrightarrow> outside s t"
| "client_call s (CallTry t p) \<longleftrightarrow> outside s t"
| "client_call s (CallUnlock t p) \<longleftrightarrow> outside s t"
| "client_call s e \<longleftrightarrow> True"

definition passes :: "csys \<Rightarrow> tid \<Rightarrow> mid option \<Rightarrow> bool" where
  "passes s t p \<longleftrightarrow> (case p of None \<Rightarrow> True | Some m \<Rightarrow> m < nmut s \<and> pcs (locks s m) t = Held)"

definition with_arg :: "tid \<Rightarrow> mid option \<Rightarrow> csys \<Rightarrow> csys" where
  "with_arg t p s = (case p of None \<Rightarrow> s | Some m \<Rightarrow> s\<lparr>arg := (arg s)(t := m)\<rparr>)"

text \<open>The mutex of the wait a thread is in.\<close>

definition its_mutex :: "csys \<Rightarrow> tid \<Rightarrow> msys" where
  "its_mutex s t = locks s (arg s t)"

text \<open>After FUTEX_WAKE signal returns, signal_count stores how many were woken before.\<close>

definition signal_done :: "tid \<Rightarrow> bool \<Rightarrow> int \<Rightarrow> calls \<Rightarrow> csys \<Rightarrow> csys" where
  "signal_done t n k cs s =
     move t (leave 0 cs) (if n then s\<lparr>woken := (woken s)(t := k)\<rparr> else s)"

fun requeue_next :: "cid \<Rightarrow> cplace \<Rightarrow> calls \<Rightarrow> calls \<times> int option" where
  "requeue_next c WRequeue cs = ((c, WReset) # cs, None)"
| "requeue_next c pl cs = leave 0 cs"

inductive cstep :: "csys \<Rightarrow> cevent \<Rightarrow> csys \<Rightarrow> bool" where
  on_mutex: "m < nmut s \<Longrightarrow> client_call s e \<Longrightarrow> mstep (locks s m) e l \<Longrightarrow>
     cstep s (OnMutex m e) (s\<lparr>locks := (locks s)(m := l)\<rparr>)"
| call_wait: "outside s t \<Longrightarrow> passes s t m \<Longrightarrow>
     cstep s (CallWait t p m) (begin_call t (fastsync_cond_wait p m) (with_arg t m s))"
| call_signal: "outside s t \<Longrightarrow> cstep s (CallSignal t p) (begin_call t (fastsync_cond_signal p) s)"
| call_signal_count: "outside s t \<Longrightarrow>
     cstep s (CallSignalCount t c) (begin_call t (fastsync_cond_signal_count c) s)"
| call_broadcast: "outside s t \<Longrightarrow>
     cstep s (CallBroadcast t p) (begin_call t (fastsync_cond_broadcast p) s)"
| cinstr: "stack s t = (c, pl) # cs \<Longrightarrow> cond_instr (arg s t) pl (conds s c) = Some (r, g) \<Longrightarrow>
     cstep s (CInstr t) (move t (proceed c g cs) (s\<lparr>conds := (conds s)(c := r)\<rparr>))"
| unlock: "stack s t = (c, WSeq) # cs \<Longrightarrow> fastsync_mutex_unlock This = Inr pc \<Longrightarrow>
     cstep s (Unlock t) (move t ((c, WUnlock (low_seq (conds s c))) # cs, None)
       (s\<lparr>locks := (locks s)(arg s t := enter (its_mutex s t) t (Inr pc))\<rparr>))"
| futex_wait: "stack s t = (c, WUnlock k) # cs \<Longrightarrow> pcs (its_mutex s t) t = Out \<Longrightarrow>
     cstep s (FutexWait t) (if low_seq (conds s c) = k then move t ((c, WSleep k) # cs, None) s
       else wake_waiter t s)"
| relocked: "stack s t = (c, WLock) # cs \<Longrightarrow> pcs (its_mutex s t) t = Held \<Longrightarrow>
     cstep s (Relocked t) (move t (leave 0 cs) s)"
| wake_waiter: "stack s t = (c, SWake n) # cs \<Longrightarrow> asleep c (stack s u) \<Longrightarrow>
     cstep s (FutexWake t (Some u)) (signal_done t n 1 cs (wake_waiter u s))"
| wake_nobody: "stack s t = (c, SWake n) # cs \<Longrightarrow> \<forall>u < cthreads s. \<not> asleep c (stack s u) \<Longrightarrow>
     cstep s (FutexWake t None) (signal_done t n 0 cs s)"
| requeue_some: "stack s t = (c, pl) # cs \<Longrightarrow> pl = WRequeue \<or> pl = BRequeue \<Longrightarrow>
     requeue_to (arg s t) pl (conds s c) = Some m \<Longrightarrow> asleep c (stack s u) \<Longrightarrow>
     cstep s (FutexRequeue t (Some u)) (move t (requeue_next c pl cs) (requeue_waiters c m u s))"
| requeue_nobody: "stack s t = (c, pl) # cs \<Longrightarrow> pl = WRequeue \<or> pl = BRequeue \<Longrightarrow>
     requeue_to (arg s t) pl (conds s c) = Some m \<Longrightarrow> \<forall>u < cthreads s. \<not> asleep c (stack s u) \<Longrightarrow>
     cstep s (FutexRequeue t None) (move t (requeue_next c pl cs) s)"
| interrupted: "asleep c (stack s u) \<Longrightarrow> cstep s (Interrupted u) (wake_waiter u s)"

text \<open>The same steps as a function, for running schedules.\<close>

fun cnext :: "csys \<Rightarrow> cevent \<Rightarrow> csys option" where
  "cnext s (OnMutex m e) = (if m < nmut s \<and> client_call s e
     then map_option (\<lambda>l. s\<lparr>locks := (locks s)(m := l)\<rparr>) (mnext (locks s m) e) else None)"
| "cnext s (CallWait t p m) = (if outside s t \<and> passes s t m
     then Some (begin_call t (fastsync_cond_wait p m) (with_arg t m s)) else None)"
| "cnext s (CallSignal t p) = (if outside s t
     then Some (begin_call t (fastsync_cond_signal p) s) else None)"
| "cnext s (CallSignalCount t c) = (if outside s t
     then Some (begin_call t (fastsync_cond_signal_count c) s) else None)"
| "cnext s (CallBroadcast t p) = (if outside s t
     then Some (begin_call t (fastsync_cond_broadcast p) s) else None)"
| "cnext s (CInstr t) = (case stack s t of [] \<Rightarrow> None
     | (c, pl) # cs \<Rightarrow> (case cond_instr (arg s t) pl (conds s c) of None \<Rightarrow> None
         | Some (r, g) \<Rightarrow> Some (move t (proceed c g cs) (s\<lparr>conds := (conds s)(c := r)\<rparr>))))"
| "cnext s (Unlock t) = (case stack s t of
       (c, WSeq) # cs \<Rightarrow> (case fastsync_mutex_unlock This of Inl r \<Rightarrow> None
         | Inr pc \<Rightarrow> Some (move t ((c, WUnlock (low_seq (conds s c))) # cs, None)
             (s\<lparr>locks := (locks s)(arg s t := enter (its_mutex s t) t (Inr pc))\<rparr>)))
     | _ \<Rightarrow> None)"
| "cnext s (FutexWait t) = (case stack s t of
       (c, WUnlock k) # cs \<Rightarrow> (if pcs (its_mutex s t) t = Out
         then Some (if low_seq (conds s c) = k then move t ((c, WSleep k) # cs, None) s
           else wake_waiter t s)
         else None)
     | _ \<Rightarrow> None)"
| "cnext s (Relocked t) = (case stack s t of
       (c, WLock) # cs \<Rightarrow> (if pcs (its_mutex s t) t = Held then Some (move t (leave 0 cs) s) else None)
     | _ \<Rightarrow> None)"
| "cnext s (FutexWake t (Some u)) = (case stack s t of
       (c, SWake n) # cs \<Rightarrow> (if asleep c (stack s u)
         then Some (signal_done t n 1 cs (wake_waiter u s)) else None)
     | _ \<Rightarrow> None)"
| "cnext s (FutexWake t None) = (case stack s t of
       (c, SWake n) # cs \<Rightarrow> (if \<forall>u < cthreads s. \<not> asleep c (stack s u)
         then Some (signal_done t n 0 cs s) else None)
     | _ \<Rightarrow> None)"
| "cnext s (FutexRequeue t (Some u)) = (case stack s t of
       (c, pl) # cs \<Rightarrow> (if (pl = WRequeue \<or> pl = BRequeue) \<and> asleep c (stack s u)
         then map_option (\<lambda>m. move t (requeue_next c pl cs) (requeue_waiters c m u s))
           (requeue_to (arg s t) pl (conds s c)) else None)
     | _ \<Rightarrow> None)"
| "cnext s (FutexRequeue t None) = (case stack s t of
       (c, pl) # cs \<Rightarrow> (if (pl = WRequeue \<or> pl = BRequeue) \<and> (\<forall>u < cthreads s. \<not> asleep c (stack s u))
         then map_option (\<lambda>m. move t (requeue_next c pl cs) s) (requeue_to (arg s t) pl (conds s c)) else None)
     | _ \<Rightarrow> None)"
| "cnext s (Interrupted u) = (case stack s u of
       (c, WSleep k) # cs \<Rightarrow> Some (wake_waiter u s)
     | _ \<Rightarrow> None)"

lemma asleep_iff: "asleep c cs \<longleftrightarrow> (\<exists>k ds. cs = (c, WSleep k) # ds)"
  by (cases "(c, cs)" rule: asleep.cases) auto

lemma cnext_cstep: "cnext s e = Some s' \<longleftrightarrow> cstep s e s'"
  by (cases "(s, e)" rule: cnext.cases)
    (auto simp: cstep.simps mnext_mstep [symmetric] asleep_iff
      split: if_splits option.splits list.splits prod.splits cplace.splits sum.splits)

interpretation cond_run: executable cstep cnext
  by unfold_locales (rule cnext_cstep)

end
