(* ===== verification/Cond_Inv.thy ===== *)
theory Cond_Inv imports Cond begin

text \<open>
  The invariant of the condition variables. \<open>cond_inv\<close> keeps the invariant of the mutex, to
  whose steps come \<open>join\<close> and \<open>requeue\<close>, and ties the place of every thread in a call to
  where it stands in the mutex: the code of wait before the unlock and after the loop runs
  with the mutex held (\<open>place_ok\<close>), and the calls on a thread's stack climb the tree
  (\<open>path_ok\<close>). \<open>tree_inv\<close> says that every condition variable has at most one thread waiting at
  its parent, and that \<open>use_child\<close> tells whether it has one.
\<close>

section \<open>The mutex with waiters that come back\<close>

lemma join_inv:
  assumes "mutex_inv m" and "pcs m u = Out" and "u < threads m"
  shows "mutex_inv (join u m)"
proof -
  from assms(1) obtain h where h: "held_by h m" by (auto simp: mutex_inv_def)
  have "held_by h (join u m)"
    by (rule held_frame [OF h]) (use assms(2,3) held_out [OF h] in \<open>auto simp: join_def view_facts\<close>)
  moreover have "wake_inv (join u m)"
    by (rule wake_invI1 [of _ u]) (simp add: join_def waking_def)
  ultimately show ?thesis by (auto simp: mutex_inv_def)
qed

lemma requeue_inv:
  assumes "mutex_inv m" and "\<And>v. R v \<Longrightarrow> pcs m v = Out \<and> v < threads m" and "R u"
  shows "mutex_inv (requeue R u m)"
proof -
  from assms(1) obtain h where h: "held_by h m" by (auto simp: mutex_inv_def)
  have "held_by h (requeue R u m)"
    by (rule held_frame [OF h]) (use assms(2,3) held_out [OF h] in \<open>force simp: requeue_def view_facts\<close>)+
  moreover have "wake_inv (requeue R u m)"
    by (rule wake_invI1 [of _ u]) (simp add: requeue_def waking_def)
  ultimately show ?thesis by (auto simp: mutex_inv_def)
qed

section \<open>Places\<close>

fun in_unlock :: "mpc \<Rightarrow> bool" where
  "in_unlock Out = True" | "in_unlock URead = True" | "in_unlock UCas = True"
| "in_unlock UAnd = True" | "in_unlock (UChk i) = True" | "in_unlock UClr = True"
| "in_unlock UWake = True" | "in_unlock pc = False"

fun relocking :: "mpc \<Rightarrow> bool" where
  "relocking LXchg = True" | "relocking LWait = True" | "relocking LSleep = True"
| "relocking Held = True" | "relocking pc = False"

fun place_ok :: "cplace \<Rightarrow> mpc \<Rightarrow> bool" where
  "place_ok WParent pc = False"
| "place_ok (WUnlock k) pc = in_unlock pc"
| "place_ok (WSleep k) pc = (pc = Out)"
| "place_ok WLock pc = relocking pc"
| "place_ok (SAdd n) pc = idle pc"
| "place_ok (SWake n) pc = idle pc"
| "place_ok BAdd pc = idle pc"
| "place_ok BMutex pc = idle pc"
| "place_ok BRequeue pc = idle pc"
| "place_ok pl pc = (pc = Held)"

fun signalling :: "cplace \<Rightarrow> bool" where
  "signalling (SAdd n) = True" | "signalling (SWake n) = True" | "signalling BAdd = True"
| "signalling BMutex = True" | "signalling BRequeue = True" | "signalling pl = False"

fun path_ok :: "(cid \<Rightarrow> cid option) \<Rightarrow> cid \<Rightarrow> calls \<Rightarrow> bool" where
  "path_ok P c [] = True"
| "path_ok P c ((d, pl) # cs) = (pl = WParent \<and> P d = Some c \<and> path_ok P d cs)"

text \<open>\<open>pc m\<close> is where the thread stands in mutex m, \<open>a\<close> the mutex of its wait: in all others it
  is idle.\<close>

fun calls_ok :: "(cid \<Rightarrow> cid option) \<Rightarrow> nat \<Rightarrow> nat \<Rightarrow> tid \<Rightarrow> (mid \<Rightarrow> mpc) \<Rightarrow> mid \<Rightarrow> calls \<Rightarrow> bool" where
  "calls_ok P N n t pc a [] = True"
| "calls_ok P N n t pc a ((c, pl) # cs) = (t < n \<and> place_ok pl (pc a) \<and> (\<forall>m. m \<noteq> a \<longrightarrow> idle (pc m)) \<and>
     path_ok P c cs \<and> (if signalling pl then cs = [] else a < N))"

definition parents :: "(cid \<Rightarrow> fastsync_cond) \<Rightarrow> cid \<Rightarrow> cid option" where
  "parents C c = parent (C c)"

definition places :: "csys \<Rightarrow> tid \<Rightarrow> mid \<Rightarrow> mpc" where
  "places s t m = pcs (locks s m) t"

abbreviation stack_ok :: "csys \<Rightarrow> tid \<Rightarrow> (mid \<Rightarrow> mpc) \<Rightarrow> mid \<Rightarrow> calls \<Rightarrow> bool" where
  "stack_ok s \<equiv> calls_ok (parents (conds s)) (nmut s) (cthreads s)"

definition locks_inv :: "csys \<Rightarrow> bool" where
  "locks_inv s \<longleftrightarrow> (\<forall>m. mutex_inv (locks s m) \<and> threads (locks s m) = cthreads s) \<and>
     (\<forall>m t. nmut s \<le> m \<longrightarrow> places s t m = Out)"

definition cond_inv :: "csys \<Rightarrow> bool" where
  "cond_inv s \<longleftrightarrow> locks_inv s \<and> (\<forall>t. stack_ok s t (places s t) (arg s t) (stack s t))"

lemma idle_simps [simp]: "idle Out" "idle Held"
  by (simp_all add: idle_def)

lemma instr_place:
  assumes "mutex_instr pc w = Some (pc', w', r)"
  shows "place_ok pl pc \<Longrightarrow> place_ok pl pc'" and "\<not> idle pc"
proof -
  have "in_unlock pc \<Longrightarrow> in_unlock pc'" "relocking pc \<Longrightarrow> relocking pc'"
    using assms by (cases "(pc, w)" rule: mutex_instr.cases; auto simp: unlock_loop_def split: if_splits)+
  moreover show "\<not> idle pc"
    using assms by (auto simp: idle_def)
  ultimately show "place_ok pl pc'" if "place_ok pl pc" using that by (cases pl) auto
qed

text \<open>A step of a mutex leaves a thread that is not calling it at its place.\<close>

lemma mstep_place:
  assumes "mstep m e m'" and "\<And>p. e \<noteq> CallLock t p \<and> e \<noteq> CallTry t p \<and> e \<noteq> CallUnlock t p"
  shows "(place_ok pl (pcs m t) \<longrightarrow> place_ok pl (pcs m' t)) \<and> (idle (pcs m t) \<longrightarrow> pcs m' t = pcs m t)"
proof -
  have rest: "\<not> idle UWake" "\<not> idle LSleep" by (simp_all add: idle_def)
  then have wake: "place_ok pl UWake \<Longrightarrow> place_ok pl Out" "place_ok pl LSleep \<Longrightarrow> place_ok pl LXchg"
    by (cases pl; simp)+
  show ?thesis
    using assms
  proof (induction rule: mstep.induct)
    case (instr u s pc w r)
    then show ?case using instr_place(1) [OF instr(2), of pl] instr_place(2) [OF instr(2)] by auto
  qed (auto simp: wake rest enter_def split: sum.splits)
qed

lemma mstep_threads: "mstep m e m' \<Longrightarrow> threads m' = threads m"
  by (induction rule: mstep.induct) (auto simp: enter_def split: sum.splits)

lemma mstep_out: "mutex_inv m \<Longrightarrow> mstep m e m' \<Longrightarrow> threads m \<le> t \<Longrightarrow> pcs m' t = Out"
  using mutex_inv_step [of m e m'] mstep_threads [of m e m'] held_out [of _ m' t]
  by (auto simp: mutex_inv_def)

lemma locks_invD:
  assumes "locks_inv s"
  shows "mutex_inv (locks s m)" and "threads (locks s m) = cthreads s"
    and "nmut s \<le> m \<Longrightarrow> pcs (locks s m) t = Out"
  using assms by (simp_all add: locks_inv_def places_def)

lemma cond_invD:
  assumes "cond_inv s"
  shows "locks_inv s" and "stack_ok s t (places s t) (arg s t) (stack s t)"
  using assms by (simp_all add: cond_inv_def)

lemma cond_mutex:
  assumes "cond_inv s"
  shows "mutex_inv (locks s m)" and "threads (locks s m) = cthreads s"
  using locks_invD [OF cond_invD(1) [OF assms]] by simp_all

lemma stack_place:
  assumes "cond_inv s" and "stack s t = (c, pl) # cs"
  shows "t < cthreads s" and "place_ok pl (pcs (its_mutex s t) t)" and "path_ok (parents (conds s)) c cs"
    and "signalling pl \<Longrightarrow> cs = []" and "\<not> signalling pl \<Longrightarrow> arg s t < nmut s"
    and "m \<noteq> arg s t \<Longrightarrow> idle (pcs (locks s m) t)"
  using cond_invD(2) [OF assms(1), of t] assms(2) by (auto simp: places_def its_mutex_def split: if_splits)

text \<open>A new state of the mutexes, of the condition variables and of one thread's calls.\<close>

lemma locks_inv_upd:
  assumes "locks_inv s" and "mutex_inv l" and "threads l = cthreads s"
    and "locks s' = (locks s)(m := l)" and "cthreads s' = cthreads s" and "nmut s' = nmut s" and "m < nmut s"
  shows "locks_inv s'"
  using assms by (auto simp: locks_inv_def places_def)

lemma locks_inv_cong:
  "locks s' = locks s \<Longrightarrow> cthreads s' = cthreads s \<Longrightarrow> nmut s' = nmut s \<Longrightarrow> locks_inv s' = locks_inv s"
  by (simp add: locks_inv_def places_def)

lemma cond_inv_move:
  assumes "cond_inv s" and "locks_inv s'" and "parents (conds s') = parents (conds s)"
    and "cthreads s' = cthreads s" and "nmut s' = nmut s"
    and "\<And>u. u \<noteq> t \<Longrightarrow> stack s' u = stack s u \<and> arg s' u = arg s u \<and> places s' u = places s u"
    and "stack_ok s t (places s' t) (arg s' t) (stack s' t)"
  shows "cond_inv s'"
  unfolding cond_inv_def
proof (intro conjI allI)
  show "stack_ok s' u (places s' u) (arg s' u) (stack s' u)" for u
    using cond_invD(2) [OF assms(1), of u] assms(3-7) by (cases "u = t") auto
qed (rule assms(2))

section \<open>Every step keeps the invariant\<close>

lemma cond_instr_parent: "cond_instr m pl c = Some (r, g) \<Longrightarrow> parent r = parent c"
  by (cases pl) (auto simp: Let_def split: if_splits option.splits)

lemma move_simps [simp]:
  "locks (move t x s) = locks s" "conds (move t x s) = conds s" "arg (move t x s) = arg s"
  "cthreads (move t x s) = cthreads s" "nmut (move t x s) = nmut s"
  "stack (move t x s) = (stack s)(t := fst x)" "crets (move t x s) = (crets s)(t := snd x)"
  by (simp_all add: move_def)

lemma begin_call_simps [simp]:
  "locks (begin_call t f s) = locks s" "conds (begin_call t f s) = conds s" "arg (begin_call t f s) = arg s"
  "cthreads (begin_call t f s) = cthreads s" "nmut (begin_call t f s) = nmut s"
  by (simp_all add: begin_call_def split: sum.splits)

lemma with_arg_simps [simp]:
  "locks (with_arg t p s) = locks s" "conds (with_arg t p s) = conds s" "stack (with_arg t p s) = stack s"
  "cthreads (with_arg t p s) = cthreads s" "nmut (with_arg t p s) = nmut s"
  "arg (with_arg t p s) = (case p of None \<Rightarrow> arg s | Some m \<Rightarrow> (arg s)(t := m))"
  by (simp_all add: with_arg_def split: option.splits)

lemma awaken_simps [simp]:
  "conds (wake_waiter u s) = conds s" "conds (requeue_waiters c m u s) = conds s"
  "arg (wake_waiter u s) = arg s" "arg (requeue_waiters c m u s) = arg s"
  "cthreads (wake_waiter u s) = cthreads s" "cthreads (requeue_waiters c m u s) = cthreads s"
  "nmut (wake_waiter u s) = nmut s" "nmut (requeue_waiters c m u s) = nmut s"
  "stack (wake_waiter u s) = (stack s)(u := awakened (stack s u))"
  "stack (requeue_waiters c m u s) v = (if asleep c (stack s v) then awakened (stack s v) else stack s v)"
  by (simp_all add: wake_waiter_def requeue_waiters_def)

lemma signal_done_simps [simp]:
  "locks (signal_done t n k cs s) = locks s" "conds (signal_done t n k cs s) = conds s"
  "arg (signal_done t n k cs s) = arg s" "cthreads (signal_done t n k cs s) = cthreads s"
  "nmut (signal_done t n k cs s) = nmut s" "stack (signal_done t n k cs s) = (stack s)(t := fst (leave 0 cs))"
  by (simp_all add: signal_done_def)

lemma instr_parents:
  "cond_instr m pl (conds s c) = Some (r, g) \<Longrightarrow> parents ((conds s)(c := r)) = parents (conds s)"
  by (auto simp: parents_def fun_eq_iff dest: cond_instr_parent)

text \<open>A call that returns leaves its caller, which holds the mutex, at its next place.\<close>

lemma leave_ok:
  assumes "calls_ok P N n t pc a ((c, pl) # cs)" and "cs \<noteq> [] \<longrightarrow> pc a = Held"
  shows "calls_ok P N n t pc a (fst (leave r cs))"
  using assms by (cases cs) (auto split: if_splits)

lemma proceed_ok:
  assumes "cond_instr m pl (conds s c) = Some (r, g)" and "stack_ok s t pc a ((c, pl) # cs)"
  shows "stack_ok s t pc a (fst (proceed c g cs))"
  using assms leave_ok [OF assms(2)]
  by (cases pl) (auto simp: Let_def parents_def split: if_splits option.splits)

lemma requeue_next_ok:
  assumes "pl = WRequeue \<or> pl = BRequeue" and "calls_ok P N n t pc a ((c, pl) # cs)"
  shows "calls_ok P N n t pc a (fst (requeue_next c pl cs))"
  using assms leave_ok [OF assms(2)] by (auto split: if_splits)

text \<open>The end of a step that only moves the thread on, after the kernel has woken others.\<close>

lemma move_inv:
  assumes "cond_inv s" and "stack_ok s t (places s t) (arg s t) (fst x)"
  shows "cond_inv (move t x s)"
  by (rule cond_inv_move [OF assms(1), of _ t])
    (use assms cond_invD(1) [OF assms(1)] locks_inv_cong [of "move t x s" s] in \<open>simp_all add: places_def [abs_def]\<close>)

lemma woken_inv: "cond_inv (s\<lparr>woken := w\<rparr>) \<longleftrightarrow> cond_inv s"
  by (simp add: cond_inv_def locks_inv_def places_def [abs_def])

lemma asleep_out:
  assumes "cond_inv s" and "asleep c (stack s u)"
  shows "pcs (its_mutex s u) u = Out" and "u < cthreads s" and "arg s u < nmut s"
  using assms stack_place [OF assms(1), of u] by (auto simp: asleep_iff)

text \<open>Waking a sleeper of a condition variable, and a broadcast.\<close>

lemma wake_waiter_inv:
  assumes inv: "cond_inv s" and st: "stack s u = (c, pl) # cs" and pc: "pcs (its_mutex s u) u = Out"
    and pl: "\<not> signalling pl"
  shows "cond_inv (wake_waiter u s)"
proof (rule cond_inv_move [OF inv, of _ u])
  note p = stack_place [OF inv st]
  let ?l = "join u (its_mutex s u)"
  have j: "mutex_inv ?l" "threads ?l = cthreads s"
    using join_inv [of "its_mutex s u" u] cond_mutex [OF inv] pc p(1) by (simp_all add: its_mutex_def join_def)
  show "locks_inv (wake_waiter u s)"
    by (rule locks_inv_upd [OF cond_invD(1) [OF inv] j, of _ "arg s u"]) (use p(5) [OF pl] in
      \<open>simp_all add: wake_waiter_def its_mutex_def\<close>)
  show "stack_ok s u (places (wake_waiter u s) u) (arg (wake_waiter u s) u) (stack (wake_waiter u s) u)"
    using p st pl by (simp add: places_def wake_waiter_def join_def)
qed (auto simp: places_def wake_waiter_def join_def)

lemma requeue_waiters_inv:
  assumes inv: "cond_inv s" and u: "asleep c (stack s u)" and arg: "\<And>v. asleep c (stack s v) \<Longrightarrow> arg s v = m"
  shows "cond_inv (requeue_waiters c m u s)"
proof -
  let ?R = "\<lambda>v. asleep c (stack s v)"
  let ?l = "requeue ?R u (locks s m)"
  have out: "pcs (locks s m) v = Out" "v < cthreads s" if "?R v" for v
    using asleep_out [OF inv that] arg [OF that] by (simp_all add: its_mutex_def)
  have l: "mutex_inv ?l" "threads ?l = cthreads s"
    using requeue_inv [of "locks s m" ?R u] cond_mutex [OF inv, of m] out u by (simp_all add: requeue_def)
  have "locks_inv (requeue_waiters c m u s)"
    by (rule locks_inv_upd [OF cond_invD(1) [OF inv] l, of _ m])
      (use asleep_out(3) [OF inv u] arg [OF u] in \<open>simp_all add: requeue_waiters_def\<close>)
  moreover have "stack_ok s t (places (requeue_waiters c m u s) t) (arg s t) (stack (requeue_waiters c m u s) t)" for t
  proof (cases "?R t")
    case True
    then obtain k ds where st: "stack s t = (c, WSleep k) # ds" by (auto simp: asleep_iff)
    with stack_place [OF inv st] True arg [OF True] show ?thesis
      by (simp add: places_def requeue_waiters_def requeue_def)
  next
    case False
    with u have "t \<noteq> u" by auto
    with False have "places (requeue_waiters c m u s) t = places s t"
      by (auto simp: places_def requeue_waiters_def requeue_def)
    with False cond_invD(2) [OF inv, of t] show ?thesis by simp
  qed
  ultimately show ?thesis by (simp add: cond_inv_def)
qed

lemma outside_idle: "cond_inv s \<Longrightarrow> outside s t \<Longrightarrow> idle (places s t m)"
  using locks_invD(3) [OF cond_invD(1), of s m t] by (cases "m < nmut s") (auto simp: outside_def places_def)

lemma begin_inv:
  assumes "cond_inv s" and out: "outside s t"
    and "\<And>c pl. f = Inr (c, pl) \<Longrightarrow> place_ok pl (pcs (locks s a) t) \<and> (\<not> signalling pl \<longrightarrow> a < nmut s)"
    and s': "s' = s\<lparr>arg := (arg s)(t := a)\<rparr>"
  shows "cond_inv (begin_call t f s')"
proof (rule cond_inv_move [OF assms(1), of _ t])
  have idle: "idle (places s t m)" for m using outside_idle [OF assms(1,2)] .
  have same: "places (begin_call t f s') = places s" by (simp add: places_def [abs_def] s')
  show "stack_ok s t (places (begin_call t f s') t) (arg (begin_call t f s') t) (stack (begin_call t f s') t)"
    unfolding same using assms(3) out idle
    by (auto simp: begin_call_def s' outside_def places_def split: sum.splits)
  show "locks_inv (begin_call t f s')"
    using cond_invD(1) [OF assms(1)] locks_inv_cong [of "begin_call t f s'" s] by (simp add: s')
  show "\<And>u. u \<noteq> t \<Longrightarrow> stack (begin_call t f s') u = stack s u \<and> arg (begin_call t f s') u = arg s u \<and>
      places (begin_call t f s') u = places s u"
    using same by (auto simp: begin_call_def s' split: sum.splits)
qed (simp_all add: s')

lemma begin_signal:
  assumes "cond_inv s" and "outside s t" and "\<And>c pl. f = Inr (c, pl) \<Longrightarrow> signalling pl"
  shows "cond_inv (begin_call t f s)"
proof (rule begin_inv [OF assms(1,2), of _ "arg s t" s])
  have "signalling pl \<Longrightarrow> place_ok pl pc = idle pc" for pl pc by (cases pl) simp_all
  then show "place_ok pl (pcs (locks s (arg s t)) t) \<and> (\<not> signalling pl \<longrightarrow> arg s t < nmut s)"
    if "f = Inr (c, pl)" for c pl
    using assms(3) [OF that] outside_idle [OF assms(1,2)] by (simp add: places_def)
qed simp

text \<open>What the sleepers of a condition variable have as their mutex is what it is bound to
  (\<open>bind_inv\<close> below).\<close>

definition sleepers_bound :: "csys \<Rightarrow> bool" where
  "sleepers_bound s \<longleftrightarrow> (\<forall>t c pl cs m v. stack s t = (c, pl) # cs \<longrightarrow> pl = WRequeue \<or> pl = BRequeue \<longrightarrow>
     requeue_to (arg s t) pl (conds s c) = Some m \<longrightarrow> asleep c (stack s v) \<longrightarrow> arg s v = m)"

lemma cond_inv_step:
  assumes "cstep s e s'" and inv: "cond_inv s" and bound: "sleepers_bound s"
  shows "cond_inv s'"
  using assms(1)
proof cases
  case (on_mutex m e l)
  note li = cond_mutex [OF inv, of m]
  have "locks_inv s'"
    by (rule locks_inv_upd [OF cond_invD(1) [OF inv] mutex_inv_step [OF li(1) on_mutex(5)], of _ m])
      (use on_mutex li(2) mstep_threads [OF on_mutex(5)] in simp_all)
  moreover have "stack_ok s t (places s' t) (arg s t) (stack s t)" for t
  proof (cases "stack s t")
    case (Cons x cs)
    obtain c pl where st: "stack s t = (c, pl) # cs" using Cons by (cases x) auto
    then have "e \<noteq> CallLock t p \<and> e \<noteq> CallTry t p \<and> e \<noteq> CallUnlock t p" for p
      using on_mutex(4) by (auto simp: outside_def)
    from mstep_place [OF on_mutex(5) this, where pl = pl] stack_place [OF inv st] cond_invD(2) [OF inv, of t] st
    show ?thesis
      by (cases "arg s t = m") (auto simp: on_mutex(2) places_def its_mutex_def split: if_splits)
  qed simp
  ultimately show ?thesis using on_mutex by (simp add: cond_inv_def)
next
  case (cinstr t c pl cs r g)
  let ?s = "s\<lparr>conds := (conds s)(c := r)\<rparr>"
  have "cond_inv ?s"
    using inv instr_parents [OF cinstr(4)] by (simp add: cond_inv_def locks_inv_def places_def [abs_def])
  then have "cond_inv (move t (proceed c g cs) ?s)"
    by (rule move_inv)
      (use proceed_ok [OF cinstr(4), of t] cond_invD(2) [OF inv, of t] cinstr(3) instr_parents [OF cinstr(4)]
        in \<open>simp add: places_def [abs_def]\<close>)
  with cinstr show ?thesis by simp
next
  case (unlock t c cs pc)
  note p = stack_place [OF inv unlock(3)]
  have pc: "pc = URead" using unlock(4) by (simp add: fastsync_mutex_unlock_def)
  let ?l = "enter (its_mutex s t) t (Inr pc)"
  have step: "mstep (its_mutex s t) (CallUnlock t This) (enter (its_mutex s t) t (fastsync_mutex_unlock This))"
    using p cond_mutex [OF inv, of "arg s t"] by (intro mstep.call_unlock) (auto simp: its_mutex_def)
  have l: "mutex_inv ?l" "threads ?l = cthreads s"
    using mutex_inv_step [OF _ step] mstep_threads [OF step] unlock(4) cond_mutex [OF inv, of "arg s t"]
    by (simp_all add: its_mutex_def)
  show ?thesis
  proof (rule cond_inv_move [OF inv, of _ t])
    show "locks_inv s'"
      by (rule locks_inv_upd [OF cond_invD(1) [OF inv] l, of _ "arg s t"]) (use unlock p(5) in simp_all)
  qed (use unlock p pc in \<open>auto simp: enter_def places_def parents_def fun_eq_iff its_mutex_def\<close>)
next
  case (futex_wait t c k cs)
  note p = stack_place [OF inv futex_wait(3)]
  show ?thesis
  proof (cases "low_seq (conds s c) = k")
    case True
    then show ?thesis
      using move_inv [OF inv, of t "((c, WSleep k) # cs, None)"] futex_wait p cond_invD(2) [OF inv, of t]
      by (simp add: places_def its_mutex_def)
  next
    case False
    with wake_waiter_inv [OF inv futex_wait(3,4)] futex_wait show ?thesis by simp
  qed
next
  case (relocked t c cs)
  then show ?thesis
    using leave_ok [of _ _ _ t "places s t" "arg s t" c WLock cs 0] cond_invD(2) [OF inv, of t]
    by (auto intro!: move_inv [OF inv] simp: places_def its_mutex_def)
next
  case (wake_waiter t c n cs u)
  obtain k ds where u: "stack s u = (c, WSleep k) # ds" using wake_waiter(4) by (auto simp: asleep_iff)
  have "u \<noteq> t" using u wake_waiter(3) by auto
  have w: "cond_inv (Cond.wake_waiter u s)"
    by (rule wake_waiter_inv [OF inv u]) (use asleep_out [OF inv wake_waiter(4)] in simp_all)
  have "cs = []" using stack_place(4) [OF inv wake_waiter(3)] by simp
  with w wake_waiter(2) show ?thesis
    by (auto simp: signal_done_def woken_inv intro!: move_inv)
next
  case (wake_nobody t c n cs)
  have "cs = []" using stack_place(4) [OF inv wake_nobody(3)] by simp
  with wake_nobody inv show ?thesis by (auto simp: signal_done_def woken_inv intro!: move_inv)
next
  case (requeue_some t c pl cs m u)
  have t: "\<not> asleep c (stack s t)" "t \<noteq> u" using requeue_some by (auto simp: asleep_iff)
  have arg: "arg s v = m" if "asleep c (stack s v)" for v
    using bound requeue_some(3-5) that unfolding sleepers_bound_def by blast
  have "places (requeue_waiters c m u s) t = places s t"
    using t by (auto simp: places_def requeue_waiters_def requeue_def)
  then show ?thesis
    unfolding requeue_some(2)
    using requeue_next_ok [OF requeue_some(4), of _ _ _ t "places s t" "arg s t" c cs]
      cond_invD(2) [OF inv, of t] requeue_some(3)
    by (intro move_inv [OF requeue_waiters_inv [OF inv requeue_some(6) arg]]) simp_all
next
  case (requeue_nobody t c pl cs m)
  with requeue_next_ok [OF requeue_nobody(4), of _ _ _ t "places s t" "arg s t" c cs] cond_invD(2) [OF inv, of t]
  show ?thesis by (auto intro!: move_inv [OF inv])
next
  case (interrupted c u)
  then obtain k ds where u: "stack s u = (c, WSleep k) # ds" by (auto simp: asleep_iff)
  show ?thesis
    unfolding interrupted(2)
    by (rule wake_waiter_inv [OF inv u]) (use asleep_out [OF inv interrupted(3)] in simp_all)
next
  case (call_wait t m p)
  show ?thesis
    unfolding call_wait(2)
  proof (cases m)
    case None
    then show "cond_inv (begin_call t (fastsync_cond_wait p m) (with_arg t m s))"
      by (intro begin_inv [OF inv call_wait(3), of _ "arg s t"])
        (auto simp: fastsync_cond_wait_def with_arg_def split: option.splits)
  next
    case (Some a)
    then show "cond_inv (begin_call t (fastsync_cond_wait p m) (with_arg t m s))"
      using call_wait(4) by (intro begin_inv [OF inv call_wait(3), of _ a])
        (auto simp: fastsync_cond_wait_def with_arg_def passes_def split: option.splits)
  qed
qed (auto intro!: begin_signal [OF inv] simp: fastsync_cond_signal_def
    fastsync_cond_signal_count_def fastsync_cond_broadcast_def split: option.splits)

section \<open>One thread for every node of the tree\<close>

text \<open>The thread that stands for a node: from the start of its call for the parent until it
  has released the other waiters of the node.\<close>

fun standing :: "cplace \<Rightarrow> bool" where
  "standing WParent = True" | "standing WInc = True" | "standing (WInc2 v) = True"
| "standing WRequeue = True" | "standing WReset = True" | "standing pl = False"

fun reps :: "calls \<Rightarrow> cid list" where
  "reps [] = []"
| "reps ((c, pl) # cs) = (if standing pl then c # reps cs else reps cs)"

definition tree_inv :: "csys \<Rightarrow> bool" where
  "tree_inv s \<longleftrightarrow> (\<forall>t. distinct (reps (stack s t))) \<and>
     (\<forall>t u. t \<noteq> u \<longrightarrow> set (reps (stack s t)) \<inter> set (reps (stack s u)) = {}) \<and>
     (\<forall>c. use_child (conds s c) = (if \<exists>t. c \<in> set (reps (stack s t)) then 1 else 0))"

lemma tree_inv_same:
  assumes "tree_inv s" and "\<And>t. reps (stack s' t) = reps (stack s t)"
    and "\<And>c. use_child (conds s' c) = use_child (conds s c)"
  shows "tree_inv s'"
  using assms by (simp add: tree_inv_def)

lemma reps_leave: "path_ok P c cs \<Longrightarrow> reps (fst (leave r cs)) = reps cs"
  by (cases cs) (auto split: prod.splits)

lemma reps_awakened: "cs = (c, pl) # ds \<Longrightarrow> \<not> standing pl \<Longrightarrow> reps (awakened cs) = reps cs"
  by simp

lemma reps_requeue_next:
  "pl = WRequeue \<or> pl = BRequeue \<Longrightarrow> path_ok P c cs \<Longrightarrow>
   reps (fst (requeue_next c pl cs)) = reps ((c, pl) # cs)"
  by (auto simp: reps_leave)

lemma wake_waiter_reps:
  "stack s u = (c, pl) # ds \<Longrightarrow> \<not> standing pl \<Longrightarrow> reps (stack (wake_waiter u s) t) = reps (stack s t)"
  by simp

lemma requeue_waiters_reps: "reps (stack (requeue_waiters c m u s) t) = reps (stack s t)"
  by (auto simp: asleep_iff)

lemma tree_start:
  assumes inv: "tree_inv s" and "use_child (conds s c) = 0"
    and "\<And>u. reps (stack s' u) = (if u = t then c # reps (stack s t) else reps (stack s u))"
    and "\<And>d. use_child (conds s' d) = (if d = c then 1 else use_child (conds s d))"
  shows "tree_inv s'"
proof -
  have none: "c \<notin> set (reps (stack s u))" for u
    using inv assms(2) unfolding tree_inv_def by (metis zero_neq_one)
  show ?thesis
    unfolding tree_inv_def
  proof (intro conjI allI impI)
    show "distinct (reps (stack s' u))" for u using inv none by (simp add: assms(3) tree_inv_def)
    show "set (reps (stack s' u)) \<inter> set (reps (stack s' v)) = {}" if "u \<noteq> v" for u v
    proof -
      have "set (reps (stack s u)) \<inter> set (reps (stack s v)) = {}"
        using inv that unfolding tree_inv_def by blast
      then show ?thesis using none that by (auto simp: assms(3))
    qed
    show "use_child (conds s' d) = (if \<exists>u. d \<in> set (reps (stack s' u)) then 1 else 0)" for d
      using inv by (auto simp: assms(3,4) tree_inv_def)
  qed
qed

lemma tree_end:
  assumes inv: "tree_inv s" and "reps (stack s t) = c # rs"
    and "\<And>u. reps (stack s' u) = (if u = t then rs else reps (stack s u))"
    and "\<And>d. use_child (conds s' d) = (if d = c then 0 else use_child (conds s d))"
  shows "tree_inv s'"
proof -
  have dis: "distinct (c # rs)" using inv assms(2) unfolding tree_inv_def by metis
  have apart: "set (reps (stack s u)) \<inter> set (reps (stack s v)) = {}" if "u \<noteq> v" for u v
    using inv that unfolding tree_inv_def by blast
  have none: "c \<notin> set (reps (stack s u))" if "u \<noteq> t" for u
    using apart [OF that] assms(2) by auto
  show ?thesis
    unfolding tree_inv_def
  proof (intro conjI allI impI)
    show "distinct (reps (stack s' u))" for u using inv dis by (simp add: assms(3) tree_inv_def)
    show "set (reps (stack s' u)) \<inter> set (reps (stack s' v)) = {}" if "u \<noteq> v" for u v
      using apart [OF that] assms(2) by (auto simp: assms(3))
    have old: "use_child (conds s d) = (if \<exists>u. d \<in> set (reps (stack s u)) then 1 else 0)" for d
      using inv unfolding tree_inv_def by blast
    show "use_child (conds s' d) = (if \<exists>u. d \<in> set (reps (stack s' u)) then 1 else 0)" for d
    proof (cases "d = c")
      case True
      have "c \<notin> set (reps (stack s' u))" for u using none [of u] dis by (simp add: assms(3))
      with True show ?thesis by (simp add: assms(4))
    next
      case False
      then have "(\<exists>u. d \<in> set (reps (stack s' u))) \<longleftrightarrow> (\<exists>u. d \<in> set (reps (stack s u)))"
        using assms(2,3) by (metis set_ConsD list.set_intros(2))
      with False old show ?thesis by (simp add: assms(4))
    qed
  qed
qed

lemma tree_instr:
  assumes inv: "cond_inv s" "tree_inv s" and st: "stack s t = (c, pl) # cs"
    and instr: "cond_instr m pl (conds s c) = Some (r, g)"
  shows "tree_inv (move t (proceed c g cs) (s\<lparr>conds := (conds s)(c := r)\<rparr>))" (is "tree_inv ?s'")
proof -
  note path = stack_place(3) [OF inv(1) st]
  have same: "reps (fst (leave r' cs)) = reps cs" for r' by (rule reps_leave [OF path])
  have "pl = WChild \<and> use_child (conds s c) = 0 \<and> (\<exists>p. g = Into p) \<and> r = (conds s c)\<lparr>use_child := 1\<rparr> \<or>
      pl = WReset \<and> g = Return 0 \<and> r = (conds s c)\<lparr>use_child := 0\<rparr> \<or>
      reps (fst (proceed c g cs)) = reps ((c, pl) # cs) \<and> use_child r = use_child (conds s c)"
    using instr
    by (cases pl; simp add: Let_def same split: if_splits option.splits; clarsimp simp: same)
  then consider (start) p where "pl = WChild" "use_child (conds s c) = 0" "g = Into p" "r = (conds s c)\<lparr>use_child := 1\<rparr>"
    | (last) "pl = WReset" "g = Return 0" "r = (conds s c)\<lparr>use_child := 0\<rparr>"
    | (same) "reps (fst (proceed c g cs)) = reps ((c, pl) # cs)" "use_child r = use_child (conds s c)"
    by blast
  then show ?thesis
  proof cases
    case start
    show ?thesis by (rule tree_start [OF inv(2) start(2), of _ t]) (simp_all add: start st)
  next
    case last
    show ?thesis
      by (rule tree_end [OF inv(2), of t c "reps cs"]) (simp_all add: last st reps_leave [OF path])
  next
    case same
    show ?thesis by (rule tree_inv_same [OF inv(2)]) (simp_all add: same st)
  qed
qed

lemma tree_inv_step:
  assumes "cstep s e s'" and inv: "cond_inv s" "tree_inv s"
  shows "tree_inv s'"
  using assms(1)
proof cases
  case (cinstr t c pl cs r g)
  with tree_instr [OF inv] show ?thesis by simp
next
  case (futex_wait t c k cs)
  have "\<And>u. reps (stack (wake_waiter t s) u) = reps (stack s u)"
    by (rule wake_waiter_reps [OF futex_wait(3)]) simp
  with futex_wait show ?thesis by (intro tree_inv_same [OF inv(2)]) auto
next
  case (relocked t c cs)
  with reps_leave [OF stack_place(3) [OF inv(1) relocked(3)]] show ?thesis
    by (intro tree_inv_same [OF inv(2)]) auto
next
  case (wake_waiter t c n cs u)
  obtain k ds where u: "stack s u = (c, WSleep k) # ds" using wake_waiter(4) by (auto simp: asleep_iff)
  have "\<And>v. reps (stack (Cond.wake_waiter u s) v) = reps (stack s v)"
    by (rule wake_waiter_reps [OF u]) simp
  with wake_waiter reps_leave [OF stack_place(3) [OF inv(1) wake_waiter(3)]] show ?thesis
    by (intro tree_inv_same [OF inv(2)]) auto
next
  case (wake_nobody t c n cs)
  with reps_leave [OF stack_place(3) [OF inv(1) wake_nobody(3)]] show ?thesis
    by (intro tree_inv_same [OF inv(2)]) auto
next
  case (requeue_some t c pl cs m u)
  note r = reps_requeue_next [OF requeue_some(4) stack_place(3) [OF inv(1) requeue_some(3)]]
  show ?thesis
    by (rule tree_inv_same [OF inv(2)])
      (use requeue_some(2,3) r requeue_waiters_reps in \<open>simp_all add: fun_upd_def\<close>)
next
  case (requeue_nobody t c pl cs m)
  note r = reps_requeue_next [OF requeue_nobody(4) stack_place(3) [OF inv(1) requeue_nobody(3)]]
  show ?thesis
    by (rule tree_inv_same [OF inv(2)]) (use requeue_nobody(2,3) r in \<open>simp_all add: fun_upd_def\<close>)
next
  case (interrupted c u)
  then obtain k ds where u: "stack s u = (c, WSleep k) # ds" by (auto simp: asleep_iff)
  have "\<And>v. reps (stack (Cond.wake_waiter u s) v) = reps (stack s v)"
    by (rule wake_waiter_reps [OF u]) simp
  with interrupted show ?thesis by (intro tree_inv_same [OF inv(2)]) auto
qed (auto simp: outside_def begin_call_def fastsync_cond_wait_def fastsync_cond_signal_def
    fastsync_cond_signal_count_def fastsync_cond_broadcast_def
    intro!: tree_inv_same [OF inv(2)] split: sum.splits option.splits if_splits)

section \<open>The mutex of a condition variable\<close>

text \<open>The code of wait behind the checks of the mutex; its parts that use the condition variable
  with the mutex held are \<open>guarded\<close>.\<close>

fun checking_mutex :: "cplace \<Rightarrow> bool" where
  "checking_mutex WMutex = True" | "checking_mutex WMutex2 = True" | "checking_mutex WCas = True"
| "checking_mutex pl = False"

fun guarded :: "cplace \<Rightarrow> bool" where
  "guarded WChild = True"
| "guarded WInc = True" | "guarded (WInc2 v) = True" | "guarded WRequeue = True" | "guarded WReset = True"
| "guarded WSeq = True" | "guarded pl = False"

text \<open>
  Behind the checks, also in the frames of callers, the condition variable is bound to the
  mutex of the wait; a broadcast in front of its FUTEX_REQUEUE has seen it bound. Between the
  test of \<open>cond->mutex\<close> and the compare-and-exchange nobody binds it to this mutex.
\<close>

fun frame_bound :: "(cid \<Rightarrow> fastsync_cond) \<Rightarrow> mid \<Rightarrow> cid \<times> cplace \<Rightarrow> bool" where
  "frame_bound C a (c, pl) =
     (if pl = BRequeue then cmutex (C c) \<noteq> None
      else if signalling pl \<or> pl = WMutex then True
      else if checking_mutex pl then cmutex (C c) \<noteq> Some a
      else cmutex (C c) = Some a)"

lemma frame_bound_simps [simp]:
  "frame_bound C a (c, WMutex)" "frame_bound C a (c, WMutex2) \<longleftrightarrow> cmutex (C c) \<noteq> Some a"
  "frame_bound C a (c, WCas) \<longleftrightarrow> cmutex (C c) \<noteq> Some a" "frame_bound C a (c, WChild) \<longleftrightarrow> cmutex (C c) = Some a"
  "frame_bound C a (c, WParent) \<longleftrightarrow> cmutex (C c) = Some a" "frame_bound C a (c, WInc) \<longleftrightarrow> cmutex (C c) = Some a"
  "frame_bound C a (c, WInc2 v) \<longleftrightarrow> cmutex (C c) = Some a" "frame_bound C a (c, WRequeue) \<longleftrightarrow> cmutex (C c) = Some a"
  "frame_bound C a (c, WReset) \<longleftrightarrow> cmutex (C c) = Some a" "frame_bound C a (c, WSeq) \<longleftrightarrow> cmutex (C c) = Some a"
  "frame_bound C a (c, WUnlock k) \<longleftrightarrow> cmutex (C c) = Some a" "frame_bound C a (c, WSleep k) \<longleftrightarrow> cmutex (C c) = Some a"
  "frame_bound C a (c, WLock) \<longleftrightarrow> cmutex (C c) = Some a" "frame_bound C a (c, SAdd n)" "frame_bound C a (c, SWake n)"
  "frame_bound C a (c, BAdd)" "frame_bound C a (c, BMutex)" "frame_bound C a (c, BRequeue) \<longleftrightarrow> cmutex (C c) \<noteq> None"
  by simp_all

declare frame_bound.simps [simp del]

definition bind_inv :: "csys \<Rightarrow> bool" where
  "bind_inv s \<longleftrightarrow> (\<forall>t. \<forall>x\<in>set (stack s t). frame_bound (conds s) (arg s t) x)"

lemma bind_invD: "bind_inv s \<Longrightarrow> stack s t = (c, pl) # cs \<Longrightarrow> frame_bound (conds s) (arg s t) (c, pl)"
  unfolding bind_inv_def by (metis list.set_intros(1))

lemma bound_sleepers:
  assumes "bind_inv s"
  shows "sleepers_bound s"
  unfolding sleepers_bound_def
proof (intro allI impI)
  fix t c pl cs m v
  assume st: "stack s t = (c, pl) # cs" and pl: "pl = WRequeue \<or> pl = BRequeue"
    and m: "requeue_to (arg s t) pl (conds s c) = Some m" and "asleep c (stack s v)"
  then obtain k ds where "stack s v = (c, WSleep k) # ds" by (auto simp: asleep_iff)
  with bind_invD [OF assms(1) this] bind_invD [OF assms(1) st] pl m show "arg s v = m"
    by (auto simp: requeue_to_def)
qed

lemma one_owner:
  assumes "cond_inv s" and "owns (locks s m) t" and "owns (locks s m) u"
  shows "t = u"
  using cond_mutex [OF assms(1), of m] assms(2,3) by (auto simp: mutex_inv_def held_by_def)

text \<open>Who is at the checks or at a guarded place holds the mutex.\<close>

lemma guarded_held:
  assumes "cond_inv s" and "stack s t = (c, pl) # cs" and "guarded pl \<or> checking_mutex pl"
  shows "pcs (locks s (arg s t)) t = Held"
  using stack_place(2) [OF assms(1,2)] assms(3) by (cases pl) (auto simp: its_mutex_def)

lemma one_of_mutex:
  assumes "cond_inv s" and "stack s t = (c, pl) # cs" "guarded pl \<or> checking_mutex pl"
    and "stack s u = (d, pl') # ds" "guarded pl' \<or> checking_mutex pl'" and "arg s t = arg s u"
  shows "t = u"
  using guarded_held [OF assms(1,2,3)] guarded_held [OF assms(1,4,5)] assms(6)
    one_owner [OF assms(1), of "arg s t" t u] by (simp add: owns_def)

lemma one_guarded:
  assumes "cond_inv s" "bind_inv s" and "stack s t = (c, pl) # cs" "guarded pl"
    and "stack s u = (c, pl') # ds" "guarded pl'"
  shows "t = u"
proof -
  have "guarded pl \<Longrightarrow> frame_bound C a (c, pl) \<Longrightarrow> cmutex (C c) = Some a" for pl C a
    by (cases pl) simp_all
  from this [OF assms(4) bind_invD [OF assms(2,3)]] this [OF assms(6) bind_invD [OF assms(2,5)]]
  have "arg s t = arg s u" by simp
  with one_of_mutex [OF assms(1,3) _ assms(5)] assms(4,6) show ?thesis by blast
qed

lemma bind_inv_move:
  assumes "bind_inv s" and "conds s' = conds s"
    and "\<And>u. stack s' u = stack s u \<and> arg s' u = arg s u \<or> (\<forall>x\<in>set (stack s' u). frame_bound (conds s) (arg s' u) x)"
  shows "bind_inv s'"
  using assms unfolding bind_inv_def by metis

lemma bound_leave:
  assumes "path_ok P c cs" and "\<forall>x\<in>set cs. frame_bound C a x"
  shows "\<forall>x\<in>set (fst (leave r cs)). frame_bound C a x"
  using assms by (cases cs) (auto split: if_splits)

lemma bound_awakened:
  assumes "cs = (c, pl) # ds" and "\<forall>x\<in>set cs. frame_bound C a x" and "\<not> signalling pl" "\<not> checking_mutex pl"
  shows "\<forall>x\<in>set (awakened cs). frame_bound C a x"
  using assms by (cases pl) auto

lemma cond_instr_mutex:
  assumes "cond_instr m pl r0 = Some (r, g)"
  shows "cmutex r = cmutex r0 \<or> pl = WCas \<and> cmutex r0 = None \<and> cmutex r = Some m"
  using assms by (cases pl) (auto simp: Let_def split: if_splits option.splits)

lemma proceed_bound:
  assumes "cond_instr a pl (C c) = Some (r, g)" and "path_ok P c cs"
    and "\<forall>x\<in>set cs. frame_bound (C(c := r)) a x" and "frame_bound C a (c, pl)"
  shows "\<forall>x\<in>set (fst (proceed c g cs)). frame_bound (C(c := r)) a x"
proof (cases g)
  case (Return r')
  with bound_leave [OF assms(2,3)] show ?thesis by simp
next
  case (Into p)
  with assms show ?thesis by (cases pl) (auto simp: Let_def split: if_splits option.splits)
next
  case (Goto pl')
  then have "frame_bound (C(c := r)) a (c, pl')"
    using assms(1,4) by (cases pl) (auto simp: Let_def split: if_splits option.splits)
  with Goto assms(3) show ?thesis by simp
qed

text \<open>An access of another thread, or to the frames of the callers.\<close>

lemma path_places: "path_ok P c cs \<Longrightarrow> x \<in> set cs \<Longrightarrow> snd x = WParent"
  by (induction P c cs rule: path_ok.induct) auto

lemma bound_upd:
  assumes "frame_bound C a (d, pl')" and "cmutex r = cmutex (C c) \<or> cmutex (C c) = None \<and> cmutex r = Some m"
    and "c = d \<Longrightarrow> checking_mutex pl' \<Longrightarrow> a \<noteq> m \<or> cmutex r = cmutex (C c)"
  shows "frame_bound (C(c := r)) a (d, pl')"
  using assms by (cases "c = d"; cases pl') auto

lemma bind_instr:
  assumes inv: "cond_inv s" "bind_inv s" and st: "stack s t = (c, pl) # cs"
    and instr: "cond_instr (arg s t) pl (conds s c) = Some (r, g)"
  shows "bind_inv (move t (proceed c g cs) (s\<lparr>conds := (conds s)(c := r)\<rparr>))" (is "bind_inv ?s'")
  unfolding bind_inv_def
proof (intro allI ballI)
  note change = cond_instr_mutex [OF instr]
  then have upd: "cmutex r = cmutex (conds s c) \<or> cmutex (conds s c) = None \<and> cmutex r = Some (arg s t)" by blast
  fix u x assume x: "x \<in> set (stack ?s' u)"
  obtain d pl' where xp: "x = (d, pl')" by (cases x)
  show "frame_bound (conds ?s') (arg ?s' u) x"
  proof (cases "u = t")
    case True
    have cs: "\<forall>x\<in>set cs. frame_bound ((conds s)(c := r)) (arg s t) x"
    proof
      fix y assume y: "y \<in> set cs"
      then have "frame_bound (conds s) (arg s t) y" using inv(2) st by (auto simp: bind_inv_def)
      with path_places [OF stack_place(3) [OF inv(1) st] y] upd bound_upd [where C = "conds s" and c = c and r = r and m = "arg s t" and a = "arg s t" and d = "fst y" and pl' = "snd y"]
      show "frame_bound ((conds s)(c := r)) (arg s t) y" by (cases y) simp
    qed
    from proceed_bound [OF instr stack_place(3) [OF inv(1) st] cs bind_invD [OF inv(2) st]] x True
    show ?thesis by simp
  next
    case False
    then have mem: "(d, pl') \<in> set (stack s u)" using x xp by simp
    have "arg s u \<noteq> arg s t \<or> cmutex r = cmutex (conds s c)" if chk: "checking_mutex pl'"
    proof (rule disjCI)
      assume "cmutex r \<noteq> cmutex (conds s c)"
      then have pl: "pl = WCas" using change by simp
      obtain d' p' ds where su: "stack s u = (d', p') # ds" using mem by (cases "stack s u") auto
      have "pl' \<noteq> WParent" using chk by auto
      with path_places [OF stack_place(3) [OF inv(1) su], of "(d, pl')"] mem su have "p' = pl'" by auto
      with one_of_mutex [OF inv(1) st _ su] pl chk False show "arg s u \<noteq> arg s t" by auto
    qed
    moreover have "frame_bound (conds s) (arg s u) (d, pl')" using inv(2) mem unfolding bind_inv_def by blast
    ultimately show ?thesis using upd xp
      bound_upd [where C = "conds s" and c = c and r = r and m = "arg s t" and a = "arg s u" and d = d and pl' = pl']
      by simp
  qed
qed

lemma bind_inv_step:
  assumes "cstep s e s'" and inv: "cond_inv s" "bind_inv s"
  shows "bind_inv s'"
proof -
  have old: "\<forall>x\<in>set (stack s u). frame_bound (conds s) (arg s u) x" for u
    using inv(2) unfolding bind_inv_def by blast
  have tail: "\<forall>x\<in>set cs. frame_bound (conds s) (arg s t) x" if "stack s t = (c, pl) # cs" for t c pl cs
    using old [of t] that by simp
  have leave: "\<forall>x\<in>set (fst (leave r cs)). frame_bound (conds s) (arg s t) x" if "stack s t = (c, pl) # cs" for r t c pl cs
    by (rule bound_leave [OF stack_place(3) [OF inv(1) that] tail [OF that]])
  have awake: "\<forall>x\<in>set (awakened (stack s u)). frame_bound (conds s) (arg s u) x"
    if "stack s u = (c, pl) # cs" "\<not> signalling pl" "\<not> checking_mutex pl" for u c pl cs
    by (rule bound_awakened [OF that(1) old that(2,3)])
  have up: "\<forall>x\<in>set (awakened (stack s u)). frame_bound (conds s) (arg s u) x" if "asleep c (stack s u)" for c u
    using that awake by (fastforce simp: asleep_iff)
  have goto: "\<forall>x\<in>set ((c, pl') # cs). frame_bound (conds s) (arg s t) x"
    if "stack s t = (c, pl) # cs" "frame_bound (conds s) (arg s t) (c, pl) \<longrightarrow> frame_bound (conds s) (arg s t) (c, pl')"
    for t c pl pl' cs
    using old [of t] that by auto
  have onward: "\<forall>x\<in>set (fst (requeue_next c pl cs)). frame_bound (conds s) (arg s t) x"
    if st: "stack s t = (c, pl) # cs" and pl: "pl = WRequeue \<or> pl = BRequeue" for t c pl cs
  proof (cases "pl = WRequeue")
    case True
    with goto [OF st, of WReset] show ?thesis by simp
  next
    case False
    with pl leave [OF st] show ?thesis by simp
  qed
  from assms(1) show ?thesis
  proof cases
    case (cinstr t c pl cs r g)
    with bind_instr [OF inv] show ?thesis by simp
  next
    case (unlock t c cs pc)
    show ?thesis
      by (rule bind_inv_move [OF inv(2)]) (use unlock(2) goto [OF unlock(3), of "WUnlock (low_seq (conds s c))"] in auto)
  next
    case (futex_wait t c k cs)
    show ?thesis
      by (rule bind_inv_move [OF inv(2)])
        (use futex_wait(2) goto [OF futex_wait(3), of "WSleep k"] awake [OF futex_wait(3)] in auto)
  next
    case (relocked t c cs)
    show ?thesis
      by (rule bind_inv_move [OF inv(2)]) (use relocked(2) leave [OF relocked(3)] in auto)
  next
    case (wake_waiter t c n cs u)
    show ?thesis
      by (rule bind_inv_move [OF inv(2)]) (use wake_waiter(2) leave [OF wake_waiter(3)] up [OF wake_waiter(4)] in auto)
  next
    case (wake_nobody t c n cs)
    show ?thesis
      by (rule bind_inv_move [OF inv(2)]) (use wake_nobody(2) leave [OF wake_nobody(3)] in auto)
  next
    case (requeue_some t c pl cs m u)
    have t: "\<forall>x\<in>set (fst (requeue_next c pl cs)). frame_bound (conds s) (arg s t) x"
      by (rule onward [OF requeue_some(3,4)])
    show ?thesis
    proof (rule bind_inv_move [OF inv(2)])
      show "conds s' = conds s" using requeue_some(2) by simp
      show "stack s' v = stack s v \<and> arg s' v = arg s v \<or> (\<forall>x\<in>set (stack s' v). frame_bound (conds s) (arg s' v) x)" for v
      proof (cases "v = t")
        case True
        with t requeue_some(2) show ?thesis by simp
      next
        case False
        with up [of c v] requeue_some(2) show ?thesis by (cases "asleep c (stack s v)") simp_all
      qed
    qed
  next
    case (requeue_nobody t c pl cs m)
    show ?thesis
      by (rule bind_inv_move [OF inv(2)]) (use requeue_nobody(2) onward [OF requeue_nobody(3,4)] in auto)
  next
    case (interrupted c u)
    show ?thesis
      by (rule bind_inv_move [OF inv(2)]) (use interrupted(2) up [OF interrupted(3)] in auto)
  qed (auto simp: outside_def begin_call_def fastsync_cond_wait_def fastsync_cond_signal_def
      fastsync_cond_signal_count_def fastsync_cond_broadcast_def
      intro!: bind_inv_move [OF inv(2)] split: sum.splits option.splits if_splits)
qed

section \<open>Reachable states\<close>

definition cond_all_inv :: "csys \<Rightarrow> bool" where
  "cond_all_inv s \<longleftrightarrow> cond_inv s \<and> tree_inv s \<and> bind_inv s"

lemma cond_inv_init: "csys_init s \<Longrightarrow> cond_all_inv s"
proof -
  assume init: "csys_init s"
  have "use_child (conds s c) = 0" for c
  proof -
    from init obtain c0 where "fastsync_cond_init (Some c0) = (0, Some (conds s c))" "use_child c0 = 0"
      unfolding csys_init_def by blast
    then have "conds s c = c0\<lparr>cseq := 0, cmutex := None\<rparr>" by (simp add: fastsync_cond_init_def)
    with \<open>use_child c0 = 0\<close> show ?thesis by simp
  qed
  with init mutex_inv_init show ?thesis
    by (simp add: cond_all_inv_def cond_inv_def locks_inv_def places_def tree_inv_def bind_inv_def csys_init_def msys_init_def)
qed

interpretation cond_safe: invariant_of csys_init cstep cond_all_inv
proof unfold_locales
  show "cond_all_inv s" if "csys_init s" for s using that by (rule cond_inv_init)
  show "cond_all_inv s'" if "cond_all_inv s" "cstep s e s'" for s e s'
    using that cond_inv_step [OF that(2)] tree_inv_step bind_inv_step bound_sleepers by (auto simp: cond_all_inv_def)
qed

end
