(* ===== verification/Cond_Seq.thy ===== *)
theory Cond_Seq imports Cond_Inv begin

unbundle bit_operations_syntax

text \<open>
  The sequence number of a condition variable. Signal and broadcast add to it atomically, the
  thread that comes back from the parent increments it with a read and a write, which may
  undo additions made in between. \<open>since\<close> says that it nevertheless never comes back to a
  value that a waiter has read, as long as fewer than 2^32 changes are made; \<open>seq_inv\<close> says,
  under the same bound, that nobody sleeps at a condition variable with a parent unless there
  is a thread that is going to release it.
\<close>

section \<open>Counting the changes\<close>

text \<open>The accesses that change \<open>seq\<close> of condition variable c, in a step and in a run.\<close>

fun changes_seq :: "cplace \<Rightarrow> bool" where
  "changes_seq (SAdd n) = True" | "changes_seq BAdd = True" | "changes_seq (WInc2 v) = True"
| "changes_seq pl = False"

fun bumps :: "cid \<Rightarrow> csys \<Rightarrow> cevent \<Rightarrow> nat" where
  "bumps c s (CInstr t) = (case stack s t of [] \<Rightarrow> 0
     | (d, pl) # cs \<Rightarrow> if d = c \<and> changes_seq pl then 1 else 0)"
| "bumps c s e = 0"

fun count_bumps :: "cid \<Rightarrow> csys \<Rightarrow> cevent list \<Rightarrow> nat" where
  "count_bumps c s [] = 0"
| "count_bumps c s (e # es) = bumps c s e + (case cnext s e of None \<Rightarrow> 0 | Some s' \<Rightarrow> count_bumps c s' es)"

lemma count_invariant_on:
  assumes step: "\<And>s e s' n. E e \<Longrightarrow> cond_all_inv s \<Longrightarrow> cstep s e s' \<Longrightarrow> Q n s \<Longrightarrow> Q (n + bumps c s e) s'"
  shows "\<forall>e\<in>set es. E e \<Longrightarrow> cond_all_inv s \<Longrightarrow> exec cnext s es = Some s' \<Longrightarrow> Q n s \<Longrightarrow>
    Q (n + count_bumps c s es) s'"
proof (induction es arbitrary: s n)
  case (Cons e es)
  then obtain s1 where s1: "cnext s e = Some s1" "exec cnext s1 es = Some s'"
    by (auto split: option.splits)
  then have c: "cstep s e s1" by (simp add: cnext_cstep)
  have e: "E e" "\<forall>e\<in>set es. E e" using Cons.prems(1) by simp_all
  from Cons.IH [OF e(2) cond_safe.inv_step [OF Cons.prems(2) c] s1(2) step [OF e(1) Cons.prems(2) c Cons.prems(4)]] s1(1)
  show ?case by (simp add: add.assoc)
qed simp

lemma count_invariant:
  assumes "\<And>s e s' n. cond_all_inv s \<Longrightarrow> cstep s e s' \<Longrightarrow> Q n s \<Longrightarrow> Q (n + bumps c s e) s'"
  shows "cond_all_inv s \<Longrightarrow> exec cnext s es = Some s' \<Longrightarrow> Q n s \<Longrightarrow> Q (n + count_bumps c s es) s'"
  by (rule count_invariant_on [where E = "\<lambda>_. True"]) (use assms in auto)

lemma count_bumps_append:
  "exec cnext s es = Some s' \<Longrightarrow> count_bumps c s (es @ ds) = count_bumps c s es + count_bumps c s' ds"
  by (induction es arbitrary: s) (auto split: option.splits)

lemma count_bumps_length: "count_bumps c s es \<le> length es"
proof (induction es arbitrary: s)
  case (Cons e es)
  have "bumps c s e \<le> 1" by (cases e) (auto split: list.splits)
  with Cons [of "the (cnext s e)"] show ?case by (auto split: option.splits)
qed simp

lemma cond_instr_seq:
  "cond_instr m pl r0 = Some (r, g) \<Longrightarrow> \<not> changes_seq pl \<Longrightarrow> cseq r = cseq r0"
  by (cases pl) (auto simp: Let_def split: if_splits option.splits)

section \<open>What a stack says of one condition variable\<close>

text \<open>The places the proofs below look at, when the innermost call is at condition variable c.\<close>

fun special :: "cplace \<Rightarrow> bool" where
  "special (WUnlock k) = True" | "special (WSleep k) = True" | "special WSeq = True"
| "special (WInc2 v) = True" | "special pl = False"

fun marks :: "cid \<Rightarrow> calls \<Rightarrow> cplace set" where
  "marks c [] = {}"
| "marks c ((d, pl) # cs) = (if d = c \<and> special pl then {pl} else {})"

text \<open>A thread that represents c and has not yet incremented \<open>seq\<close> (\<open>active\<close>), not yet released
  the sleepers (\<open>holding\<close>).\<close>

definition active :: "cid \<Rightarrow> calls \<Rightarrow> bool" where
  "active c cs \<longleftrightarrow> (c, WParent) \<in> set cs \<or> (\<exists>ds v. cs = (c, WInc) # ds \<or> cs = (c, WInc2 v) # ds)"

definition holding :: "cid \<Rightarrow> calls \<Rightarrow> bool" where
  "holding c cs \<longleftrightarrow> active c cs \<or> (\<exists>ds. cs = (c, WRequeue) # ds)"

lemma active_Nil [simp]: "\<not> active c []" "\<not> holding c []"
  by (simp_all add: active_def holding_def)

lemma marks_leave [simp]: "marks c (fst (leave r cs)) = {}"
  by (cases cs) auto

lemma marks_awakened [simp]: "marks c (awakened cs) = {}"
  by (cases cs) auto

lemma active_Cons: "active c ((d, pl) # cs) \<longleftrightarrow>
    (c, WParent) \<in> set cs \<or> d = c \<and> (pl = WParent \<or> pl = WInc \<or> (\<exists>v. pl = WInc2 v))"
  by (auto simp: active_def)

lemma holding_Cons: "holding c ((d, pl) # cs) \<longleftrightarrow> active c ((d, pl) # cs) \<or> d = c \<and> pl = WRequeue"
  by (auto simp: holding_def)

lemma active_leave: "path_ok P d cs \<Longrightarrow> (c, WParent) \<in> set cs \<Longrightarrow> active c (fst (leave r cs))"
  by (cases cs) (auto simp: active_Cons)

lemma marks_requeue_next [simp]: "marks c (fst (requeue_next d pl cs)) = {}"
  by (cases "(d, pl, cs)" rule: requeue_next.cases) auto

text \<open>How a thread comes to a marked place.\<close>

lemma marks_instr:
  assumes "cond_instr m pl r0 = Some (r, g)" and "x \<in> marks c (fst (proceed d g cs))"
  shows "d = c \<and> (pl = WChild \<and> x = WSeq \<and> (parent r0 = None \<or> use_child r0 \<noteq> 0) \<or>
    pl = WInc \<and> x = WInc2 (cseq r0))"
  using assms by (cases pl) (auto simp: Let_def split: if_splits option.splits)

lemma new_mark:
  assumes "cstep s e s'" and "x \<in> marks c (stack s' u)" and "x \<notin> marks c (stack s u)"
  shows "(\<exists>cs. stack s u = (c, WSeq) # cs \<and> e = Unlock u \<and> x = WUnlock (low_seq (conds s c))) \<or>
    (\<exists>cs k. stack s u = (c, WUnlock k) # cs \<and> e = FutexWait u \<and> low_seq (conds s c) = k \<and> x = WSleep k) \<or>
    (\<exists>cs. stack s u = (c, WChild) # cs \<and> e = CInstr u \<and> x = WSeq \<and>
       (parent (conds s c) = None \<or> use_child (conds s c) \<noteq> 0)) \<or>
    (\<exists>cs. stack s u = (c, WInc) # cs \<and> e = CInstr u \<and> x = WInc2 (cseq (conds s c)))"
  using assms(1)
proof cases
  case (cinstr t d pl cs r g)
  then have t: "u = t" using assms(2,3) by (auto split: if_splits)
  have "x \<in> marks c (fst (proceed d g cs))" using assms(2) cinstr(2) t by simp
  from marks_instr [OF cinstr(4) this] cinstr(1,3) t show ?thesis by auto
qed (use assms(2,3) in \<open>auto simp: outside_def begin_call_def fastsync_cond_wait_def fastsync_cond_signal_def
    fastsync_cond_signal_count_def fastsync_cond_broadcast_def split: if_splits sum.splits option.splits\<close>)

text \<open>How \<open>seq\<close> changes.\<close>

lemma step_parent: "cstep s e s' \<Longrightarrow> parent (conds s' c) = parent (conds s c)"
  by (induction rule: cstep.induct) (auto dest: cond_instr_parent)

lemma step_seq:
  assumes "cstep s e s'"
  shows "bumps c s e = 0 \<and> cseq (conds s' c) = cseq (conds s c) \<or>
    bumps c s e = 1 \<and> (\<exists>t pl cs. e = CInstr t \<and> stack s t = (c, pl) # cs \<and>
      (cseq (conds s' c) = cseq (conds s c) + 1 \<and> \<not> special pl \<or> (\<exists>v. pl = WInc2 v \<and> cseq (conds s' c) = v + 1)))"
  using assms
proof cases
  case (cinstr t d pl cs r g)
  show ?thesis
  proof (cases "d = c \<and> changes_seq pl")
    case True
    with cinstr show ?thesis by (cases pl) auto
  next
    case False
    with cinstr cond_instr_seq [OF cinstr(4)] show ?thesis by auto
  qed
qed auto

section \<open>A value that was read does not come back\<close>

definition since :: "cid \<Rightarrow> u64 \<Rightarrow> nat \<Rightarrow> csys \<Rightarrow> bool" where
  "since c K n s \<longleftrightarrow> (\<exists>m\<le>n. cseq (conds s c) = K + of_nat m \<and> (0 < n \<longrightarrow> 0 < m)) \<and>
     (\<forall>u v. WInc2 v \<in> marks c (stack s u) \<longrightarrow> (\<exists>j\<le>n. v = K + of_nat j))"

lemma marks_head: "x \<in> marks c cs \<longleftrightarrow> (\<exists>ds. cs = (c, x) # ds \<and> special x)"
  by (cases cs) (auto split: if_splits)

lemma sinceI:
  assumes "m \<le> n" and "cseq (conds s c) = K + of_nat m" and "0 < n \<longrightarrow> 0 < m"
    and "\<And>u v. WInc2 v \<in> marks c (stack s u) \<Longrightarrow> \<exists>j\<le>n. v = K + of_nat j"
  shows "since c K n s"
  unfolding since_def using assms by blast

lemma since_step:
  assumes "cstep s e s'" and since: "since c K n s"
  shows "since c K (n + bumps c s e) s'"
proof -
  obtain m where m: "m \<le> n" "cseq (conds s c) = K + of_nat m" "0 < n \<longrightarrow> 0 < m"
    using since by (auto simp: since_def)
  have new: "\<exists>j\<le>n. v = K + of_nat j" if "WInc2 v \<in> marks c (stack s' u)" for u v
  proof (cases "WInc2 v \<in> marks c (stack s u)")
    case True
    with since show ?thesis unfolding since_def by blast
  next
    case False
    from new_mark [OF assms(1) that False] m show ?thesis by auto
  qed
  then have old: "\<exists>j\<le>n + bumps c s e. v = K + of_nat j" if "WInc2 v \<in> marks c (stack s' u)" for u v
    using that by (meson trans_le_add1)
  from step_seq [OF assms(1), of c] show ?thesis
  proof (elim disjE conjE exE)
    assume "bumps c s e = 0" "cseq (conds s' c) = cseq (conds s c)"
    with m show ?thesis by (intro sinceI [of m, OF _ _ _ old]) simp_all
  next
    assume "bumps c s e = 1" "cseq (conds s' c) = cseq (conds s c) + 1"
    with m show ?thesis by (intro sinceI [of "Suc m", OF _ _ _ old]) simp_all
  next
    fix t pl cs v
    assume b: "bumps c s e = 1" "cseq (conds s' c) = v + 1" and "stack s t = (c, pl) # cs" "pl = WInc2 v"
    then have "WInc2 v \<in> marks c (stack s t)" by simp
    with since obtain j where "j \<le> n" "v = K + of_nat j" unfolding since_def by blast
    with b show ?thesis by (intro sinceI [of "Suc j", OF _ _ _ old]) simp_all
  qed
qed

lemma low_add: "(ucast (K + of_nat m :: u64) :: u32) = ucast K + of_nat m"
proof -
  have "K + of_nat m = word_of_int (uint K + int m)" by simp
  then have "(ucast (K + of_nat m) :: u32) = ucast (word_of_int (uint K + int m) :: u64)" by (simp only:)
  also have "\<dots> = word_of_int (uint K + int m)" by (rule ucast_down_wi) (simp add: is_down)
  also have "\<dots> = ucast K + of_nat m" by simp
  finally show ?thesis .
qed

lemma since_low:
  assumes "since c K n s" and "0 < n" and "n < 2 ^ 32"
  shows "low_seq (conds s c) \<noteq> ucast K"
proof -
  obtain m where m: "m \<le> n" "cseq (conds s c) = K + of_nat m" "0 < m"
    using assms(1,2) by (auto simp: since_def)
  have "\<not> 2 ^ 32 dvd m" using m(1,3) assms(3) by (auto dest: dvd_imp_le)
  then have "(of_nat m :: u32) \<noteq> 0" by (simp add: word_of_nat_eq_0_iff)
  then show ?thesis by (simp add: low_seq_def m(2) low_add)
qed

lemma since_start:
  assumes inv: "cond_all_inv s" and st: "stack s t = (c, WSeq) # cs"
  shows "since c (cseq (conds s c)) 0 s"
proof -
  have "WInc2 v \<notin> marks c (stack s u)" for u v
  proof
    assume "WInc2 v \<in> marks c (stack s u)"
    then obtain ds where u: "stack s u = (c, WInc2 v) # ds" by (auto simp: marks_head)
    with inv st one_guarded [OF _ _ st _ u] show False by (auto simp: cond_all_inv_def)
  qed
  then show ?thesis by (simp add: since_def)
qed

section \<open>Nobody sleeps at a child without a thread at the parent\<close>

definition seq_inv :: "cid \<Rightarrow> nat \<Rightarrow> csys \<Rightarrow> bool" where
  "seq_inv c n s \<longleftrightarrow> unat (cseq (conds s c)) \<le> n \<and>
     (\<forall>t v. WInc2 v \<in> marks c (stack s t) \<longrightarrow> unat v \<le> unat (cseq (conds s c))) \<and>
     (\<forall>u k. WUnlock k \<in> marks c (stack s u) \<longrightarrow> unat k \<le> unat (cseq (conds s c)) \<and>
        (\<forall>t v. WInc2 v \<in> marks c (stack s t) \<longrightarrow> unat k \<le> unat v) \<and>
        (unat k < unat (cseq (conds s c)) \<or> (\<exists>t. active c (stack s t)))) \<and>
     (\<forall>u k. WSleep k \<in> marks c (stack s u) \<longrightarrow> (\<exists>t. holding c (stack s t))) \<and>
     (\<forall>u. WSeq \<in> marks c (stack s u) \<longrightarrow> (\<exists>t. active c (stack s t)))"

text \<open>Who stops to be active or to hold.\<close>

lemma active_step:
  assumes "cstep s e s'" and inv: "cond_inv s" and act: "active c (stack s u)"
  shows "active c (stack s' u) \<or> (\<exists>v cs. e = CInstr u \<and> stack s u = (c, WInc2 v) # cs)"
proof -
  have leave: "active c (fst (leave r cs))"
    if "stack s u = (d, pl) # cs" "pl \<noteq> WInc" "\<forall>v. pl \<noteq> WInc2 v" for r d pl cs
  proof -
    note p = stack_place [OF inv that(1)]
    have "pl \<noteq> WParent" using p(2) by auto
    then have "(c, WParent) \<in> set cs" using act that by (simp add: active_Cons)
    with active_leave [OF p(3)] show ?thesis by blast
  qed
  from assms(1) show ?thesis
  proof cases
    case (cinstr t d pl cs r g)
    show ?thesis
    proof (cases "u = t")
      case True
      with cinstr act leave [of d pl cs] show ?thesis
        by (cases pl) (auto simp: Let_def active_Cons split: if_splits option.splits)
    qed (use cinstr act in simp)
  next
    case (requeue_some t d pl cs m w)
    then show ?thesis
      using act leave [of d pl cs] by (auto simp: asleep_iff active_Cons)
  next
    case (requeue_nobody t d pl cs m)
    then show ?thesis
      using act leave [of d pl cs] by (auto simp: active_Cons)
  qed (use act leave in \<open>auto simp: asleep_iff active_Cons outside_def begin_call_def split: sum.splits\<close>)
qed

lemma holding_step:
  assumes "cstep s e s'" and inv: "cond_inv s" and hold: "holding c (stack s u)"
  shows "holding c (stack s' u) \<or> (\<exists>w cs. e = FutexRequeue u w \<and> stack s u = (c, WRequeue) # cs)"
proof (cases "active c (stack s u)")
  case True
  from active_step [OF assms(1) inv True] show ?thesis
  proof
    assume "\<exists>v cs. e = CInstr u \<and> stack s u = (c, WInc2 v) # cs"
    with assms(1) show ?thesis by (auto simp: cstep.simps holding_Cons)
  qed (simp add: holding_def)
next
  case False
  then obtain ds where "stack s u = (c, WRequeue) # ds" using hold by (auto simp: holding_def)
  with assms(1) show ?thesis
    by cases (auto simp: holding_def outside_def begin_call_def asleep_iff split: sum.splits if_splits)
qed

lemma low_small: "unat (cseq r) < 2 ^ 32 \<Longrightarrow> unat (low_seq r) = unat (cseq r)"
  by (simp add: low_seq_def unsigned_ucast_eq take_bit_nat_eq_self)

lemma seq_invD:
  assumes "seq_inv c n s"
  shows "unat (cseq (conds s c)) \<le> n"
    and "WInc2 v \<in> marks c (stack s t) \<Longrightarrow> unat v \<le> unat (cseq (conds s c))"
    and "WUnlock k \<in> marks c (stack s u) \<Longrightarrow> unat k \<le> unat (cseq (conds s c))"
    and "WUnlock k \<in> marks c (stack s u) \<Longrightarrow> WInc2 v \<in> marks c (stack s t) \<Longrightarrow> unat k \<le> unat v"
    and "WUnlock k \<in> marks c (stack s u) \<Longrightarrow> unat k < unat (cseq (conds s c)) \<or> (\<exists>t. active c (stack s t))"
    and "WSleep k \<in> marks c (stack s u) \<Longrightarrow> \<exists>t. holding c (stack s t)"
    and "WSeq \<in> marks c (stack s u) \<Longrightarrow> \<exists>t. active c (stack s t)"
  using assms unfolding seq_inv_def by blast+

text \<open>Only one thread is at a marked place that needs the mutex.\<close>

lemma one_marked:
  assumes "cond_inv s" "bind_inv s" and "x \<in> marks c (stack s t)" "guarded x" and "stack s u = (c, y) # ds" "guarded y"
  shows "t = u"
  using one_guarded [OF assms(1,2) _ assms(4,5,6)] assms(3) by (auto simp: marks_head)

text \<open>A thread that finds \<open>use_child\<close> set has an active representative above it.\<close>

lemma child_active:
  assumes inv: "cond_inv s" "tree_inv s" "bind_inv s" and st: "stack s u = (c, WChild) # cs" and "use_child (conds s c) \<noteq> 0"
  shows "\<exists>t. active c (stack s t)"
proof -
  obtain t where t: "c \<in> set (reps (stack s t))"
    using inv(2) assms(5) unfolding tree_inv_def by metis
  have mem: "(c, WParent) \<in> set cs" if "path_ok P d cs" "c \<in> set (reps cs)" for P d cs
    using that by (induction P d cs rule: path_ok.induct) (auto split: if_splits)
  obtain d pl ds where td: "stack s t = (d, pl) # ds" using t by (cases "stack s t") auto
  note path = stack_place(2,3) [OF inv(1) td]
  show ?thesis
  proof (cases "c \<in> set (reps ds)")
    case True
    with mem [OF path(2)] td have "active c (stack s t)" by (simp add: active_Cons)
    then show ?thesis ..
  next
    case False
    with t td have pl: "standing pl" "d = c" by (auto split: if_splits)
    with path(1) have "guarded pl" by (cases pl) auto
    with one_guarded [OF inv(1,3) st, of t pl ds] pl st td show ?thesis by auto
  qed
qed

lemma requeue_empties:
  assumes "cstep s (FutexRequeue t w) s'" and "stack s t = (c, pl) # cs" and inv: "cond_inv s"
  shows "WSleep k \<notin> marks c (stack s' u)"
  using assms(1)
proof cases
  case (requeue_some d pl' ds m v)
  with assms(2) have "d = c" by simp
  moreover have "fst (requeue_next c pl' ds) \<noteq> (c, WSleep k) # es" for es
    using requeue_some(4) by (cases ds) auto
  ultimately show ?thesis
    using requeue_some by (cases "asleep c (stack s u)") (auto simp: marks_head asleep_iff split: if_splits)
next
  case (requeue_nobody d pl' ds m)
  with assms(2) asleep_out(2) [OF inv, of c u] have "\<not> asleep c (stack s u)" by auto
  moreover have "fst (requeue_next d pl' ds) \<noteq> (c, WSleep k) # es" for es
    using requeue_nobody(4) by (cases ds) auto
  ultimately show ?thesis using requeue_nobody by (auto simp: marks_head asleep_iff split: if_splits)
qed

lemma seq_invI:
  assumes "unat (cseq (conds s c)) \<le> n"
    and "\<And>t v. WInc2 v \<in> marks c (stack s t) \<Longrightarrow> unat v \<le> unat (cseq (conds s c))"
    and "\<And>u k. WUnlock k \<in> marks c (stack s u) \<Longrightarrow> unat k \<le> unat (cseq (conds s c))"
    and "\<And>u k t v. WUnlock k \<in> marks c (stack s u) \<Longrightarrow> WInc2 v \<in> marks c (stack s t) \<Longrightarrow> unat k \<le> unat v"
    and "\<And>u k. WUnlock k \<in> marks c (stack s u) \<Longrightarrow> unat k < unat (cseq (conds s c)) \<or> (\<exists>t. active c (stack s t))"
    and "\<And>u k. WSleep k \<in> marks c (stack s u) \<Longrightarrow> \<exists>t. holding c (stack s t)"
    and "\<And>u. WSeq \<in> marks c (stack s u) \<Longrightarrow> \<exists>t. active c (stack s t)"
  shows "seq_inv c n s"
  unfolding seq_inv_def using assms by blast

text \<open>The write of the incremented number: the waiters are behind it, and no thread is at a
  place where it would read the number or has read it for an increment.\<close>

lemma seq_inv_write:
  assumes inv: "cond_all_inv s" and old: "seq_inv c n s" and small: "Suc n < 2 ^ 32"
    and step: "cstep s (CInstr t) s'" and st: "stack s t = (c, WInc2 v) # cs"
  shows "seq_inv c (Suc n) s'"
proof -
  from step st have seq: "cseq (conds s' c) = v + 1" and next_t: "stack s' t = (c, WRequeue) # cs"
    and rest: "\<And>u. u \<noteq> t \<Longrightarrow> stack s' u = stack s u"
    by (auto simp: cstep.simps)
  have v: "WInc2 v \<in> marks c (stack s t)" by (simp add: st)
  note bounds = seq_invD(1) [OF old] seq_invD(2) [OF old v]
  have "unat v < 2 ^ 64 - 1" using bounds small by simp
  then have inc: "unat (v + 1) = Suc (unat v)" by (simp add: unat_word_ariths)
  have marks: "marks c (stack s' u) \<subseteq> marks c (stack s u)" for u
    by (cases "u = t") (simp_all add: next_t rest)
  have alone: "x \<notin> marks c (stack s' u)" if "guarded x" for x u
  proof
    assume x: "x \<in> marks c (stack s' u)"
    with next_t have "u \<noteq> t" by auto
    moreover have "u = t"
      by (rule one_marked [OF _ _ _ that st]) (use inv x marks in \<open>auto simp: cond_all_inv_def\<close>)
    ultimately show False by simp
  qed
  have "holding c (stack s' t)" by (simp add: next_t holding_Cons)
  moreover have "unat k \<le> unat v" if "WUnlock k \<in> marks c (stack s' u)" for k u
    using seq_invD(4) [OF old _ v] marks that by blast
  ultimately show ?thesis
    using bounds alone [of WSeq] alone [of "WInc2 _"] by (intro seq_invI) (auto simp: seq inc le_SucI less_Suc_eq_le)
qed

lemma seq_inv_step:
  assumes inv: "cond_all_inv s" and step: "cstep s e s'" and old: "seq_inv c n s"
    and par: "parent (conds s c) \<noteq> None" and small: "n + bumps c s e < 2 ^ 32"
  shows "seq_inv c (n + bumps c s e) s'"
proof (cases "\<exists>t v cs. e = CInstr t \<and> stack s t = (c, WInc2 v) # cs")
  case True
  then obtain t v cs where w: "e = CInstr t" "stack s t = (c, WInc2 v) # cs" by blast
  with seq_inv_write [OF inv old, of t s' v cs] step small show ?thesis by simp
next
  case False
  note ci = inv [unfolded cond_all_inv_def, THEN conjunct1]
    and ti = inv [unfolded cond_all_inv_def, THEN conjunct2, THEN conjunct1]
    and bi = inv [unfolded cond_all_inv_def, THEN conjunct2, THEN conjunct2]
  let ?q = "unat (cseq (conds s c))" and ?q' = "unat (cseq (conds s' c))"
  have q: "?q \<le> n" by (rule seq_invD(1) [OF old])
  have q': "?q' = ?q + bumps c s e"
    using step_seq [OF step, of c] False q small by (auto simp: unat_word_ariths)
  have low: "unat (low_seq (conds s c)) = ?q" using q small by (intro low_small) simp
  have act: "\<exists>t. active c (stack s' t)" if "\<exists>t. active c (stack s t)"
    using that active_step [OF step ci] False by metis
  have inc: "unat v \<le> ?q" if v: "WInc2 v \<in> marks c (stack s' t)" for t v
    using new_mark [OF step v] seq_invD(2) [OF old] by (cases "WInc2 v \<in> marks c (stack s t)") auto
  have no_inc: "WInc2 v \<notin> marks c (stack s' t)" if st: "stack s u = (c, WSeq) # cs" and "e = Unlock u" for t v u cs
  proof
    assume v: "WInc2 v \<in> marks c (stack s' t)"
    with new_mark [OF step v] that(2) have "WInc2 v \<in> marks c (stack s t)" by auto
    from one_marked [OF ci bi this _ st] st this show False by simp
  qed
  show ?thesis
  proof (rule seq_invI)
    show "?q' \<le> n + bumps c s e" using q q' by simp
    show "unat v \<le> ?q'" if "WInc2 v \<in> marks c (stack s' t)" for t v using inc [OF that] q' by simp
    fix u k
    { assume k: "WUnlock k \<in> marks c (stack s' u)"
      show "unat k \<le> ?q'"
        using new_mark [OF step k] seq_invD(3) [OF old] low q' by (cases "WUnlock k \<in> marks c (stack s u)") (auto intro: trans_le_add1)
      show "unat k < ?q' \<or> (\<exists>t. active c (stack s' t))"
      proof (cases "WUnlock k \<in> marks c (stack s u)")
        case True
        with seq_invD(5) [OF old this] act q' show ?thesis by auto
      next
        case False
        with new_mark [OF step k] obtain cs where "stack s u = (c, WSeq) # cs" by auto
        with act seq_invD(7) [OF old, of u] show ?thesis by simp
      qed
      show "unat k \<le> unat v" if v: "WInc2 v \<in> marks c (stack s' t)" for t v
      proof (cases "WUnlock k \<in> marks c (stack s u)")
        case True
        with new_mark [OF step v] seq_invD(3,4) [OF old True] show ?thesis by (cases "WInc2 v \<in> marks c (stack s t)") auto
      next
        case False
        with new_mark [OF step k] no_inc v show ?thesis by auto
      qed }
    show "\<exists>t. active c (stack s' t)" if x: "WSeq \<in> marks c (stack s' u)" for u
    proof (cases "WSeq \<in> marks c (stack s u)")
      case False
      with new_mark [OF step x] par obtain cs where "stack s u = (c, WChild) # cs" "use_child (conds s c) \<noteq> 0" by auto
      from child_active [OF ci ti bi this] act show ?thesis by blast
    qed (use seq_invD(7) [OF old] act in blast)
    show "\<exists>t. holding c (stack s' t)" if x: "WSleep k \<in> marks c (stack s' u)" for u k
    proof (cases "WSleep k \<in> marks c (stack s u)")
      case True
      with seq_invD(6) [OF old] obtain t where t: "holding c (stack s t)" by blast
      from holding_step [OF step ci t] requeue_empties [OF _ _ ci] step x show ?thesis by blast
    next
      case False
      obtain cs where st: "stack s u = (c, WUnlock k) # cs" "low_seq (conds s c) = k"
        using new_mark [OF step x False] by (elim disjE exE conjE) simp_all
      then have k: "WUnlock k \<in> marks c (stack s u)" by simp
      have "\<not> unat k < ?q" using st(2) low by simp
      with seq_invD(5) [OF old k] have "\<exists>t. active c (stack s t)" by blast
      with act show ?thesis unfolding holding_def by blast
    qed
  qed
qed

lemma represented:
  assumes "csys_init s0" and "exec cnext s0 es = Some s" and "count_bumps c s0 es < 2 ^ 32"
    and "parent (conds s c) \<noteq> None" and "asleep c (stack s u)"
  shows "\<exists>t < cthreads s. holding c (stack s t)"
proof -
  define Q where "Q n s \<longleftrightarrow> (parent (conds s c) \<noteq> None \<longrightarrow> n < 2 ^ 32 \<longrightarrow> seq_inv c n s)" for n s
  have step: "Q (n + bumps c s e) s'" if "cond_all_inv s" "cstep s e s'" "Q n s" for n s e s'
    using that seq_inv_step [OF that(1,2), of c n] step_parent [OF that(2), of c] by (auto simp: Q_def)
  have "cseq (conds s0 c) = 0" "stack s0 t = []" for t
    using assms(1) by (auto simp: csys_init_def fastsync_cond_init_def) (metis fastsync_cond.select_convs(3)
      fastsync_cond.surjective fastsync_cond.update_convs(2,3))
  then have start: "Q 0 s0" by (simp add: Q_def seq_inv_def)
  note inv0 = cond_safe.inv_start [OF assms(1)]
  from count_invariant [of Q c, OF step inv0 assms(2) start] assms(3,4)
  have inv: "seq_inv c (count_bumps c s0 es) s" by (simp add: Q_def)
  obtain k ds where "stack s u = (c, WSleep k) # ds" using assms(5) by (auto simp: asleep_iff)
  with seq_invD(6) [OF inv, of k u] obtain t where t: "holding c (stack s t)" by auto
  then obtain d pl cs where st: "stack s t = (d, pl) # cs" by (cases "stack s t") auto
  have "reach csys_init cstep s0" by (rule reach_start, rule assms(1))
  then have "reach csys_init cstep s" by (rule cond_run.exec_reach [OF _ assms(2)])
  from stack_place(1) [OF _ st] t cond_safe.reach_inv [OF this] show ?thesis by (auto simp: cond_all_inv_def)
qed

end
