(* ===== verification/Cond_Progress.thy ===== *)
theory Cond_Progress imports Cond_Seq Mutex_Props begin

text \<open>
  The threads inside the code of the condition variables come to rest, however they are
  scheduled and also when signals interrupt their sleep or clients unlock mutexes they hold.
  Every step of a call lowers what the
  calls have still to do (\<open>calls_rank\<close>): to climb the tree, to sleep and wake, and to release
  the nodes on the way back; a step inside lock or unlock leaves this unchanged and lowers the
  measure of its mutex (\<open>work\<close>). The tree must not go up for ever: some height falls from
  every node to its parent.
\<close>

section \<open>What the calls have still to do\<close>

fun place_work :: "nat \<Rightarrow> cplace \<Rightarrow> nat" where
  "place_work h WMutex = 8 + 9 * h"
| "place_work h WMutex2 = 7 + 9 * h"
| "place_work h WCas = 6 + 9 * h"
| "place_work h WChild = 5 + 9 * h"
| "place_work h WSeq = 4"
| "place_work h (WUnlock k) = 3"
| "place_work h (WSleep k) = 2"
| "place_work h WInc = 4"
| "place_work h (WInc2 v) = 3"
| "place_work h WRequeue = 2"
| "place_work h (SAdd n) = 2"
| "place_work h BAdd = 3"
| "place_work h BMutex = 2"
| "place_work h pl = 1"

fun calls_rank :: "(cid \<Rightarrow> nat) \<Rightarrow> calls \<Rightarrow> nat" where
  "calls_rank h [] = 0"
| "calls_rank h ((c, pl) # cs) = 5 * length cs + place_work (h c) pl"

text \<open>How many threads may still unlock a mutex.\<close>

definition to_unlock :: "msys \<Rightarrow> nat" where
  "to_unlock l = (\<Sum>t<threads l. if in_unlock (pcs l t) then 0 else 1)"

definition cond_work :: "(cid \<Rightarrow> nat) \<Rightarrow> csys \<Rightarrow> nat \<times> nat \<times> nat \<times> nat \<times> nat" where
  "cond_work h s = (\<Sum>t<cthreads s. calls_rank h (stack s t), \<Sum>m<nmut s. to_unlock (locks s m),
     \<Sum>m<nmut s. fst (work (locks s m)), \<Sum>m<nmut s. fst (snd (work (locks s m))),
     \<Sum>m<nmut s. snd (snd (work (locks s m))))"

abbreviation work_less :: "((nat \<times> nat \<times> nat \<times> nat \<times> nat) \<times> nat \<times> nat \<times> nat \<times> nat \<times> nat) set" where
  "work_less \<equiv> less_than <*lex*> less_than <*lex*> less_than <*lex*> less_than <*lex*> less_than"

definition tree_height :: "(cid \<Rightarrow> nat) \<Rightarrow> csys \<Rightarrow> bool" where
  "tree_height h s \<longleftrightarrow> (\<forall>c p. parent (conds s c) = Some p \<longrightarrow> h p < h c)"

text \<open>Steps inside the code: everything but calls of the clients and interrupted waits. The waits
  for a condition variable may as well be interrupted, and the clients unlock (\<open>within\<close>).\<close>

fun in_code :: "cevent \<Rightarrow> bool" where
  "in_code (OnMutex m e) = internal e"
| "in_code (CallWait t p m) = False" | "in_code (CallSignal t p) = False"
| "in_code (CallSignalCount t c) = False" | "in_code (CallBroadcast t p) = False"
| "in_code (Interrupted t) = False"
| "in_code e = True"

definition within :: "cevent \<Rightarrow> bool" where
  "within e \<longleftrightarrow> in_code e \<or> (\<exists>t. e = Interrupted t) \<or> (\<exists>m t. e = OnMutex m (CallUnlock t This))"

lemma calls_rank_leave: "calls_rank h (fst (leave r cs)) < calls_rank h ((c, pl) # cs)"
proof -
  have "0 < place_work n pl" for n by (cases pl) auto
  then show ?thesis by (cases cs) (auto intro: add_pos_pos)
qed

lemma calls_rank_requeue_next:
  "pl = WRequeue \<or> pl = BRequeue \<Longrightarrow> calls_rank h (fst (requeue_next c pl cs)) < calls_rank h ((c, pl) # cs)"
  using calls_rank_leave [of h 0 cs c pl] by auto

lemma calls_rank_awakened: "asleep c cs \<Longrightarrow> calls_rank h (awakened cs) \<le> calls_rank h cs"
  by (auto simp: asleep_iff)

lemma calls_rank_proceed:
  assumes "cond_instr m pl r0 = Some (r, g)" and "\<And>p. parent r0 = Some p \<Longrightarrow> h p < h c"
  shows "calls_rank h (fst (proceed c g cs)) < calls_rank h ((c, pl) # cs)"
proof -
  note leave = calls_rank_leave [of h _ cs c pl]
  show ?thesis
  proof (cases "\<exists>p. g = Into p")
    case True
    then obtain p where g: "g = Into p" by blast
    with assms(1) have "pl = WChild" and "parent r0 = Some p"
      by (cases pl; auto simp: Let_def split: if_splits option.splits)+
    with assms(2) [of p] g show ?thesis by simp
  qed (use assms(1) leave in \<open>cases pl; auto simp: Let_def split: if_splits option.splits\<close>)
qed

section \<open>One step\<close>

lemma sum_moved:
  fixes g :: "'a \<Rightarrow> nat" and t n :: nat
  assumes "t < n" and "g (f' t) < g (f t)" and "\<And>u. u \<noteq> t \<Longrightarrow> g (f' u) \<le> g (f u)"
  shows "(\<Sum>u<n. g (f' u)) < (\<Sum>u<n. g (f u))"
proof (rule sum_strict_mono_ex1)
  show "\<forall>u\<in>{..<n}. g (f' u) \<le> g (f u)" using assms(2,3) by (metis less_imp_le)
qed (use assms in auto)

lemma cond_static: "cstep s e s' \<Longrightarrow> cthreads s' = cthreads s \<and> nmut s' = nmut s"
  by (induction rule: cstep.induct) (auto simp: Cond.wake_waiter_def requeue_waiters_def signal_done_def)

lemma sum_locks:
  fixes g :: "msys \<Rightarrow> nat"
  assumes "m < nmut s"
  shows "(\<Sum>k<nmut s. g (((locks s)(m := l)) k)) + g (locks s m) = (\<Sum>k<nmut s. g (locks s k)) + g l"
  using sum_upd [of "{..<nmut s}" m g "locks s" l] assms by simp

lemma to_unlock_internal:
  assumes "mstep l e l'" and "internal e"
  shows "to_unlock l' \<le> to_unlock l"
proof -
  have "in_unlock (pcs l t) \<longrightarrow> in_unlock (pcs l' t)" for t
    using mstep_place [OF assms(1), of t "WUnlock 0"] assms(2) by (cases e) auto
  then show ?thesis
    by (auto simp: to_unlock_def mstep_threads [OF assms(1)] intro!: sum_mono)
qed

lemma to_unlock_call:
  assumes "mstep l (CallUnlock t This) l'"
  shows "to_unlock l' < to_unlock l"
proof -
  from assms have l': "l' = enter l t (Inr URead)" and t: "t < threads l" "pcs l t = Held"
    by (auto simp: mstep.simps fastsync_mutex_unlock_def)
  show ?thesis
    using sum_upd [of "{..<threads l}" t "\<lambda>pc. if in_unlock pc then 0 else (1 :: nat)" "pcs l" URead] t
    by (simp add: to_unlock_def l' enter_def)
qed

lemma on_mutex_work:
  assumes inv: "cond_inv s" and m: "m < nmut s" and step: "mstep (locks s m) e l"
    and e: "internal e \<or> (\<exists>t. e = CallUnlock t This)"
  shows "(cond_work h (s\<lparr>locks := (locks s)(m := l)\<rparr>), cond_work h s) \<in> work_less"
proof -
  note sums = sum_locks [OF m, of to_unlock l] sum_locks [OF m, of "\<lambda>l. fst (work l)" l]
    sum_locks [OF m, of "\<lambda>l. fst (snd (work l))" l] sum_locks [OF m, of "\<lambda>l. snd (snd (work l))" l]
  show ?thesis
  proof (cases "internal e")
    case True
    obtain a b c a' b' c' where w: "work (locks s m) = (a, b, c)" "work l = (a', b', c')"
      by (metis prod_cases3)
    have "(work l, work (locks s m)) \<in> less_than <*lex*> less_than <*lex*> less_than"
      using cond_mutex(1) [OF inv, of m] step True by (auto simp: mutex_inv_def intro: internal_work)
    with sums to_unlock_internal [OF step True] show ?thesis by (auto simp: cond_work_def w)
  next
    case False
    with e obtain t where t: "e = CallUnlock t This" by blast
    from to_unlock_call [OF step [unfolded t]] sums(1) show ?thesis by (simp add: cond_work_def)
  qed
qed

lemma own_calls_rank:
  assumes inv: "cond_inv s" and h: "tree_height h s" and step: "cstep s e s'" and e: "within e"
    and no: "\<And>m f. e \<noteq> OnMutex m f"
  shows "(\<Sum>t<cthreads s. calls_rank h (stack s' t)) < (\<Sum>t<cthreads s. calls_rank h (stack s t))"
proof -
  have moved: ?thesis if "stack s t = (c, pl) # cs" "calls_rank h (stack s' t) < calls_rank h (stack s t)"
      "\<And>u. u \<noteq> t \<Longrightarrow> calls_rank h (stack s' u) \<le> calls_rank h (stack s u)" for t c pl cs
    by (rule sum_moved [of t]) (use that stack_place(1) [OF inv that(1)] in auto)
  from step show ?thesis
  proof cases
    case (cinstr t c pl cs r g)
    have "calls_rank h (fst (proceed c g cs)) < calls_rank h ((c, pl) # cs)"
      using h calls_rank_proceed [OF cinstr(4)] by (simp add: tree_height_def)
    with moved [OF cinstr(3)] cinstr(2,3) show ?thesis by simp
  next
    case (unlock t c cs pc)
    with moved [OF unlock(3)] show ?thesis by simp
  next
    case (futex_wait t c k cs)
    with moved [OF futex_wait(3)] show ?thesis by (simp add: Cond.wake_waiter_def)
  next
    case (relocked t c cs)
    with moved [OF relocked(3)] calls_rank_leave [of h 0 cs c WLock] show ?thesis by simp
  next
    case (wake_waiter t c n cs u)
    have "t \<noteq> u" using wake_waiter by auto
    with moved [OF wake_waiter(3)] calls_rank_leave [of h 0 cs c "SWake n"] calls_rank_awakened [OF wake_waiter(4)] wake_waiter
    show ?thesis by (simp add: signal_done_def Cond.wake_waiter_def)
  next
    case (wake_nobody t c n cs)
    with moved [OF wake_nobody(3)] calls_rank_leave [of h 0 cs c "SWake n"] show ?thesis
      by (simp add: signal_done_def)
  next
    case (requeue_some t c pl cs m u)
    with moved [OF requeue_some(3)] calls_rank_requeue_next [OF requeue_some(4)] calls_rank_awakened
    show ?thesis by (simp add: requeue_waiters_def)
  next
    case (requeue_nobody t c pl cs m)
    with moved [OF requeue_nobody(3)] calls_rank_requeue_next [OF requeue_nobody(4)] show ?thesis by simp
  next
    case (interrupted c u)
    then obtain k cs where st: "stack s u = (c, WSleep k) # cs" by (auto simp: asleep_iff)
    with moved [OF st] interrupted show ?thesis by (simp add: Cond.wake_waiter_def)
  qed (use e no in \<open>auto simp: within_def\<close>)
qed

lemma cond_work_step:
  assumes "cond_all_inv s" and "tree_height h s" and "cstep s e s'" and "within e"
  shows "(cond_work h s', cond_work h s) \<in> work_less"
proof (cases "\<exists>m f. e = OnMutex m f")
  case True
  then obtain m f where e: "e = OnMutex m f" by blast
  from assms(3)[unfolded e] show ?thesis
    by cases (use assms on_mutex_work e in \<open>auto simp: cond_all_inv_def within_def\<close>)
next
  case False
  with own_calls_rank [OF _ assms(2-4)] assms(1) cond_static [OF assms(3)] show ?thesis
    by (auto simp: cond_work_def cond_all_inv_def)
qed

lemma tree_height_step: "tree_height h s \<Longrightarrow> cstep s e s' \<Longrightarrow> tree_height h s'"
  unfolding tree_height_def by (metis step_parent)

interpretation cond_rest: descends "\<lambda>s. csys_init s \<and> tree_height h s" cstep
  "\<lambda>s. cond_all_inv s \<and> tree_height h s" within
  work_less "cond_work h" for h :: "cid \<Rightarrow> nat"
  by unfold_locales
    (auto intro: cond_safe.inv_start cond_safe.inv_step tree_height_step cond_work_step)

section \<open>The states in which nothing moves\<close>

lemma stuck_calm:
  assumes inv: "cond_inv s" and stuck: "\<not> (\<exists>e s'. in_code e \<and> cstep s e s')"
  shows "pcs (locks s m) t = Out \<or> pcs (locks s m) t = Held \<or> pcs (locks s m) t = LSleep"
proof (cases "m < nmut s")
  case True
  have "\<not> (\<exists>e l. internal e \<and> mstep (locks s m) e l)"
  proof
    assume "\<exists>e l. internal e \<and> mstep (locks s m) e l"
    then obtain e l where e: "internal e" "mstep (locks s m) e l" by blast
    have "client_call s e" using e(1) by (cases e) auto
    from cstep.on_mutex [OF True this e(2)] stuck e(1) show False by (metis in_code.simps(1))
  qed
  then have "quiet (locks s m)" by (simp add: quiet_iff)
  moreover obtain h where "held_by h (locks s m)" using cond_mutex(1) [OF inv] by (auto simp: mutex_inv_def)
  ultimately show ?thesis
    using held_out [of h "locks s m" t] by (cases "t < threads (locks s m)") (auto simp: quiet_def)
next
  case False
  with locks_invD(3) [OF cond_invD(1) [OF inv]] show ?thesis by simp
qed

lemma stuck_place:
  assumes inv: "cond_inv s" "bind_inv s" and stuck: "\<not> (\<exists>e s'. in_code e \<and> cstep s e s')"
    and st: "stack s t = (c, pl) # cs"
  shows "asleep c (stack s t) \<or> pl = WLock \<and> pcs (its_mutex s t) t = LSleep"
proof -
  have no: "in_code e \<Longrightarrow> cstep s e s' \<Longrightarrow> False" for e s' using stuck by blast
  note calm = stuck_calm [OF inv(1) stuck, of "arg s t" t, folded its_mutex_def]
  have instr: "cond_instr (arg s t) pl (conds s c) = None"
    using no [OF _ cstep.cinstr [OF st]] by (cases "cond_instr (arg s t) pl (conds s c)") auto
  note place = stack_place(2) [OF inv(1) st]
  have awake: False if pl: "pl = WRequeue \<or> pl = BRequeue"
  proof -
    obtain m where m: "requeue_to (arg s t) pl (conds s c) = Some m"
      using pl bind_invD [OF inv(2) st] by (auto simp: requeue_to_def)
    note wake = cstep.requeue_some [OF st pl m] cstep.requeue_nobody [OF st pl m]
    show False using no [OF _ wake(1)] no [OF _ wake(2)] by auto
  qed
  show ?thesis
  proof (cases pl)
    case (WUnlock k)
    with place calm have "pcs (its_mutex s t) t = Out" by auto
    from no [OF _ cstep.futex_wait [OF st [unfolded WUnlock] this]] show ?thesis by simp
  next
    case WLock
    have "pcs (its_mutex s t) t \<noteq> Held"
    proof
      assume "pcs (its_mutex s t) t = Held"
      from no [OF _ cstep.relocked [OF st [unfolded WLock] this]] show False by simp
    qed
    with WLock place calm show ?thesis by auto
  next
    case WSeq
    from no [OF _ cstep.unlock [OF st [unfolded WSeq]]] show ?thesis by (simp add: fastsync_mutex_unlock_def)
  next
    case (SWake n)
    note wake = cstep.wake_waiter [OF st [unfolded SWake]] cstep.wake_nobody [OF st [unfolded SWake]]
    show ?thesis using no [OF _ wake(1)] no [OF _ wake(2)] by auto
  qed (use awake place instr st in \<open>auto simp: Let_def asleep_iff split: if_splits option.splits\<close>)
qed

lemma stuck_waits:
  assumes inv: "cond_inv s" "bind_inv s" and "\<not> (\<exists>e s'. in_code e \<and> cstep s e s')" and "stack s t = (c, pl) # cs"
  shows "asleep c (stack s t) \<or> pcs (its_mutex s t) t = LSleep \<and>
    (\<exists>u < cthreads s. pcs (its_mutex s t) u = Held \<and> (stack s u = [] \<or> arg s u \<noteq> arg s t))"
proof (cases "asleep c (stack s t)")
  case False
  let ?m = "its_mutex s t"
  from stuck_place [OF inv assms(3,4)] False have sleep: "pcs ?m t = LSleep" by blast
  note mi = cond_mutex [OF inv(1), of "arg s t", folded its_mutex_def]
  then obtain h where h: "held_by h ?m" and wake: "wake_inv ?m" by (auto simp: mutex_inv_def)
  note calm = stuck_calm [OF inv(1) assms(3), of "arg s t", folded its_mutex_def]
  have "\<not> unlocking (pcs ?m u) \<and> \<not> waking (pcs ?m u)" for u
    using calm [of u] by (elim disjE) (simp_all add: waking_def)
  with wake sleep have "word_of ?m = 3" by (auto simp: wake_inv_def wake_ok_def sleeping_def)
  with h obtain u where "owns ?m u" by (auto simp: held_by_def)
  with calm [of u] have u: "pcs ?m u = Held" by (auto simp: owns_def)
  have "arg s u \<noteq> arg s t" if "stack s u \<noteq> []"
  proof
    assume same: "arg s u = arg s t"
    from that obtain d pl' ds where st: "stack s u = (d, pl') # ds" by (cases "stack s u") auto
    from stuck_place [OF inv assms(3) st] asleep_out(1) [OF inv(1), of d u] u same show False
      by (auto simp: its_mutex_def)
  qed
  moreover have "u < cthreads s" using held_out [OF h, of u] u mi(2) by (cases "u < cthreads s") auto
  ultimately show ?thesis using sleep u by blast
qed simp

end
