(* ===== verification/Cond_Broadcast.thy ===== *)
theory Cond_Broadcast imports Cond_Progress begin

unbundle bit_operations_syntax

text \<open>
  A broadcast at the root of a tree. \<open>root_inv\<close>: at a root nobody stands for the node, so its
  sequence number counts exactly the signals and broadcasts. \<open>released\<close>: once a broadcast has
  incremented the number with the mutex held, nobody goes to sleep at the root before a new
  wait is called, and the sleepers of before are still there only as long as the FUTEX_REQUEUE
  is to come. \<open>none_asleep\<close>: in a state where nothing moves, a tree whose root has no sleepers
  has none at all.
\<close>

section \<open>The sequence number of a root\<close>

definition root_inv :: "cid \<Rightarrow> nat \<Rightarrow> csys \<Rightarrow> bool" where
  "root_inv r n s \<longleftrightarrow> parent (conds s r) = None \<and> cseq (conds s r) = of_nat n \<and>
     (\<forall>u pl cs. stack s u = (r, pl) # cs \<longrightarrow> \<not> standing pl) \<and>
     (\<forall>u k. WUnlock k \<in> marks r (stack s u) \<longrightarrow> unat k \<le> n)"

lemma low_nat: "n < 2 ^ 32 \<Longrightarrow> cseq c = of_nat n \<Longrightarrow> unat (low_seq c) = n"
  by (simp add: low_small unsigned_of_nat take_bit_nat_eq_self)

text \<open>A call that returns goes on in a call of a node with a parent.\<close>

lemma leave_root:
  assumes "path_ok P d cs" and "P r = None" and "fst (leave x cs) = (r, pl) # ds"
  shows False
  using assms by (cases cs) (auto split: prod.splits)

lemma proceed_root:
  assumes "cond_instr m pl r0 = Some (c, g)" and "path_ok P d cs" and "P r = None"
    and "d = r \<Longrightarrow> parent r0 = None \<and> \<not> standing pl" and "fst (proceed d g cs) = (r, pl') # ds"
  shows "\<not> standing pl'"
  using assms leave_root [OF assms(2,3)]
  by (cases pl) (auto simp: Let_def split: if_splits option.splits)

lemma root_inv_step:
  assumes inv: "cond_all_inv s" and step: "cstep s e s'" and old: "root_inv r n s"
    and small: "n + bumps r s e < 2 ^ 32"
  shows "root_inv r (n + bumps r s e) s'"
proof -
  have ci: "cond_inv s" using inv by (simp add: cond_all_inv_def)
  have par: "parent (conds s r) = None" and par': "parents (conds s) r = None"
    and none: "\<And>u pl cs. stack s u = (r, pl) # cs \<Longrightarrow> \<not> standing pl"
    using old unfolding root_inv_def parents_def by blast+
  have seq: "cseq (conds s' r) = of_nat (n + bumps r s e)"
    using step_seq [OF step, of r] old none by (fastforce simp: root_inv_def)
  have stand: "\<not> standing pl" if st: "stack s' u = (r, pl) # cs" for u pl cs
  proof (cases "stack s' u = stack s u")
    case True
    with none st show ?thesis by simp
  next
    case moved: False
    from step show ?thesis
    proof cases
      case (cinstr t c pl' ds c' g)
      then have "u = t" using moved by (auto split: if_splits)
      with cinstr st have "fst (proceed c g ds) = (r, pl) # cs" by simp
      from proceed_root [OF cinstr(4) stack_place(3) [OF ci cinstr(3)] par' _ this] cinstr(3) none par
      show ?thesis by auto
    next
      case (requeue_some t c pl' ds m w)
      have "fst (requeue_next c pl' ds) = (r, pl) # cs \<Longrightarrow> \<not> standing pl"
        using requeue_some(4) leave_root [OF stack_place(3) [OF ci requeue_some(3)] par'] none requeue_some(3) by fastforce
      with moved st requeue_some none show ?thesis by (auto simp: asleep_iff split: if_splits)
    next
      case (requeue_nobody t c pl' ds m)
      have "fst (requeue_next c pl' ds) = (r, pl) # cs \<Longrightarrow> \<not> standing pl"
        using requeue_nobody(4) leave_root [OF stack_place(3) [OF ci requeue_nobody(3)] par'] none requeue_nobody(3)
        by fastforce
      with moved st requeue_nobody show ?thesis by (auto split: if_splits)
    qed (use moved st leave_root [OF stack_place(3) [OF ci] par'] in
        \<open>auto simp: asleep_iff outside_def begin_call_def fastsync_cond_wait_def fastsync_cond_signal_def
          fastsync_cond_signal_count_def fastsync_cond_broadcast_def split: if_splits sum.splits option.splits\<close>)
  qed
  have "unat k \<le> n + bumps r s e" if k: "WUnlock k \<in> marks r (stack s' u)" for u k
  proof (cases "WUnlock k \<in> marks r (stack s u)")
    case True
    with old show ?thesis unfolding root_inv_def by (meson trans_le_add1)
  next
    case False
    with new_mark [OF step k] have "k = low_seq (conds s r)" by auto
    with low_nat [of n "conds s r"] old small show ?thesis by (simp add: root_inv_def)
  qed
  with seq stand par step_parent [OF step, of r] show ?thesis by (simp add: root_inv_def)
qed

section \<open>After the broadcast\<close>

text \<open>The places of a wait from its beginning to the read of \<open>seq\<close>.\<close>

fun arriving :: "cplace \<Rightarrow> bool" where
  "arriving WMutex = True" | "arriving WMutex2 = True" | "arriving WCas = True" | "arriving WChild = True"
| "arriving WSeq = True" | "arriving pl = False"

definition broadcasting :: "cid \<Rightarrow> calls \<Rightarrow> bool" where
  "broadcasting r cs \<longleftrightarrow> cs = [(r, BMutex)] \<or> cs = [(r, BRequeue)]"

definition released :: "cid \<Rightarrow> mid \<Rightarrow> tid \<Rightarrow> nat \<Rightarrow> csys \<Rightarrow> bool" where
  "released r m b N s \<longleftrightarrow> cmutex (conds s r) = Some m \<and>
     (\<forall>u k. WUnlock k \<in> marks r (stack s u) \<longrightarrow> unat k \<le> N) \<and>
     (\<forall>u c pl cs. stack s u = (c, pl) # cs \<longrightarrow> arg s u = m \<longrightarrow> \<not> arriving pl) \<and>
     (\<forall>u. asleep r (stack s u) \<longrightarrow> broadcasting r (stack s b))"

lemma releasedD:
  assumes "released r m b N s"
  shows "cmutex (conds s r) = Some m" and "WUnlock k \<in> marks r (stack s u) \<Longrightarrow> unat k \<le> N"
    and "stack s u = (c, pl) # cs \<Longrightarrow> arg s u = m \<Longrightarrow> \<not> arriving pl"
    and "asleep r (stack s u) \<Longrightarrow> broadcasting r (stack s b)"
  using assms unfolding released_def by blast+

lemma arriving_instr:
  assumes "cond_instr m pl r0 = Some (r, g)" and "\<not> arriving pl" and "fst (proceed c g cs) = (d, pl') # ds"
    and "path_ok P c cs"
  shows "\<not> arriving pl'"
  using assms by (cases pl; cases cs) (auto simp: Let_def split: if_splits option.splits)

lemma arriving_leave: "path_ok P c cs \<Longrightarrow> fst (leave x cs) = (d, pl) # ds \<Longrightarrow> \<not> arriving pl"
  by (cases cs) (auto split: prod.splits)

definition no_wait :: "cevent \<Rightarrow> bool" where
  "no_wait e \<longleftrightarrow> (\<forall>t p m. e \<noteq> CallWait t p m)"

lemma arriving_step:
  assumes step: "cstep s e s'" and inv: "cond_inv s" and "no_wait e"
    and st: "stack s' u = (c, pl) # cs" and "arriving pl"
  shows "arg s' u = arg s u \<and> (\<exists>d pl' ds. stack s u = (d, pl') # ds \<and> arriving pl')"
proof -
  have arg: "arg s' = arg s"
    using step assms(3) by cases (auto simp: no_wait_def Cond.wake_waiter_def requeue_waiters_def signal_done_def begin_call_def split: sum.splits)
  have leave: "fst (leave x ds) \<noteq> (c, pl) # cs" if "stack s t = (d, pl') # ds" for x t d pl' ds
    using arriving_leave [OF stack_place(3) [OF inv that]] assms(5) by blast
  have "\<exists>d pl' ds. stack s u = (d, pl') # ds \<and> arriving pl'"
    using step
  proof cases
    case (cinstr t d pl' ds r g)
    show ?thesis
    proof (cases "u = t")
      case True
      with cinstr st have "fst (proceed d g ds) = (c, pl) # cs" by simp
      with arriving_instr [OF cinstr(4) _ this stack_place(3) [OF inv cinstr(3)]] assms(5) cinstr(3) True
      show ?thesis by blast
    qed (use cinstr st assms(5) in auto)
  next
    case (requeue_some t d pl' ds m v)
    have "fst (requeue_next d pl' ds) \<noteq> (c, pl) # cs"
      using requeue_some(4) leave [OF requeue_some(3)] assms(5) by auto
    with requeue_some st assms(5) show ?thesis by (auto simp: asleep_iff split: if_splits)
  next
    case (requeue_nobody t d pl' ds m)
    have "fst (requeue_next d pl' ds) \<noteq> (c, pl) # cs"
      using requeue_nobody(4) leave [OF requeue_nobody(3)] assms(5) by auto
    with requeue_nobody st assms(5) show ?thesis by (auto split: if_splits)
  qed (use st assms(3,5) leave in \<open>auto simp: no_wait_def asleep_iff outside_def begin_call_def fastsync_cond_signal_def
      fastsync_cond_signal_count_def fastsync_cond_broadcast_def split: if_splits sum.splits option.splits\<close>)
  with arg show ?thesis by simp
qed

lemma broadcasting_step:
  assumes "cstep s e s'" and "broadcasting r (stack s b)" and "cmutex (conds s r) \<noteq> None"
  shows "broadcasting r (stack s' b) \<or> (\<exists>w pl. e = FutexRequeue b w \<and> stack s b = [(r, pl)])"
  using assms by cases (auto simp: broadcasting_def outside_def begin_call_def asleep_iff split: sum.splits)

lemma step_mutex:
  "cstep s e s' \<Longrightarrow> cmutex (conds s r) = Some m \<Longrightarrow> cmutex (conds s' r) = Some m"
  by (induction rule: cstep.induct) (auto dest!: cond_instr_mutex)

lemma asleep_marks: "asleep c cs \<longleftrightarrow> (\<exists>k. WSleep k \<in> marks c cs)"
  by (auto simp: asleep_iff marks_head)

lemma released_step:
  assumes inv: "cond_all_inv s" and step: "cstep s e s'" and nw: "no_wait e" and root: "root_inv r n s"
    and old: "released r m b N s" and small: "N < n" "n < 2 ^ 32"
  shows "released r m b N s'"
proof -
  have ci: "cond_inv s" and bi: "bind_inv s" using inv by (simp_all add: cond_all_inv_def)
  note bound = releasedD(1) [OF old]
  have unlocked: "unat k \<le> N" if k: "WUnlock k \<in> marks r (stack s' u)" for u k
  proof (cases "WUnlock k \<in> marks r (stack s u)")
    case False
    with new_mark [OF step k] obtain cs where st: "stack s u = (r, WSeq) # cs" by auto
    with bind_invD [OF bi st] bound have "arg s u = m" by simp
    with releasedD(3) [OF old st] show ?thesis by simp
  qed (rule releasedD(2) [OF old])
  have sleeper: "broadcasting r (stack s' b)" if u: "asleep r (stack s' u)" for u
  proof -
    obtain k where k: "WSleep k \<in> marks r (stack s' u)" using u by (auto simp: asleep_marks)
    have "asleep r (stack s u)"
    proof (rule ccontr)
      assume "\<not> asleep r (stack s u)"
      then have "WSleep k \<notin> marks r (stack s u)" by (auto simp: asleep_marks)
      obtain cs where st: "stack s u = (r, WUnlock k) # cs" and low: "low_seq (conds s r) = k"
        using new_mark [OF step k \<open>WSleep k \<notin> marks r (stack s u)\<close>] by (elim disjE exE conjE) simp_all
      have "WUnlock k \<in> marks r (stack s u)" by (simp add: st)
      with releasedD(2) [OF old, of k u] low_nat [OF small(2), of "conds s r"] root small(1) low
      show False by (auto simp: root_inv_def)
    qed
    with releasedD(4) [OF old] have "broadcasting r (stack s b)" by blast
    from broadcasting_step [OF step this] bound
    have "broadcasting r (stack s' b) \<or> (\<exists>w pl. e = FutexRequeue b w \<and> stack s b = [(r, pl)])" by simp
    then show ?thesis
    proof (elim disjE exE conjE)
      fix w pl assume "e = FutexRequeue b w" and b: "stack s b = [(r, pl)]"
      with step have "cstep s (FutexRequeue b w) s'" by simp
      from requeue_empties [OF this b ci] k show ?thesis by blast
    qed
  qed
  have "\<not> arriving pl" if "stack s' u = (c, pl) # cs" "arg s' u = m" for u c pl cs
    using arriving_step [OF step ci nw that(1)] that(2) releasedD(3) [OF old] by metis
  with step_mutex [OF step bound] unlocked sleeper show ?thesis unfolding released_def by blast
qed

text \<open>The broadcast of a thread that holds the mutex of the root.\<close>

lemma released_start:
  assumes inv: "cond_all_inv s" and st: "stack s b = [(r, BAdd)]" and held: "pcs (locks s m) b = Held"
    and bound: "cmutex (conds s r) = Some m" and root: "root_inv r n s" and step: "cstep s (CInstr b) s'"
  shows "released r m b n s'"
proof -
  have ci: "cond_inv s" using inv by (simp add: cond_all_inv_def)
  have s': "stack s' u = (if u = b then [(r, BMutex)] else stack s u)" "arg s' u = arg s u" for u
    using step st by (auto simp: cstep.simps)
  have "\<not> arriving pl" if u: "stack s' u = (c, pl) # cs" "arg s' u = m" for u c pl cs
  proof (cases "u = b")
    case False
    then have st': "stack s u = (c, pl) # cs" using u s' by simp
    have "guarded pl \<or> checking_mutex pl" if "arriving pl" using that by (cases pl) auto
    with guarded_held [OF ci st'] u(2) s' have "pcs (locks s m) u = Held" if "arriving pl" using that by simp
    with held one_owner [OF ci, of m b u] False show ?thesis by (auto simp: owns_def)
  qed (use u s' in auto)
  with step_mutex [OF step bound] s' root show ?thesis
    by (auto simp: released_def broadcasting_def root_inv_def split: if_splits)
qed

section \<open>The whole tree\<close>

definition up :: "csys \<Rightarrow> (cid \<times> cid) set" where
  "up s = {(c, p). parent (conds s c) = Some p}"

lemma path_up:
  assumes "path_ok (parents (conds s)) d cs" and "(c, WParent) \<in> set cs"
  shows "\<exists>p. parent (conds s c) = Some p \<and> (p, d) \<in> (up s)\<^sup>*"
  using assms
proof (induction cs arbitrary: d)
  case (Cons x cs)
  obtain e where x: "x = (e, WParent)" "parents (conds s) e = Some d" "path_ok (parents (conds s)) e cs"
    using Cons.prems(1) by (cases x) auto
  show ?case
  proof (cases "c = e")
    case False
    with Cons.IH [OF x(3)] Cons.prems(2) x obtain p where "parent (conds s c) = Some p" "(p, e) \<in> (up s)\<^sup>*" by auto
    moreover have "(e, d) \<in> up s" using x(2) by (simp add: up_def parents_def)
    ultimately show ?thesis by (meson rtrancl.rtrancl_into_rtrancl)
  qed (use x in \<open>auto simp: parents_def\<close>)
qed simp

text \<open>Nothing moves, every thread in a call sleeps on a condition variable, and nobody sleeps at
  the root: then nobody is in the tree.\<close>

lemma none_asleep:
  assumes inv: "cond_inv s" and rest: "\<And>u c pl cs. stack s u = (c, pl) # cs \<Longrightarrow> asleep c (stack s u)"
    and reps: "\<And>c u. parent (conds s c) \<noteq> None \<Longrightarrow> asleep c (stack s u) \<Longrightarrow> \<exists>t. holding c (stack s t)"
    and root: "\<And>u. \<not> asleep r (stack s u)" "parent (conds s r) = None"
  shows "(c, r) \<in> (up s)\<^sup>* \<Longrightarrow> (c, d) \<in> (up s)\<^sup>* \<Longrightarrow> \<not> asleep d (stack s u)"
proof (induction arbitrary: d u rule: converse_rtrancl_induct)
  case base
  have "d = r" using base root(2) by (auto simp: up_def elim: converse_rtranclE)
  with root(1) show ?case by simp
next
  case (step c p)
  show ?case
  proof (cases "d = c")
    case False
    then obtain q where "(c, q) \<in> up s" "(q, d) \<in> (up s)\<^sup>*" using step.prems by (auto elim: converse_rtranclE)
    moreover from this step.hyps(1) have "q = p" by (simp add: up_def)
    ultimately show ?thesis using step.IH by blast
  next
    case True
    show ?thesis
    proof
      assume "asleep d (stack s u)"
      with reps [of c u] step.hyps(1) True obtain t where t: "holding c (stack s t)" by (auto simp: up_def)
      then obtain e pl ds where st: "stack s t = (e, pl) # ds" by (cases "stack s t") auto
      with rest [OF st] obtain k where pl: "pl = WSleep k" by (auto simp: asleep_iff)
      with t st have "(c, WParent) \<in> set ds" by (auto simp: holding_Cons active_Cons)
      from path_up [OF stack_place(3) [OF inv st] this] step.hyps(1) have "(p, e) \<in> (up s)\<^sup>*" by (auto simp: up_def)
      with step.IH rest [OF st] show False by blast
    qed
  qed
qed

text \<open>All steps after the increment of the broadcast, without a new wait.\<close>

lemma root_inv_start:
  assumes "csys_init s" and "parent (conds s r) = None"
  shows "root_inv r 0 s"
proof -
  from assms(1) obtain c0 where "fastsync_cond_init (Some c0) = (0, Some (conds s r))"
    unfolding csys_init_def by blast
  then have "conds s r = c0\<lparr>cseq := 0, cmutex := None\<rparr>" by (simp add: fastsync_cond_init_def)
  then have "cseq (conds s r) = 0" by simp
  with assms show ?thesis by (simp add: root_inv_def csys_init_def)
qed

lemma root_inv_run:
  assumes "csys_init s0" and "exec cnext s0 es = Some s" and "parent (conds s r) = None"
    and "count_bumps r s0 es < 2 ^ 32"
  shows "root_inv r (count_bumps r s0 es) s"
proof -
  define Q where "Q n s \<longleftrightarrow> (parent (conds s r) = None \<longrightarrow> n < 2 ^ 32 \<longrightarrow> root_inv r n s)" for n s
  have step: "Q (n + bumps r s e) s'" if "cond_all_inv s" "cstep s e s'" "Q n s" for n s e s'
    using that root_inv_step [OF that(1,2), of r n] step_parent [OF that(2), of r] by (auto simp: Q_def)
  have "Q 0 s0" using root_inv_start [OF assms(1)] by (simp add: Q_def)
  from count_invariant [of Q r, OF step cond_safe.inv_start [OF assms(1)] assms(2) this] assms(3,4)
  show ?thesis by (simp add: Q_def)
qed

lemma released_run:
  assumes "cond_all_inv s" and "root_inv r n s" and "released r m b N s" and "N < n"
    and "exec cnext s es = Some s'" and "\<forall>e\<in>set es. no_wait e" and "n + count_bumps r s es < 2 ^ 32"
  shows "released r m b N s'" and "root_inv r (n + count_bumps r s es) s'"
proof -
  define Q where "Q k s \<longleftrightarrow> N < k \<and> (k < 2 ^ 32 \<longrightarrow> root_inv r k s \<and> released r m b N s)" for k s
  have step: "Q (k + bumps r s e) s'" if "no_wait e" "cond_all_inv s" "cstep s e s'" "Q k s" for k s e s'
    using that root_inv_step [OF that(2,3), of r k] released_step [OF that(2,3,1), of r k m b N] by (auto simp: Q_def)
  have "Q n s" using assms(2-4) by (simp add: Q_def)
  from count_invariant_on [of no_wait Q r, OF step assms(6,1,5) this] assms(7)
  show "released r m b N s'" and "root_inv r (n + count_bumps r s es) s'" by (simp_all add: Q_def)
qed

end
