(* ===== verification/Cond_Runs.thy ===== *)
theory Cond_Runs imports Cond_Seq Mutex_Props begin

text \<open>
  A small program with condition variables, and the states some of its schedules lead to: the
  inputs of the witnesses in Cond_Props.
\<close>

section \<open>Three threads, two mutexes and two condition variables\<close>

text \<open>Condition variable 1 is a child of 0.\<close>

abbreviation cond_reach :: "csys \<Rightarrow> bool" where
  "cond_reach \<equiv> reach csys_init cstep"

definition csys0 :: csys where
  "csys0 = \<lparr>cthreads = 3, nmut = 2, locks = (\<lambda>_. msys0 3), conds = (\<lambda>c. \<lparr>use_child = 0, cmutex = None, cseq = 0,
     parent = (if c = 1 then Some 0 else None)\<rparr>), stack = (\<lambda>_. []), arg = (\<lambda>_. 0), crets = (\<lambda>_. None), woken = (\<lambda>_. 0)\<rparr>"

lemma csys0_init: "csys_init csys0"
proof -
  have "fastsync_cond_init (Some (conds csys0 c)) = (0, Some (conds csys0 c)) \<and> use_child (conds csys0 c) = 0"
    for c by (simp add: csys0_def fastsync_cond_init_def)
  moreover have "msys_init (locks csys0 m) \<and> threads (locks csys0 m) = cthreads csys0" "stack csys0 t = []" for m t
    by (simp_all add: csys0_def msys_init_def msys0_def fastsync_mutex_init_def)
  ultimately show "csys_init csys0" unfolding csys_init_def by blast
qed

lemma csys0_reach: "cond_reach csys0"
  by (rule reach_start, rule csys0_init)

definition after_run :: "cevent list \<Rightarrow> csys" where
  "after_run es = the (exec cnext csys0 es)"

lemma after_run_reach: "exec cnext csys0 es \<noteq> None \<Longrightarrow> cond_reach (after_run es)"
  using cond_run.exec_reach [OF csys0_reach, of es] by (auto simp: after_run_def)

text \<open>Thread 0 takes the mutex and waits at condition variable 0; thread 1 takes the mutex and
  broadcasts.\<close>

definition wait_0 :: "cevent list" where
  "wait_0 = [OnMutex 0 (CallLock 0 This), OnMutex 0 (Instr 0), CallWait 0 (Some 0) (Some 0), CInstr 0, CInstr 0,
     CInstr 0, CInstr 0, Unlock 0, OnMutex 0 (Instr 0), OnMutex 0 (Instr 0), FutexWait 0]"

definition lock_1 :: "cevent list" where
  "lock_1 = wait_0 @ [OnMutex 0 (CallLock 1 This), OnMutex 0 (Instr 1)]"

definition broadcast_1 :: "cevent list" where
  "broadcast_1 = lock_1 @ [CallBroadcast 1 (Some 0), CInstr 1, CInstr 1]"

definition signal_1 :: "cevent list" where
  "signal_1 = lock_1 @ [CallSignalCount 1 0, CInstr 1]"

text \<open>Threads 0 and 2 wait, and thread 1 broadcasts and unlocks the mutex.\<close>

definition two_wait :: "cevent list" where
  "two_wait = wait_0 @ [OnMutex 0 (CallLock 2 This), OnMutex 0 (Instr 2), CallWait 2 (Some 0) (Some 0), CInstr 2,
     CInstr 2, Unlock 2, OnMutex 0 (Instr 2), OnMutex 0 (Instr 2), FutexWait 2, OnMutex 0 (CallLock 1 This),
     OnMutex 0 (Instr 1), CallBroadcast 1 (Some 0), CInstr 1, CInstr 1]"

definition two_back :: "cevent list" where
  "two_back = two_wait @ [FutexRequeue 1 (Some 0), OnMutex 0 (CallUnlock 1 This), OnMutex 0 (Instr 1), OnMutex 0 (Instr 1)]"

text \<open>Thread 0 waits at condition variable 1 and becomes the one that waits at 0 for it.\<close>

definition child_0 :: "cevent list" where
  "child_0 = [OnMutex 0 (CallLock 0 This), OnMutex 0 (Instr 0), CallWait 0 (Some 1) (Some 0), CInstr 0, CInstr 0,
     CInstr 0, CInstr 0]"

definition child_signal :: "cevent list" where
  "child_signal = child_0 @ [CInstr 0, CInstr 0, CInstr 0, CInstr 0, Unlock 0, OnMutex 0 (Instr 0),
     OnMutex 0 (Instr 0), FutexWait 0, CallSignal 1 (Some 1), CInstr 1]"

text \<open>Thread 2 waits at 1 too and sleeps there.\<close>

definition child_2 :: "cevent list" where
  "child_2 = take 15 child_signal @ [OnMutex 0 (CallLock 2 This), OnMutex 0 (Instr 2), CallWait 2 (Some 1) (Some 0),
     CInstr 2, CInstr 2, Unlock 2, OnMutex 0 (Instr 2), OnMutex 0 (Instr 2), FutexWait 2]"

text \<open>Then thread 1 takes the mutex, broadcasts at 0 and unlocks; thread 0 comes back, releases
  thread 2, and both return and unlock.\<close>

definition tree_broadcast :: "cevent list" where
  "tree_broadcast = child_2 @ [OnMutex 0 (CallLock 1 This), OnMutex 0 (Instr 1), CallBroadcast 1 (Some 0)]"

definition tree_back :: "cevent list" where
  "tree_back = [CInstr 1, FutexRequeue 1 (Some 0), OnMutex 0 (CallUnlock 1 This), OnMutex 0 (Instr 1),
     OnMutex 0 (Instr 1), OnMutex 0 (Instr 0), Relocked 0, CInstr 0, CInstr 0, FutexRequeue 0 (Some 2), CInstr 0,
     OnMutex 0 (CallUnlock 0 This), OnMutex 0 (Instr 0), OnMutex 0 (Instr 0), OnMutex 0 (Instr 0),
     OnMutex 0 (Instr 0), OnMutex 0 (Wake 0 None), OnMutex 0 (Instr 2), Relocked 2,
     OnMutex 0 (CallUnlock 2 This), OnMutex 0 (Instr 2), OnMutex 0 (Instr 2), OnMutex 0 (Instr 2),
     OnMutex 0 (Instr 2), OnMutex 0 (Wake 2 None)]"

text \<open>Thread 1 waits at 0 with the mutex 1; then thread 0 waits at 1 with the mutex 0.\<close>

definition mismatch :: "cevent list" where
  "mismatch = [OnMutex 1 (CallLock 1 This), OnMutex 1 (Instr 1), CallWait 1 (Some 0) (Some 1), CInstr 1, CInstr 1,
     CInstr 1] @ child_0"

text \<open>Thread 0 has unlocked the mutex on its way to sleep when thread 1 signals.\<close>

definition early_signal :: "cevent list" where
  "early_signal = [OnMutex 0 (Instr 0), OnMutex 0 (Instr 0), CallSignal 1 (Some 0), CInstr 1]"

definition return_0 :: "cevent list" where
  "return_0 = broadcast_1 @ [FutexRequeue 1 (Some 0), OnMutex 0 (CallUnlock 1 This), OnMutex 0 (Instr 1),
     OnMutex 0 (Instr 1), OnMutex 0 (Instr 0)]"

lemmas runs_c = wait_0_def lock_1_def broadcast_1_def signal_1_def return_0_def
  two_wait_def two_back_def child_0_def child_signal_def fastsync_cond_signal_def
  child_2_def tree_broadcast_def tree_back_def mismatch_def early_signal_def after_run_def csys0_def
  msys0_def run_facts outside_def begin_call_def fastsync_cond_wait_def fastsync_cond_broadcast_def
  fastsync_cond_signal_count_def move_def Cond.wake_waiter_def requeue_waiters_def requeue_def join_def
  low_seq_def passes_def with_arg_def its_mutex_def requeue_to_def idle_def
  Let_def

lemma wait_0_run: "exec cnext csys0 wait_0 \<noteq> None \<and> stack (after_run wait_0) 0 = [(0, WSleep 0)] \<and>
    stack (after_run wait_0) 1 = [] \<and> pcs (locks (after_run wait_0) 0) 1 = Out"
  by (simp add: runs_c)

lemma broadcast_1_run: "exec cnext csys0 broadcast_1 \<noteq> None \<and> stack (after_run broadcast_1) 0 = [(0, WSleep 0)] \<and>
    stack (after_run broadcast_1) 1 = [(0, BRequeue)]"
  by (simp add: runs_c)

lemma signal_1_run: "exec cnext csys0 signal_1 \<noteq> None \<and> stack (after_run signal_1) 0 = [(0, WSleep 0)] \<and>
    stack (after_run signal_1) 1 = [(0, SWake True)]"
  by (simp add: runs_c)

lemma return_0_run: "exec cnext csys0 return_0 \<noteq> None \<and> stack (after_run return_0) 0 = [(0, WLock)] \<and>
    pcs (locks (after_run return_0) 0) 0 = Held"
  by (simp add: runs_c)

lemma two_wait_run: "exec cnext csys0 two_wait \<noteq> None \<and> stack (after_run two_wait) 0 = [(0, WSleep 0)] \<and>
    stack (after_run two_wait) 1 = [(0, BRequeue)] \<and> stack (after_run two_wait) 2 = [(0, WSleep 0)]"
  by (simp add: runs_c)

lemma two_back_run: "exec cnext csys0 two_back \<noteq> None \<and> pcs (locks (after_run two_back) 0) 0 = LXchg \<and>
    pcs (locks (after_run two_back) 0) 1 = Out \<and> pcs (locks (after_run two_back) 0) 2 = LSleep \<and>
    word_of (locks (after_run two_back) 0) = 0 \<and> cthreads (after_run two_back) = 3"
  by (simp add: runs_c word_of_def)

lemma child_0_run: "exec cnext csys0 child_0 \<noteq> None \<and>
    stack (after_run child_0) 0 = [(0, WMutex), (1, WParent)]"
  by (simp add: runs_c)

lemma child_signal_run: "exec cnext csys0 child_signal \<noteq> None \<and>
    stack (after_run child_signal) 0 = [(0, WSleep 0), (1, WParent)] \<and>
    stack (after_run child_signal) 1 = [(1, SWake False)] \<and> stack (after_run child_signal) 2 = [] \<and>
    cthreads (after_run child_signal) = 3"
  by (simp add: runs_c)


lemma child_2_run: "exec cnext csys0 child_2 \<noteq> None \<and> count_bumps 1 csys0 child_2 = 0 \<and>
    stack (after_run child_2) 2 = [(1, WSleep 0)] \<and> parent (conds (after_run child_2) 1) = Some 0"
  by (simp add: runs_c)

lemma after_run_append:
  "exec cnext csys0 es \<noteq> None \<Longrightarrow> exec cnext csys0 (es @ ds) = exec cnext (after_run es) ds"
  by (auto simp: exec_append after_run_def)

lemmas steps_c = begin_call_def move_def Cond.wake_waiter_def requeue_waiters_def requeue_def join_def
  run_facts outside_def low_seq_def with_arg_def its_mutex_def requeue_to_def idle_def Let_def

text \<open>The same runs in parts, each from what is known of the state before.\<close>

lemma tree_broadcast_state:
  "stack (after_run tree_broadcast) t =
     (if t = 0 then [(0, WSleep 0), (1, WParent)] else if t = 1 then [(0, BAdd)] else if t = 2 then [(1, WSleep 0)] else [])"
  "pcs (locks (after_run tree_broadcast) m) t = (if m = 0 \<and> t = 1 then Held else Out)"
  "state (mutex (locks (after_run tree_broadcast) 0)) = 1" "threads (locks (after_run tree_broadcast) 0) = 3"
  "conds (after_run tree_broadcast) 0 = \<lparr>use_child = 0, cmutex = Some 0, cseq = 0, parent = None\<rparr>"
  "conds (after_run tree_broadcast) 1 = \<lparr>use_child = 1, cmutex = Some 0, cseq = 0, parent = Some 0\<rparr>"
  "arg (after_run tree_broadcast) t = 0" "nmut (after_run tree_broadcast) = 2" "cthreads (after_run tree_broadcast) = 3"
  by (simp_all add: runs_c)

definition tree_mid :: csys where
  "tree_mid = the (exec cnext (after_run tree_broadcast) (CInstr 1 # take 11 tree_back))"

lemma tree_mid_run: "exec cnext (after_run tree_broadcast) (CInstr 1 # take 11 tree_back) \<noteq> None"
  by (simp add: steps_c tree_broadcast_state tree_back_def)

lemma tree_mid_state:
  "stack tree_mid t = (if t = 2 then [(1, WLock)] else [])"
  "pcs (locks tree_mid m) t = (if m = 0 \<and> t = 0 then Held else if m = 0 \<and> t = 2 then LXchg else Out)"
  "state (mutex (locks tree_mid 0)) = 3" "threads (locks tree_mid 0) = 3"
  "arg tree_mid t = 0" "nmut tree_mid = 2" "cthreads tree_mid = 3"
  by (simp_all add: tree_mid_def steps_c tree_broadcast_state tree_back_def)

lemma tree_end_run: "exec cnext tree_mid (drop 11 tree_back) \<noteq> None \<and>
    (\<forall>t. stack (the (exec cnext tree_mid (drop 11 tree_back))) t = []) \<and>
    (\<forall>m t. pcs (locks (the (exec cnext tree_mid (drop 11 tree_back))) m) t = Out)"
  by (simp add: steps_c tree_mid_state tree_back_def) arith

lemma mismatch_run: "exec cnext csys0 mismatch \<noteq> None \<and>
    stack (after_run mismatch) 0 = [(0, WMutex), (1, WParent)] \<and> arg (after_run mismatch) 0 = 0 \<and>
    cmutex (conds (after_run mismatch) 0) = Some 1 \<and> stack (after_run mismatch) 1 = [(0, WChild)] \<and>
    stack (after_run mismatch) 2 = [] \<and> cthreads (after_run mismatch) = 3"
  by (simp add: runs_c) auto

end
