(* ===== verification/Cond_Spec.thy ===== *)
theory Cond_Spec imports Cond_Progress begin

text \<open>
  The condition variables refine a monitor as POSIX describes it, without words, futexes, trees
  or stacks of calls: mutexes have owners, a wait joins the waiters before it gives its mutex
  back, a waiter that has been announced a change since does not go to sleep, a signal wakes one
  sleeper if there is one, a broadcast wakes all, and a waiter comes back by taking its mutex
  while nobody owns it.
\<close>

section \<open>The monitor\<close>

text \<open>
  A waiter is about to give back its mutex or has done so (\<open>Leaving\<close>, with the number of changes
  of the condition variable since it joined, modulo 2^32), sleeps until a notification or an
  interrupt (\<open>Sleeping\<close>) or is awake and after its mutex (\<open>Woken\<close>).
\<close>

datatype waiter = Leaving cid mid u32 | Sleeping cid mid | Woken mid

record monitor =
  owner :: "mid \<Rightarrow> tid option"
  waiters :: "tid \<Rightarrow> waiter option"

text \<open>Signal and broadcast announce themselves (\<open>Announces\<close>) before they notify the sleepers; the
  thread that comes back from a parent sets the number of changes (\<open>Rewrites\<close>).\<close>

datatype monitor_act = Takes tid mid | Gives tid mid | Joins tid cid mid | Sleeps tid | Stays tid
  | Announces cid | Rewrites cid u32 | Notifies cid "tid option" | NotifiesAll cid | Interrupts tid
  | Comes tid mid | Silent

fun sleeps_at :: "cid \<Rightarrow> waiter option \<Rightarrow> bool" where
  "sleeps_at c (Some (Sleeping d m)) \<longleftrightarrow> d = c"
| "sleeps_at c x \<longleftrightarrow> False"

fun notified :: "waiter option \<Rightarrow> waiter option" where
  "notified (Some (Sleeping c m)) = Some (Woken m)"
| "notified x = x"

fun changed :: "cid \<Rightarrow> u32 \<Rightarrow> waiter option \<Rightarrow> waiter option" where
  "changed c x (Some (Leaving d m n)) = Some (Leaving d m (if d = c then n + x else n))"
| "changed c x w = w"

fun may_give :: "mid \<Rightarrow> waiter option \<Rightarrow> bool" where
  "may_give m None \<longleftrightarrow> True"
| "may_give m (Some (Leaving c k n)) \<longleftrightarrow> k = m"
| "may_give m w \<longleftrightarrow> False"

fun monitor_step :: "monitor \<Rightarrow> monitor_act \<Rightarrow> monitor \<Rightarrow> bool" where
  "monitor_step a (Takes t m) a' \<longleftrightarrow> owner a m = None \<and> waiters a t = None \<and>
     a' = a\<lparr>owner := (owner a)(m := Some t)\<rparr>"
| "monitor_step a (Gives t m) a' \<longleftrightarrow> owner a m = Some t \<and> may_give m (waiters a t) \<and>
     a' = a\<lparr>owner := (owner a)(m := None)\<rparr>"
| "monitor_step a (Joins t c m) a' \<longleftrightarrow> owner a m = Some t \<and> waiters a t = None \<and>
     a' = a\<lparr>waiters := (waiters a)(t := Some (Leaving c m 0))\<rparr>"
| "monitor_step a (Sleeps t) a' \<longleftrightarrow> (case waiters a t of
     Some (Leaving c m n) \<Rightarrow> n = 0 \<and> owner a m \<noteq> Some t \<and>
       a' = a\<lparr>waiters := (waiters a)(t := Some (Sleeping c m))\<rparr> | _ \<Rightarrow> False)"
| "monitor_step a (Stays t) a' \<longleftrightarrow> (case waiters a t of
     Some (Leaving c m n) \<Rightarrow> n \<noteq> 0 \<and> owner a m \<noteq> Some t \<and>
       a' = a\<lparr>waiters := (waiters a)(t := Some (Woken m))\<rparr> | _ \<Rightarrow> False)"
| "monitor_step a (Announces c) a' \<longleftrightarrow> a' = a\<lparr>waiters := (\<lambda>u. changed c 1 (waiters a u))\<rparr>"
| "monitor_step a (Rewrites c x) a' \<longleftrightarrow> a' = a\<lparr>waiters := (\<lambda>u. changed c x (waiters a u))\<rparr>"
| "monitor_step a (Notifies c (Some u)) a' \<longleftrightarrow> sleeps_at c (waiters a u) \<and>
     a' = a\<lparr>waiters := (waiters a)(u := notified (waiters a u))\<rparr>"
| "monitor_step a (Notifies c None) a' \<longleftrightarrow> (\<forall>u. \<not> sleeps_at c (waiters a u)) \<and> a' = a"
| "monitor_step a (NotifiesAll c) a' \<longleftrightarrow>
     a' = a\<lparr>waiters := (\<lambda>u. if sleeps_at c (waiters a u) then notified (waiters a u) else waiters a u)\<rparr>"
| "monitor_step a (Interrupts u) a' \<longleftrightarrow> (\<exists>c. sleeps_at c (waiters a u)) \<and>
     a' = a\<lparr>waiters := (waiters a)(u := notified (waiters a u))\<rparr>"
| "monitor_step a (Comes t m) a' \<longleftrightarrow> waiters a t = Some (Woken m) \<and> owner a m = None \<and>
     a' = a\<lparr>owner := (owner a)(m := Some t), waiters := (waiters a)(t := None)\<rparr>"
| "monitor_step a Silent a' \<longleftrightarrow> a' = a"

definition monitor_init :: "monitor \<Rightarrow> bool" where
  "monitor_init a \<longleftrightarrow> (\<forall>m. owner a m = None) \<and> (\<forall>t. waiters a t = None)"

section \<open>The monitor in the state of the code\<close>

text \<open>From the read of \<open>cond->seq\<close> to the access that takes the mutex again a wait is a waiter:
  \<open>k\<close> is what it read, \<open>C\<close> are the condition variables, \<open>m\<close> is its mutex.\<close>

fun waiter_of :: "(cid \<Rightarrow> fastsync_cond) \<Rightarrow> mid \<Rightarrow> bool \<Rightarrow> calls \<Rightarrow> waiter option" where
  "waiter_of C m own ((c, WUnlock k) # cs) = Some (Leaving c m (low_seq (C c) - k))"
| "waiter_of C m own ((c, WSleep k) # cs) = Some (Sleeping c m)"
| "waiter_of C m own ((c, WLock) # cs) = (if own then None else Some (Woken m))"
| "waiter_of C m own cs = None"

definition waiting :: "csys \<Rightarrow> tid \<Rightarrow> waiter option" where
  "waiting s t = waiter_of (conds s) (arg s t) (owns (its_mutex s t) t) (stack s t)"

definition monitor_of :: "csys \<Rightarrow> monitor" where
  "monitor_of s = \<lparr>owner = (\<lambda>m. holder (locks s m)), waiters = waiting s\<rparr>"

definition mutex_move :: "csys \<Rightarrow> mid \<Rightarrow> lock_act \<Rightarrow> monitor_act" where
  "mutex_move s m x = (case x of
     Acquire t \<Rightarrow> if waiting s t = Some (Woken m) then Comes t m else Takes t m
   | Release t \<Rightarrow> Gives t m
   | Internal \<Rightarrow> Silent)"

fun instr_move :: "cplace \<Rightarrow> cid \<Rightarrow> fastsync_cond \<Rightarrow> monitor_act" where
  "instr_move (SAdd n) c r = Announces c"
| "instr_move BAdd c r = Announces c"
| "instr_move (WInc2 v) c r = Rewrites c (ucast (v + 1) - low_seq r)"
| "instr_move pl c r = Silent"

fun monitor_move :: "csys \<Rightarrow> cevent \<Rightarrow> csys \<Rightarrow> monitor_act" where
  "monitor_move s (OnMutex m e) s' = mutex_move s m (act_of (locks s m) e (locks s' m))"
| "monitor_move s (CInstr t) s' = (case stack s t of [] \<Rightarrow> Silent | (c, pl) # cs \<Rightarrow> instr_move pl c (conds s c))"
| "monitor_move s (Unlock t) s' = Joins t (fst (hd (stack s t))) (arg s t)"
| "monitor_move s (FutexWait t) s' = (if waiting s' t = Some (Woken (arg s t)) then Stays t else Sleeps t)"
| "monitor_move s (FutexWake t w) s' = Notifies (fst (hd (stack s t))) w"
| "monitor_move s (FutexRequeue t w) s' = NotifiesAll (fst (hd (stack s t)))"
| "monitor_move s (Interrupted u) s' = Interrupts u"
| "monitor_move s e s' = Silent"

section \<open>The refinement\<close>

lemma sleeps_waiting: "sleeps_at c (waiting s u) \<longleftrightarrow> asleep c (stack s u)"
  by (cases "(conds s, arg s u, owns (its_mutex s u) u, stack s u)" rule: waiter_of.cases) (auto simp: waiting_def)

lemma waiting_asleep: "asleep c (stack s u) \<Longrightarrow> waiting s u = Some (Sleeping c (arg s u))"
  by (auto simp: waiting_def asleep_iff)

lemma waiting_cong:
  "stack s' t = stack s t \<Longrightarrow> arg s' t = arg s t \<Longrightarrow> conds s' = conds s \<Longrightarrow> owns (its_mutex s' t) t = owns (its_mutex s t) t \<Longrightarrow>
   waiting s' t = waiting s t"
  by (simp add: waiting_def)

lemma holder_cong:
  assumes "threads m' = threads m" and "\<And>t. owns m' t = owns m t"
  shows "holder m' = holder m"
proof -
  have "owns m' = owns m" using assms(2) by blast
  with assms(1) show ?thesis by (simp add: holder_def)
qed

text \<open>A wait that releases its mutex does not take it before the kernel has woken it, and one
  that takes it again does not release it.\<close>

lemma instr_unlocking:
  assumes "mutex_instr pc w = Some (pc', w', r)"
  shows "in_unlock pc \<Longrightarrow> \<not> owner_pc pc \<Longrightarrow> \<not> owner_pc pc'" and "relocking pc \<Longrightarrow> \<not> owner_pc pc"
  using assms by (cases "(pc, w)" rule: mutex_instr.cases; auto simp: unlock_loop_def split: if_splits)+

text \<open>A call that takes a step in a mutex is at the unlock or at the lock of its own wait.\<close>

lemma stepping_place:
  assumes "cond_inv s" and "stack s t = (c, pl) # cs" and "mutex_instr (pcs (locks s m) t) w = Some r"
  shows "arg s t = m \<and> ((\<exists>k. pl = WUnlock k) \<and> in_unlock (pcs (locks s m) t) \<or> pl = WLock \<and> relocking (pcs (locks s m) t))"
proof -
  obtain pc' w' r' where r: "r = (pc', w', r')" by (cases r) auto
  note i = instr_place(2) [OF assms(3) [unfolded r]] and p = stack_place [OF assms(1,2)]
  have "arg s t = m" using i p(6) [of m] by metis
  moreover have "place_ok pl pc \<Longrightarrow> \<not> idle pc \<Longrightarrow> (\<exists>k. pl = WUnlock k) \<and> in_unlock pc \<or> pl = WLock \<and> relocking pc" for pc
    by (cases pl; auto simp: idle_def)
  ultimately show ?thesis using i p(2) by (auto simp: its_mutex_def)
qed

lemma act_instr:
  assumes "mstep m e m'" and "act_of m e m' = Acquire t \<or> act_of m e m' = Release t"
  shows "\<exists>pc w r. mutex_instr (pcs m t) (state (mutex m)) = Some (pc, w, r) \<and> pcs m' t = pc"
  using assms by (auto simp: mstep.simps act_of_def split: if_splits)

text \<open>The steps of a mutex: its owner moves as in the abstract lock, and only the thread that moves
  changes as a waiter.\<close>

lemma mutex_monitor:
  assumes inv: "cond_inv s" and step: "mstep (locks s m) e l"
  shows "monitor_step (monitor_of s) (mutex_move s m (act_of (locks s m) e l)) (monitor_of (s\<lparr>locks := (locks s)(m := l)\<rparr>))"
    (is "monitor_step _ _ (monitor_of ?s')")
proof -
  note mi = cond_mutex(1) [OF inv, of m] mutex_inv_step [OF cond_mutex(1) [OF inv] step]
  note own = mi [THEN inv_owns]
  have spec: "lock_spec (holder (locks s m)) (act_of (locks s m) e l) (holder l)"
    by (rule mutex_safe.abs_step [OF mi(1) step])
  have owner: "owner (monitor_of ?s') = (owner (monitor_of s))(m := holder l)"
    by (auto simp: monitor_of_def)
  have wait: "waiting ?s' t = (if arg s t = m then waiter_of (conds s) m (holder l = Some t) (stack s t) else waiting s t)" for t
    by (simp add: waiting_def its_mutex_def own)
  have wait0: "waiting s t = waiter_of (conds s) m (holder (locks s m) = Some t) (stack s t)" if "arg s t = m" for t
    using that by (simp add: waiting_def its_mutex_def own)
  show ?thesis
  proof (cases "act_of (locks s m) e l")
    case Internal
    with spec have "holder l = holder (locks s m)" by (simp_all add: lock_spec_simps)
    then show ?thesis using wait wait0 unfolding Internal
      by (simp add: mutex_move_def monitor_of_def fun_eq_iff)
  next
    case (Acquire t)
    with spec have h: "holder (locks s m) = None" "holder l = Some t" by (simp_all add: lock_spec_simps)
    have same: "waiting ?s' u = waiting s u" if "u \<noteq> t" for u using that wait wait0 by (simp add: h)
    obtain pc w r where instr: "mutex_instr (pcs (locks s m) t) (state (mutex (locks s m))) = Some (pc, w, r)"
      and pc: "pcs l t = pc" using act_instr [OF step] Acquire by blast
    have oth: "\<not> owner_pc (pcs (locks s m) t)" "owner_pc pc" using own h pc by (auto simp: owns_def)
    show ?thesis
    proof (cases "stack s t")
      case Nil
      then have "waiting s t = None" "waiting ?s' t = None" by (simp_all add: waiting_def)
      with same h Acquire show ?thesis by (auto simp: mutex_move_def monitor_of_def fun_eq_iff) (metis)
    next
      case (Cons x cs)
      obtain c pl where x: "x = (c, pl)" by (cases x)
      from stepping_place [OF inv _ instr] Cons x oth instr_unlocking(1) [OF instr]
      have "arg s t = m" "pl = WLock" by blast+
      with Cons x h wait wait0 have "waiting s t = Some (Woken m)" "waiting ?s' t = None" by simp_all
      with same h Acquire show ?thesis by (auto simp: mutex_move_def monitor_of_def fun_eq_iff)
    qed
  next
    case (Release t)
    with spec have h: "holder (locks s m) = Some t" "holder l = None" by (simp_all add: lock_spec_simps)
    have same: "waiting ?s' u = waiting s u" if "u \<noteq> t" for u using that wait wait0 by (simp add: h)
    obtain pc w r where instr: "mutex_instr (pcs (locks s m) t) (state (mutex (locks s m))) = Some (pc, w, r)"
      and pc: "pcs l t = pc" using act_instr [OF step] Release by blast
    have oth: "owner_pc (pcs (locks s m) t)" using own h by (auto simp: owns_def)
    show ?thesis
    proof (cases "stack s t")
      case Nil
      then have "waiting s t = None" "waiting ?s' t = None" by (simp_all add: waiting_def)
      with same h Release Nil show ?thesis by (auto simp: mutex_move_def monitor_of_def fun_eq_iff) (metis)
    next
      case (Cons x cs)
      obtain c pl where x: "x = (c, pl)" by (cases x)
      from stepping_place [OF inv _ instr] Cons x oth instr_unlocking(2) [OF instr]
      obtain k where "arg s t = m" "pl = WUnlock k" by blast
      with Cons x wait wait0 obtain n where "waiting s t = Some (Leaving c m n)" "waiting ?s' t = Some (Leaving c m n)" by simp
      with same h Release show ?thesis by (auto simp: mutex_move_def monitor_of_def fun_eq_iff) (metis)
    qed
  qed
qed

text \<open>Steps that leave every owner as it is.\<close>

definition owners_kept :: "csys \<Rightarrow> csys \<Rightarrow> bool" where
  "owners_kept s s' \<longleftrightarrow> (\<forall>m. threads (locks s' m) = threads (locks s m) \<and> (\<forall>t. owns (locks s' m) t = owns (locks s m) t))"

lemma kept_owner: "owners_kept s s' \<Longrightarrow> owner (monitor_of s') = owner (monitor_of s)"
  by (simp add: owners_kept_def monitor_of_def) (blast intro: holder_cong)

lemma kept_same:
  assumes "owners_kept s s'" and "\<And>u. waiting s' u = waiting s u"
  shows "monitor_of s' = monitor_of s"
  using kept_owner [OF assms(1)] assms(2) by (simp add: monitor_of_def fun_eq_iff)

lemma kept_locks: "locks s' = locks s \<Longrightarrow> owners_kept s s'"
  by (simp add: owners_kept_def)

lemma kept_wake:
  "pcs (its_mutex s u) u = Out \<Longrightarrow> owners_kept s (wake_waiter u s)"
  by (auto simp: owners_kept_def wake_waiter_def join_def owns_def its_mutex_def)

lemma waiting_wake:
  "stack s u = (c, pl) # cs \<Longrightarrow> waiting (wake_waiter u s) t = (if t = u then Some (Woken (arg s u)) else waiting s t)"
  by (auto simp: waiting_def wake_waiter_def its_mutex_def join_def owns_def)

lemma waiting_leave: "path_ok P c cs \<Longrightarrow> waiter_of C m own (fst (leave r cs)) = None"
  by (cases cs) auto

lemma waiting_instr:
  assumes "cond_instr a pl r0 = Some (r, g)" and "path_ok P c cs"
  shows "waiter_of C m own ((c, pl) # cs) = None" and "waiter_of C m own (fst (proceed c g cs)) = None"
  using assms waiting_leave [OF assms(2)] by (cases pl; auto simp: Let_def split: if_splits option.splits)+

text \<open>What a change of a condition variable is to its waiters.\<close>

lemma changed_0 [simp]: "changed c 0 x = x"
  by (cases "(c, 0 :: u32, x)" rule: changed.cases) auto

lemma waiting_changed:
  "waiter_of (C(c := r)) m own cs = changed c (low_seq r - low_seq (C c)) (waiter_of C m own cs)"
  by (cases "(C, m, own, cs)" rule: waiter_of.cases) (auto simp: algebra_simps)

lemma instr_changes:
  assumes "cond_instr m pl r0 = Some (r, g)"
  shows "(instr_move pl c r0 = Announces c \<and> low_seq r - low_seq r0 = 1) \<or>
    instr_move pl c r0 = Rewrites c (low_seq r - low_seq r0) \<or> (instr_move pl c r0 = Silent \<and> low_seq r = low_seq r0)"
proof -
  have "low_seq (r0\<lparr>cseq := cseq r0 + 1\<rparr>) - low_seq r0 = 1"
    using low_add [of "cseq r0" 1] by (simp add: low_seq_def)
  with assms show ?thesis by (cases pl) (auto simp: Let_def low_seq_def split: if_splits option.splits)
qed

lemma begin_same:
  assumes "stack s t = []" and "\<And>c pl C m own. f = Inr (c, pl) \<Longrightarrow> waiter_of C m own [(c, pl)] = None"
    and "locks s1 = locks s" "conds s1 = conds s" "stack s1 = stack s" "\<And>u. u \<noteq> t \<Longrightarrow> arg s1 u = arg s u"
  shows "monitor_of (begin_call t f s1) = monitor_of s"
proof (rule kept_same)
  show "owners_kept s (begin_call t f s1)" using assms(3) by (intro kept_locks) simp
  show "waiting (begin_call t f s1) u = waiting s u" for u
    using assms by (cases "u = t"; cases f) (auto simp: waiting_def its_mutex_def begin_call_def)
qed

text \<open>A thread that goes on, without being a waiter before or after.\<close>

lemma move_same:
  assumes "waiting s t = None" and "\<And>C m own. waiter_of C m own (fst x) = None"
    and "owners_kept s s1" "conds s1 = conds s" "stack s1 = stack s" "arg s1 = arg s"
  shows "monitor_of (move t x s1) = monitor_of s"
proof (rule kept_same)
  show "owners_kept s (move t x s1)" using assms(3) by (simp add: owners_kept_def)
  show "waiting (move t x s1) u = waiting s u" for u
    using assms by (auto simp: waiting_def its_mutex_def owners_kept_def)
qed

lemma signal_same:
  assumes "stack s t = [(c, SWake n)]"
  shows "monitor_of (signal_done t n k [] s) = monitor_of s"
  unfolding signal_done_def
  by (rule move_same) (use assms in \<open>simp_all add: waiting_def owners_kept_def\<close>)

lemma wake_monitor:
  assumes "cond_inv s" and "asleep c (stack s u)"
  shows "monitor_of (wake_waiter u s) = (monitor_of s)\<lparr>waiters := (waiting s)(u := notified (waiting s u))\<rparr>"
proof -
  from assms(2) obtain k ds where "stack s u = (c, WSleep k) # ds" by (auto simp: asleep_iff)
  with kept_owner [OF kept_wake [OF asleep_out(1) [OF assms]]] waiting_wake [of s u c "WSleep k" ds] waiting_asleep [OF assms(2)]
  show ?thesis by (auto simp: monitor_of_def fun_eq_iff)
qed

lemma requeue_monitor:
  assumes inv: "cond_inv s" and u: "asleep c (stack s u)" and arg: "\<And>v. asleep c (stack s v) \<Longrightarrow> arg s v = m"
  shows "monitor_of (requeue_waiters c m u s) = (monitor_of s)\<lparr>waiters :=
    (\<lambda>v. if sleeps_at c (waiting s v) then notified (waiting s v) else waiting s v)\<rparr>"
proof -
  have out: "pcs (locks s m) v = Out" if "asleep c (stack s v)" for v
    using asleep_out(1) [OF inv that] arg [OF that] by (simp add: its_mutex_def)
  have kept: "owners_kept s (requeue_waiters c m u s)"
    using out u by (auto simp: owners_kept_def requeue_waiters_def requeue_def owns_def)
  have "waiting (requeue_waiters c m u s) v = (if asleep c (stack s v) then Some (Woken m) else waiting s v)" for v
  proof (cases "asleep c (stack s v)")
    case True
    with arg [OF True] show ?thesis
      by (auto simp: asleep_iff waiting_def its_mutex_def requeue_waiters_def requeue_def owns_def)
  next
    case False
    with u have "v \<noteq> u" by auto
    with False show ?thesis
      by (auto simp: waiting_def its_mutex_def requeue_waiters_def requeue_def owns_def)
  qed
  with kept_owner [OF kept] arg waiting_asleep [of c s] sleeps_waiting [of c s] show ?thesis
    by (auto simp: monitor_of_def fun_eq_iff)
qed

lemma monitor_step_of:
  assumes inv: "cond_inv s" "bind_inv s" and step: "cstep s e s'"
  shows "monitor_step (monitor_of s) (monitor_move s e s') (monitor_of s')"
  using step
proof cases
  case (on_mutex m e l)
  with mutex_monitor [OF inv(1), of m e l] show ?thesis by simp
next
  case (call_wait t m p)
  then have "monitor_of s' = monitor_of s" unfolding call_wait
    by (intro begin_same) (auto simp: outside_def fastsync_cond_wait_def split: option.splits if_splits)
  with call_wait show ?thesis by simp
next
  case (call_signal t p)
  then have "monitor_of s' = monitor_of s" unfolding call_signal
    by (intro begin_same) (auto simp: outside_def fastsync_cond_signal_def split: option.splits)
  with call_signal show ?thesis by simp
next
  case (call_signal_count t c)
  then have "monitor_of s' = monitor_of s" unfolding call_signal_count
    by (intro begin_same) (auto simp: outside_def fastsync_cond_signal_count_def)
  with call_signal_count show ?thesis by simp
next
  case (call_broadcast t p)
  then have "monitor_of s' = monitor_of s" unfolding call_broadcast
    by (intro begin_same) (auto simp: outside_def fastsync_cond_broadcast_def split: option.splits)
  with call_broadcast show ?thesis by simp
next
  case (cinstr t c pl cs r g)
  note w = waiting_instr [OF cinstr(4) stack_place(3) [OF inv(1) cinstr(3)]]
  let ?x = "low_seq r - low_seq (conds s c)"
  have kept: "owners_kept s s'" unfolding cinstr(2) by (rule kept_locks) simp
  have ch: "waiting s' u = changed c ?x (waiter_of (conds s) (arg s u) (owns (its_mutex s u) u) (stack s' u))" for u
    unfolding cinstr(2) waiting_def by (simp add: its_mutex_def waiting_changed del: fun_upd_apply)
  have "waiting s' u = changed c ?x (waiting s u)" for u
    using ch [of u] w cinstr(2,3) by (cases "u = t") (simp_all add: waiting_def)
  with kept_owner [OF kept] have "monitor_of s' = (monitor_of s)\<lparr>waiters := (\<lambda>u. changed c ?x (waiters (monitor_of s) u))\<rparr>"
    by (simp add: monitor_of_def fun_eq_iff)
  with instr_changes [OF cinstr(4), of c] cinstr(1,3) show ?thesis by auto
next
  case (unlock t c cs pc)
  have held: "pcs (its_mutex s t) t = Held" using stack_place(2) [OF inv(1) unlock(3)] by simp
  have kept: "owners_kept s (s\<lparr>locks := (locks s)(arg s t := enter (its_mutex s t) t (Inr pc))\<rparr>)"
    using held unlock(4) by (auto simp: owners_kept_def owns_def enter_def fastsync_mutex_unlock_def its_mutex_def)
  have kept: "owners_kept s s'" using kept unlock(2) by (simp add: owners_kept_def)
  have own: "holder (its_mutex s t) = Some t"
    using inv_owns [OF cond_mutex(1) [OF inv(1)], of "arg s t" t] held by (simp add: owns_def its_mutex_def)
  have "waiting s t = None" using unlock(3) by (simp add: waiting_def)
  moreover have "waiting s' u = (if u = t then Some (Leaving c (arg s t) 0) else waiting s u)" for u
    using held unlock by (auto simp: waiting_def its_mutex_def owns_def enter_def fastsync_mutex_unlock_def)
  ultimately show ?thesis using kept_owner [OF kept] own unlock(1,3)
    by (auto simp: monitor_of_def its_mutex_def fun_eq_iff)
next
  case (futex_wait t c k cs)
  have w: "waiting s t = Some (Leaving c (arg s t) (low_seq (conds s c) - k))" using futex_wait by (simp add: waiting_def)
  have own: "holder (locks s (arg s t)) \<noteq> Some t"
    using inv_owns [OF cond_mutex(1) [OF inv(1)], of "arg s t" t] futex_wait(4) by (simp add: owns_def its_mutex_def)
  have kept: "owners_kept s s'" unfolding futex_wait(2) using kept_wake [OF futex_wait(4)]
    by (simp add: kept_locks)
  show ?thesis
  proof (cases "low_seq (conds s c) = k")
    case True
    then have "waiting s' u = (if u = t then Some (Sleeping c (arg s t)) else waiting s u)" for u
      using futex_wait(2) by (simp add: waiting_def its_mutex_def)
    with w own True kept_owner [OF kept] futex_wait(1) show ?thesis by (auto simp: monitor_of_def fun_eq_iff)
  next
    case False
    then have "waiting s' u = (if u = t then Some (Woken (arg s t)) else waiting s u)" for u
      using futex_wait(2) waiting_wake [OF futex_wait(3)] by simp
    with w own False kept_owner [OF kept] futex_wait(1) show ?thesis by (auto simp: monitor_of_def fun_eq_iff)
  qed
next
  case (relocked t c cs)
  have "monitor_of s' = monitor_of s" unfolding relocked(2)
    by (rule move_same)
      (use relocked waiting_leave [OF stack_place(3) [OF inv(1) relocked(3)]] in \<open>simp_all add: waiting_def owns_def kept_locks\<close>)
  with relocked show ?thesis by simp
next
  case (wake_waiter t c n cs u)
  have cs: "cs = []" using stack_place(4) [OF inv(1) wake_waiter(3)] by simp
  from wake_waiter(3,4) have "t \<noteq> u" by auto
  then have "stack (Cond.wake_waiter u s) t = [(c, SWake n)]" using wake_waiter(3) cs by simp
  from signal_same [OF this] wake_monitor [OF inv(1) wake_waiter(4)] wake_waiter cs
  show ?thesis by (simp add: monitor_of_def sleeps_waiting)
next
  case (wake_nobody t c n cs)
  have cs: "cs = []" using stack_place(4) [OF inv(1) wake_nobody(3)] by simp
  have "\<not> asleep c (stack s u)" for u using wake_nobody(4) asleep_out(2) [OF inv(1)] by blast
  with signal_same [of s t c n 0] wake_nobody cs show ?thesis by (simp add: monitor_of_def sleeps_waiting)
next
  case (requeue_some t c pl cs m u)
  note arg = bound_sleepers [OF inv(2), unfolded sleepers_bound_def, rule_format, OF requeue_some(3-5)]
  have t: "\<not> asleep c (stack s t)" using requeue_some(3,4) by auto
  have "waiting (requeue_waiters c m u s) t = None"
    using requeue_some(3,4) by (auto simp: waiting_def)
  moreover have "waiter_of C a own (fst (requeue_next c pl cs)) = None" for C a own
    using requeue_some(4) waiting_leave [OF stack_place(3) [OF inv(1) requeue_some(3)]] by auto
  ultimately have "monitor_of s' = monitor_of (requeue_waiters c m u s)" unfolding requeue_some(2)
    by (intro move_same) (simp_all add: kept_locks)
  with requeue_monitor [OF inv(1) requeue_some(6) arg] requeue_some show ?thesis
    by (simp add: monitor_of_def cong: if_cong)
next
  case (requeue_nobody t c pl cs m)
  have none: "\<not> asleep c (stack s u)" for u using requeue_nobody(6) asleep_out(2) [OF inv(1)] by blast
  have "waiting s t = None" using requeue_nobody(3,4) by (auto simp: waiting_def)
  moreover have "waiter_of C a own (fst (requeue_next c pl cs)) = None" for C a own
    using requeue_nobody(4) waiting_leave [OF stack_place(3) [OF inv(1) requeue_nobody(3)]] by auto
  ultimately have "monitor_of s' = monitor_of s" unfolding requeue_nobody(2)
    by (intro move_same) (simp_all add: kept_locks)
  with none requeue_nobody show ?thesis by (simp add: monitor_of_def sleeps_waiting)
next
  case (interrupted c u)
  with wake_monitor [OF inv(1) interrupted(3)] show ?thesis by (auto simp: monitor_of_def sleeps_waiting)
qed

section \<open>Safety of the monitor\<close>

text \<open>A waiter that sleeps, or is awake and after its mutex, does not own this mutex.\<close>

fun apart :: "(mid \<Rightarrow> tid option) \<Rightarrow> tid \<Rightarrow> waiter option \<Rightarrow> bool" where
  "apart own t (Some (Sleeping c m)) \<longleftrightarrow> own m \<noteq> Some t"
| "apart own t (Some (Woken m)) \<longleftrightarrow> own m \<noteq> Some t"
| "apart own t w \<longleftrightarrow> True"

definition monitor_inv :: "monitor \<Rightarrow> bool" where
  "monitor_inv a \<longleftrightarrow> (\<forall>t. apart (owner a) t (waiters a t))"

lemma apart_notified [simp]: "apart own t (notified x) = apart own t x"
  by (cases x rule: notified.cases) auto

lemma apart_changed [simp]: "apart own t (changed c n x) = apart own t x"
  by (cases "(c, n, x)" rule: changed.cases) auto

lemma apart_owner:
  "apart own t x \<Longrightarrow> apart (own(m := None)) t x"
  "apart own t x \<Longrightarrow> u = t \<longrightarrow> x = None \<Longrightarrow> apart (own(m := Some u)) t x"
  by (cases "(own, t, x)" rule: apart.cases; auto)+

lemma monitor_inv_step:
  assumes "monitor_inv a" and "monitor_step a x a'"
  shows "monitor_inv a'"
  unfolding monitor_inv_def
proof
  fix t
  have inv: "apart (owner a) u (waiters a u)" for u using assms(1) by (simp add: monitor_inv_def)
  show "apart (owner a') t (waiters a' t)"
    using assms(2) inv [of t]
    by (cases "(a, x, a')" rule: monitor_step.cases)
      (auto simp: fun_upd_def [of "waiters a"] intro: apart_owner split: option.splits waiter.splits if_splits)
qed

interpretation cond_monitor: specified csys_init cstep cond_all_inv monitor_init monitor_step monitor_of monitor_move monitor_inv
proof unfold_locales
  show "monitor_init (monitor_of s)" if "csys_init s" for s
    using that mutex_safe.abs_start by (auto simp: csys_init_def monitor_init_def monitor_of_def waiting_def)
  show "monitor_step (monitor_of s) (monitor_move s e s') (monitor_of s')" if "cond_all_inv s" "cstep s e s'" for s e s'
    using that monitor_step_of by (simp add: cond_all_inv_def)
  show "monitor_inv a" if "monitor_init a" for a using that by (simp add: monitor_init_def monitor_inv_def)
qed (rule monitor_inv_step)

end
