(* ===== verification/Cond_Log.thy ===== *)
theory Cond_Log imports Cond_Inv Log begin

text \<open>
  What \<open>fastsync_cond_wait\<close> logs: the line of the debug build when it is about to bind a
  condition variable to its mutex, and the errors of a wait with another mutex. The messages
  go with the accesses of Cond.thy and do not change what these do.
\<close>

section \<open>The messages\<close>

text \<open>Where the objects are in memory.\<close>

record addresses =
  cond_addr :: "cid \<Rightarrow> u64"
  mutex_addr :: "mid \<Rightarrow> u64"

text \<open>The message of the code between the access at a place and the next one, for a call of wait
  at c with the mutex m: the first error prints the value of \<open>cond->mutex\<close>, which is read once
  more, the second one what the compare-and-exchange has found.\<close>

fun wait_message :: "log_env \<Rightarrow> addresses \<Rightarrow> cid \<Rightarrow> mid \<Rightarrow> cplace \<Rightarrow> fastsync_cond \<Rightarrow> log_state \<Rightarrow> log_state option" where
  "wait_message env ad c m WMutex2 r l = (case cmutex r of
     Some k \<Rightarrow> LOGERR env ''fastsync_cond_wait'' (''cond->mutex is %p, input mutex is %p'' @ nl)
       [Ptr (mutex_addr ad k), Ptr (mutex_addr ad m)] l
   | None \<Rightarrow> DPRINTF env ''fastsync_cond_wait'' (''reset the mutex with %p in cond %p'' @ nl)
       [Ptr (mutex_addr ad m), Ptr (cond_addr ad c)] l)"
| "wait_message env ad c m WCas r l = (case cmutex r of
     Some k \<Rightarrow> LOGERR env ''fastsync_cond_wait'' (''old mutex is NULL?: %p, input mutex is'' @ nl)
       [Ptr (mutex_addr ad k), Ptr (mutex_addr ad m)] l
   | None \<Rightarrow> Some l)"
| "wait_message env ad c m pl r l = Some l"

text \<open>The log of a step of the system.\<close>

fun step_message :: "log_env \<Rightarrow> addresses \<Rightarrow> csys \<Rightarrow> cevent \<Rightarrow> log_state \<Rightarrow> log_state option" where
  "step_message env ad s (CInstr t) l = (case stack s t of [] \<Rightarrow> Some l
     | (c, pl) # cs \<Rightarrow> wait_message env ad c (arg s t) pl (conds s c) l)"
| "step_message env ad s e l = Some l"

section \<open>What is logged\<close>

lemma formatted_ptr [simp]:
  "formatted (CHR ''%'' # CHR ''p'' # fmt) (Ptr p # args) = map_option (\<lambda>t. show_ptr (unat p) @ t) (formatted fmt args)"
  by simp

text \<open>The text of the errors; the second one has no conversion for the mutex of the wait.\<close>

definition mismatch_text :: "addresses \<Rightarrow> mid \<Rightarrow> mid \<Rightarrow> cplace \<Rightarrow> string" where
  "mismatch_text ad k m pl =
     (if pl = WMutex2 then ''cond->mutex is '' @ show_ptr (unat (mutex_addr ad k)) @ '', input mutex is '' @
        show_ptr (unat (mutex_addr ad m)) @ nl
      else ''old mutex is NULL?: '' @ show_ptr (unat (mutex_addr ad k)) @ '', input mutex is'' @ nl)"

lemma wait_message_mismatch:
  assumes "pl = WMutex2 \<or> pl = WCas" and "cmutex r = Some k"
  shows "wait_message env ad c m pl r l = Some (tell env (''fastsync_cond_wait: '' @ mismatch_text ad k m pl) l)"
  using assms by (auto simp: mismatch_text_def LOGERR_tell)

text \<open>An access that ends a call of wait with 2 logs the two mutexes, or the one that is bound;
  no other access logs an error.\<close>

lemma wait_refused_logged:
  assumes "cond_instr m pl r = Some (r', g)"
  shows "g = Return 2 \<longleftrightarrow> (\<exists>k. cmutex r = Some k \<and> (pl = WMutex2 \<or> pl = WCas))"
  using assms by (cases pl) (auto simp: Let_def split: if_splits option.splits)

lemma wait_message_defined: "\<exists>l'. wait_message env ad c m pl r l = Some l'"
  by (cases pl) (auto simp: LOGERR_tell DPRINTF_tell split: option.splits)

lemma step_message_silent:
  assumes "cond_instr m pl r = Some (r', g)" and "g \<noteq> Return 2" and "\<not> debug env"
  shows "wait_message env ad c m pl r l = Some l"
  using assms by (cases pl) (auto simp: Let_def DPRINTF_def split: if_splits option.splits)

text \<open>When a wait returns 2, the log names the mutex the condition variable is bound to.\<close>

lemma cond_wait_refused:
  assumes "cstep s e s'" and "stack s t = [(c, pl)]" and "\<not> signalling pl" and "stack s' t = []" and "crets s' t = Some 2"
  shows "\<exists>k. cmutex (conds s c) = Some k \<and>
    step_message env ad s e l = Some (tell env (''fastsync_cond_wait: '' @ mismatch_text ad k (arg s t) pl) l)"
  using assms(1)
proof cases
  case (cinstr u d pl' cs r g)
  with assms(2,4) have eq: "u = t" "d = c" "pl' = pl" "cs = []" by (auto split: if_splits)
  have "g = Return 2" using cinstr(2) assms(5) eq by (cases g) auto
  with wait_refused_logged [of "arg s t" pl "conds s c" r g] cinstr(4) eq
  obtain k where k: "cmutex (conds s c) = Some k" "pl = WMutex2 \<or> pl = WCas" by auto
  with wait_message_mismatch [OF k(2,1)] assms(2) cinstr(1) eq show ?thesis by auto
qed (use assms(2-5) in \<open>auto simp: outside_def begin_call_def signal_done_def move_def Cond.wake_waiter_def requeue_waiters_def
      split: if_splits sum.splits\<close>)

end
