(* ===== verification/Cond_Props.thy ===== *)
theory Cond_Props imports Cond_Broadcast Cond_Runs Cond_Spec Cond_Log begin

text \<open>
  What the condition variables promise, in every reachable state of any number of threads,
  mutexes and condition variables in any tree: the code of wait runs with the mutex held and
  returns with it, signal wakes one waiter, broadcast leaves nobody behind, at the root of a
  tree nobody in the whole tree, nobody is lost
  in the queue of a mutex, the threads of a node are represented by one, and nobody waits for
  ever for anything but a signal or the thread that holds the mutex.
\<close>

section \<open>The mutex around a wait\<close>

lemma reach_cond:
  assumes "cond_reach s"
  shows "cond_inv s" and "tree_inv s" and "bind_inv s"
  using cond_safe.reach_inv [OF assms] by (simp_all add: cond_all_inv_def)

text \<open>The places in front of an access of wait to the condition variable that is not atomic: those
  behind the checks, and the two reads of \<open>cond->mutex\<close> in the checks.\<close>

definition non_atomic :: "cplace \<Rightarrow> bool" where
  "non_atomic pl \<longleftrightarrow> guarded pl \<or> pl = WMutex \<or> pl = WMutex2"

text \<open>C27: the accesses of wait to a condition variable that are not atomic are critical
  sections. A thread in front of one, also of one of the two reads of \<open>cond->mutex\<close>, holds the
  mutex of its wait, is the only owner of that mutex, and is the only thread in front of such
  an access in a wait with that mutex, at any condition variable. Behind the checks of
  \<open>cond->mutex\<close> the condition variable is moreover bound to the mutex, and no other thread,
  whatever mutex it passes, is behind the checks of the same condition variable in front of
  such an access.\<close>

theorem cond_guarded:
  assumes "cond_reach s" and "stack s t = (c, pl) # cs" and "non_atomic pl"
  shows "pcs (its_mutex s t) t = Held \<and> {u. owns (its_mutex s t) u} = {t} \<and>
    {u. arg s u = arg s t \<and> (\<exists>d pl' ds. stack s u = (d, pl') # ds \<and> non_atomic pl')} = {t} \<and>
    (guarded pl \<longrightarrow> cmutex (conds s c) = Some (arg s t) \<and>
      {u. \<exists>pl' ds. stack s u = (c, pl') # ds \<and> guarded pl'} = {t})"
proof -
  note inv = reach_cond(1,3) [OF assms(1)]
  have at: "guarded pl' \<or> checking_mutex pl'" if "non_atomic pl'" for pl' using that by (auto simp: non_atomic_def)
  have held: "pcs (its_mutex s t) t = Held" using guarded_held [OF inv(1) assms(2) at [OF assms(3)]] by (simp add: its_mutex_def)
  then have own: "owns (its_mutex s t) t" by (simp add: owns_def)
  have "{u. owns (its_mutex s t) u} = {t}" using one_owner [OF inv(1)] own by (auto simp: its_mutex_def)
  moreover have "{u. arg s u = arg s t \<and> (\<exists>d pl' ds. stack s u = (d, pl') # ds \<and> non_atomic pl')} = {t}"
    using one_of_mutex [OF inv(1) assms(2) at [OF assms(3)] _ at] assms(2,3) by (auto dest: sym)
  moreover have "cmutex (conds s c) = Some (arg s t)" if "guarded pl"
    using bind_invD [OF inv(2) assms(2)] that by (cases pl) auto
  moreover have "{u. \<exists>pl' ds. stack s u = (c, pl') # ds \<and> guarded pl'} = {t}" if "guarded pl"
    using one_guarded [OF inv assms(2) that] assms(2) that by blast
  ultimately show ?thesis using held by blast
qed

text \<open>Thread 0 before its first read of \<open>cond->mutex\<close>, and at the test of \<open>use_child\<close>.\<close>

theorem cond_guarded_witness:
  "stack (after_run (take 3 wait_0)) 0 = [(0, WMutex)] \<and> {u. owns (its_mutex (after_run (take 3 wait_0)) 0) u} = {0} \<and>
   {u. \<exists>pl ds. stack (after_run (take 6 wait_0)) u = (0, pl) # ds \<and> guarded pl} = {0} \<and>
   cmutex (conds (after_run (take 6 wait_0)) 0) = Some 0"
proof -
  have "exec cnext csys0 (take 3 wait_0) \<noteq> None" and st: "stack (after_run (take 3 wait_0)) 0 = [(0, WMutex)]"
    by (simp_all add: runs_c)
  note first = cond_guarded [OF after_run_reach [OF this(1)] st]
  have run: "exec cnext csys0 (take 6 wait_0) \<noteq> None" "stack (after_run (take 6 wait_0)) 0 = [(0, WChild)]"
    "arg (after_run (take 6 wait_0)) 0 = 0"
    by (simp_all add: runs_c)
  from cond_guarded [OF after_run_reach [OF run(1)] run(2)] run(3) first st show ?thesis by (simp add: non_atomic_def)
qed

text \<open>C28: a wait returns with the mutex held: 0 when the condition variable is bound to the
  mutex, and 2, at once, when it is bound to another one; then that mutex is named in the log.\<close>

theorem cond_wait_returns:
  assumes "cond_reach s" and "cstep s e s'" and "stack s t = [(c, pl)]" and "\<not> signalling pl"
    and "stack s' t = []"
  shows "(pcs (its_mutex s' t) t = Held \<and> cmutex (conds s c) \<noteq> None \<and>
    crets s' t = Some (if cmutex (conds s c) = Some (arg s t) then 0 else 2)) \<and>
    (crets s' t = Some 2 \<longrightarrow> (\<exists>k. cmutex (conds s c) = Some k \<and>
      step_message env ad s e l = Some (tell env (''fastsync_cond_wait: '' @ mismatch_text ad k (arg s t) pl) l)))"
    (is "?ret \<and> ?log")
proof
  show ?log using cond_wait_refused [OF assms(2-5)] by blast
  note inv = reach_cond(1) [OF assms(1)]
  note place = stack_place(2) [OF inv assms(3)]
  note bound = bind_invD [OF reach_cond(3) [OF assms(1)] assms(3)]
  from assms(2) show ?ret
  proof cases
    case (cinstr u d pl' cs r g)
    with assms(3,5) have t: "u = t" by (auto split: if_splits)
    with cinstr assms(3) have eq: "d = c" "pl' = pl" "cs = []" by auto
    from assms(5) cinstr t eq obtain r' where g: "g = Return r'"
      by (cases g) auto
    then have "pcs (its_mutex s t) t = Held \<and> cmutex (conds s c) \<noteq> None \<and>
        r' = (if cmutex (conds s c) = Some (arg s t) then 0 else 2)"
      using cinstr(4) eq assms(3,4) t bound place by (cases pl) (auto simp: Let_def split: if_splits option.splits)
    with cinstr t eq g show ?ret by (simp add: its_mutex_def)
  next
    case (relocked u d cs)
    with assms(3,5) have t: "u = t" by (auto split: if_splits)
    with relocked assms(3) bound show ?ret by (auto simp: its_mutex_def)
  next
    case (wake_waiter u d n cs v)
    with assms(3-5) show ?ret by (auto split: if_splits)
  next
    case (requeue_some u d pl' cs m v)
    with assms(3-5) show ?ret by (auto split: if_splits)
  next
    case (interrupted d u)
    with assms(3,5) show ?ret by (auto split: if_splits)
  qed (use assms(3-5) in \<open>auto simp: outside_def begin_call_def split: if_splits sum.splits\<close>)
qed

theorem cond_wait_returns_witness:
  "\<exists>s'. cstep (after_run return_0) (Relocked 0) s' \<and> stack s' 0 = [] \<and> crets s' 0 = Some 0 \<and>
     pcs (its_mutex s' 0) 0 = Held"
proof -
  let ?s = "after_run return_0"
  let ?s' = "move 0 (leave 0 []) ?s"
  have r: "cond_reach ?s" using return_0_run by (intro after_run_reach) simp
  have "arg ?s 0 = 0" "cmutex (conds ?s 0) = Some 0" by (simp_all add: runs_c)
  moreover have step: "cstep ?s (Relocked 0) ?s'"
    using return_0_run calculation by (intro cstep.relocked [of _ _ 0]) (simp_all add: its_mutex_def)
  ultimately show ?thesis
    using cond_wait_returns [OF r step, of 0 0 WLock] return_0_run by (intro exI [of _ ?s']) simp
qed

text \<open>C30: no wake-up of a mutex is lost with the waiters that broadcast moves to its queue
  although they never marked the mutex as contended: when a thread sleeps in the queue of a
  mutex and nobody owns it, somebody is on the way to wake it or to the exchange that does.\<close>

theorem cond_no_lost_wakeup:
  assumes "cond_reach s" and "pcs (locks s m) u = LSleep" and "holder (locks s m) = None"
  shows "\<exists>t < cthreads s. unlocking (pcs (locks s m) t) \<or> waking (pcs (locks s m) t)"
proof -
  note mi = cond_mutex [OF reach_cond(1) [OF assms(1)], of m]
  then obtain h where h: "held_by h (locks s m)" and wake: "wake_inv (locks s m)" by (auto simp: mutex_inv_def)
  from holder_held [OF h] assms(3) have "h = None" by simp
  with h have "word_of (locks s m) AND 1 = 0" by (simp add: held_by_def)
  then have "word_of (locks s m) \<noteq> 3" by auto
  with wake assms(2) obtain t where t: "unlocking (pcs (locks s m) t) \<or> waking (pcs (locks s m) t)"
    by (auto simp: wake_inv_def wake_ok_def sleeping_def)
  then have "pcs (locks s m) t \<noteq> Out" by (auto simp: waking_def)
  then have "t < threads (locks s m)" using held_out [OF h, of t] by (cases "t < threads (locks s m)") auto
  with t mi(2) show ?thesis by auto
qed

text \<open>After a broadcast to two waiters and an unlock, one is in the queue of the free mutex and
  the other on the way to it.\<close>

theorem cond_no_lost_wakeup_witness:
  "pcs (locks (after_run two_back) 0) 2 = LSleep \<and> holder (locks (after_run two_back) 0) = None \<and>
   (\<exists>t < 3. unlocking (pcs (locks (after_run two_back) 0) t) \<or> waking (pcs (locks (after_run two_back) 0) t))"
proof -
  have r: "cond_reach (after_run two_back)" using two_back_run by (intro after_run_reach) simp
  from cond_mutex(1) [OF reach_cond(1) [OF r], of 0] obtain h where h: "held_by h (locks (after_run two_back) 0)"
    by (auto simp: mutex_inv_def)
  with two_back_run have "h = None" by (simp add: held_by_def)
  with holder_held [OF h] have free: "holder (locks (after_run two_back) 0) = None" by simp
  with cond_no_lost_wakeup [OF r _ free, of 2] two_back_run show ?thesis by simp
qed

section \<open>The monitor\<close>

text \<open>C29: the condition variables refine a monitor: mutexes have owners; a wait joins the waiters
  while it still owns its mutex and then gives it back; a waiter goes to sleep only when its
  condition variable has not been announced a change since it joined (modulo 2^32); a signal
  wakes one sleeper or there is none, a broadcast (and the release of a node) wakes all, and a
  waiter comes back by taking its mutex while nobody owns it. Every step of the code, in any
  tree, is such a step or changes nothing of the monitor, so a reachable state of the code
  stands for a state the monitor can reach.\<close>

theorem cond_refinement:
  assumes "cond_reach s" and "cstep s e s'"
  shows "reach monitor_init monitor_step (monitor_of s) \<and>
    monitor_step (monitor_of s) (monitor_move s e s') (monitor_of s')"
  using cond_monitor.reach_abs [OF assms(1)] cond_monitor.reach_abs_step [OF assms] by blast

text \<open>Thread 0 reads the sequence number inside a wait.\<close>

theorem cond_refinement_witness:
  "\<exists>s'. cstep (after_run (take 7 wait_0)) (Unlock 0) s' \<and>
     monitor_step (monitor_of (after_run (take 7 wait_0))) (Joins 0 0 0) (monitor_of s')"
proof -
  let ?s = "after_run (take 7 wait_0)" and ?s' = "after_run (take 8 wait_0)"
  have r: "cond_reach ?s" by (rule after_run_reach) (simp add: runs_c)
  have s': "cnext ?s (Unlock 0) = Some ?s'" by (simp add: runs_c)
  have "stack ?s 0 = [(0, WSeq)]" "arg ?s 0 = 0" by (simp_all add: runs_c)
  then have m: "monitor_move ?s (Unlock 0) ?s' = Joins 0 0 0" by simp
  from s' have step: "cstep ?s (Unlock 0) ?s'" by (simp only: cnext_cstep)
  with cond_refinement [OF r step] show ?thesis unfolding m by blast
qed

section \<open>Signal and broadcast\<close>

text \<open>The FUTEX_REQUEUE of a broadcast (and of the thread that stands for a node) reaches
  every sleeper of the condition variable: afterwards nobody sleeps on it; one of them is
  awake in front of the exchange on their mutex and all others are in its queue; only if there
  was none, none is woken. All other places, and the other mutexes, are unchanged.\<close>

theorem cond_requeue_all:
  assumes "cstep s (FutexRequeue t w) s'" and "stack s t = (c, pl) # cs" and "cond_reach s"
  shows "\<exists>m. cmutex (conds s c) = Some m \<and> {u. asleep c (stack s' u)} = {} \<and>
    (w = None \<longleftrightarrow> {u. asleep c (stack s u)} = {}) \<and> set_option w \<subseteq> {u. asleep c (stack s u)} \<and>
    (\<forall>m'. m' \<noteq> m \<longrightarrow> locks s' m' = locks s m') \<and>
    (\<forall>u. pcs (locks s' m) u = (if w = Some u then LXchg
       else if asleep c (stack s u) then LSleep else pcs (locks s m) u))"
  using assms(1)
proof cases
  case (requeue_some d pl' ds m u)
  with assms(2) have eq: "d = c" "pl' = pl" "ds = cs" by auto
  have t: "\<not> asleep c (stack s t)" using assms(2) requeue_some eq by (auto simp: asleep_iff)
  have m: "cmutex (conds s c) = Some m"
    using requeue_some(4,5) bind_invD [OF reach_cond(3) [OF assms(3)] assms(2)] eq
    by (auto simp: requeue_to_def split: if_splits)
  have "\<not> asleep c (stack s' v)" for v
  proof (cases "v = t")
    case True
    show ?thesis using requeue_some eq True by (cases cs) (auto simp: asleep_iff)
  next
    case False
    have "\<not> asleep c (awakened xs)" for xs by (cases xs) (auto simp: asleep_iff)
    with False requeue_some eq show ?thesis by simp
  qed
  with requeue_some eq t m show ?thesis
    by (auto simp: requeue_waiters_def requeue_def)
next
  case (requeue_nobody d pl' ds m)
  with assms(2) have eq: "d = c" "pl' = pl" "ds = cs" by auto
  have m: "cmutex (conds s c) = Some m"
    using requeue_nobody(4,5) bind_invD [OF reach_cond(3) [OF assms(3)] assms(2)] eq
    by (auto simp: requeue_to_def split: if_splits)
  have none: "\<not> asleep c (stack s v)" for v
    using requeue_nobody eq asleep_out(2) [OF reach_cond(1) [OF assms(3)], of c v] by auto
  have "\<not> asleep c (stack s' v)" for v
    using requeue_nobody eq none [of v] by (cases "v = t"; cases cs) (auto simp: asleep_iff)
  with requeue_nobody none m show ?thesis by simp
qed

theorem cond_requeue_all_witness:
  "\<exists>s'. cstep (after_run two_wait) (FutexRequeue 1 (Some 0)) s' \<and> {u. asleep 0 (stack s' u)} = {} \<and>
     pcs (locks s' 0) 0 = LXchg \<and> pcs (locks s' 0) 2 = LSleep"
proof -
  let ?s = "after_run two_wait"
  let ?s' = "move 1 (requeue_next 0 BRequeue []) (requeue_waiters 0 0 0 ?s)"
  have r: "cond_reach ?s" using two_wait_run by (intro after_run_reach) simp
  have m: "cmutex (conds ?s 0) = Some 0" by (simp add: runs_c)
  have step: "cstep ?s (FutexRequeue 1 (Some 0)) ?s'"
    using two_wait_run m by (intro cstep.requeue_some) (simp_all add: requeue_to_def)
  have "stack ?s 1 = [(0, BRequeue)]" using two_wait_run by simp
  from cond_requeue_all [OF step this r] obtain m' where m': "cmutex (conds ?s 0) = Some m'"
    and none: "{u. asleep 0 (stack ?s' u)} = {}"
    and all: "\<forall>u. pcs (locks ?s' m') u = (if Some 0 = Some u then LXchg
      else if asleep 0 (stack ?s u) then LSleep else pcs (locks ?s m') u)" by blast
  from m m' have "m' = 0" by simp
  note at = all [rule_format, unfolded this]
  have "pcs (locks ?s' 0) 0 = LXchg" "pcs (locks ?s' 0) 2 = LSleep"
    unfolding at using two_wait_run by simp_all
  with step none show ?thesis by blast
qed

text \<open>C31: a signal wakes exactly one sleeper if there is one: it leaves the condition
  variable and stands in front of the exchange on its mutex, all others sleep on; and
  signal_count stores how many were woken.\<close>

theorem cond_signal_one:
  assumes "cstep s (FutexWake t w) s'" and "stack s t = (c, SWake n) # cs" and "cond_reach s"
  shows "(w = None \<longleftrightarrow> {u. asleep c (stack s u)} = {}) \<and>
    {u. asleep c (stack s' u)} = {u. asleep c (stack s u)} - set_option w \<and>
    set_option w \<subseteq> {u. asleep c (stack s u) \<and> pcs (its_mutex s' u) u = LXchg} \<and>
    woken s' t = (if n then (if w = None then 0 else 1) else woken s t)"
  using assms(1)
proof cases
  case (wake_waiter d n' ds u)
  with assms(2) have eq: "d = c" "n' = n" "ds = cs" by auto
  obtain k es where u: "stack s u = (c, WSleep k) # es" using wake_waiter eq by (auto simp: asleep_iff)
  have "t \<noteq> u" using u assms(2) by auto
  moreover have "\<not> asleep c (fst (leave 0 cs))" by (cases cs) (auto simp: asleep_iff)
  moreover have "asleep c (stack s t) = False" using assms(2) by (simp add: asleep_iff)
  moreover have "{v. asleep c (stack s v)} \<noteq> {}" using u by (auto simp: asleep_iff)
  ultimately show ?thesis
    using wake_waiter eq u
    by (auto simp: signal_done_def Cond.wake_waiter_def join_def its_mutex_def move_def split: if_splits)
next
  case (wake_nobody d n' ds)
  with assms(2) have eq: "d = c" "n' = n" "ds = cs" by auto
  have none: "\<not> asleep c (stack s v)" for v
    using wake_nobody eq asleep_out(2) [OF reach_cond(1) [OF assms(3)], of c v] by auto
  moreover have "\<not> asleep c (fst (leave 0 cs))" by (cases cs) (auto simp: asleep_iff)
  ultimately show ?thesis
    using wake_nobody eq by (auto simp: signal_done_def move_def)
qed

theorem cond_signal_one_witness:
  "\<exists>s'. cstep (after_run signal_1) (FutexWake 1 (Some 0)) s' \<and> {u. asleep 0 (stack s' u)} \<inter> {0} = {} \<and>
     pcs (locks s' 0) 0 = LXchg \<and> woken s' 1 = 1"
proof -
  let ?s = "after_run signal_1"
  let ?s' = "signal_done 1 True 1 [] (Cond.wake_waiter 0 ?s)"
  have r: "cond_reach ?s" using signal_1_run by (intro after_run_reach) simp
  have step: "cstep ?s (FutexWake 1 (Some 0)) ?s'"
    using signal_1_run by (intro cstep.wake_waiter) simp_all
  have arg: "its_mutex ?s' 0 = locks ?s' 0" by (simp add: its_mutex_def) (simp add: runs_c)
  have "stack ?s 1 = [(0, SWake True)]" using signal_1_run by simp
  note woke = cond_signal_one [OF step this r]
  have "{u. asleep 0 (stack ?s' u)} \<inter> {0} = {}" using woke by auto
  moreover have "pcs (locks ?s' 0) 0 = LXchg" using woke arg by auto
  moreover have "woken ?s' 1 = 1" using woke by simp
  ultimately show ?thesis using step by blast
qed

text \<open>C32: no signal is missed by a thread that is about to sleep. When \<open>seq\<close> of a condition
  variable has been changed at least once (by signals, broadcasts or the thread that stands
  for the node), and less than 2^32 times, since the thread has read it with the mutex held,
  its FUTEX_WAIT returns at once, also when the increment that is not atomic has overwritten
  others.\<close>

theorem cond_no_missed_signal:
  assumes "cond_reach s" and "stack s t = (c, WSeq) # cs" and "exec cnext s (Unlock t # es) = Some s'"
    and "0 < count_bumps c s (Unlock t # es)" and "count_bumps c s (Unlock t # es) < 2 ^ 32"
    and "stack s' t = (c, WUnlock (low_seq (conds s c))) # ds" and "cstep s' (FutexWait t) s''"
  shows "stack s'' t = (c, WLock) # ds \<and> pcs (its_mutex s'' t) t = LXchg"
proof -
  let ?K = "cseq (conds s c)"
  note inv = cond_safe.reach_inv [OF assms(1)]
  have "since c ?K (0 + count_bumps c s (Unlock t # es)) s'"
    by (rule count_invariant [where Q = "since c ?K" and c = c, OF _ inv assms(3) since_start [OF inv assms(2)]])
      (rule since_step)
  from since_low [OF this] assms(4,5) have "low_seq (conds s' c) \<noteq> low_seq (conds s c)"
    by (simp add: low_seq_def)
  with assms(6,7) show ?thesis
    by (auto simp: cstep.simps Cond.wake_waiter_def join_def its_mutex_def)
qed

theorem cond_no_missed_signal_witness:
  "\<exists>s' s''. exec cnext (after_run (take 7 wait_0)) (Unlock 0 # early_signal) = Some s' \<and>
     cstep s' (FutexWait 0) s'' \<and> stack s'' 0 = [(0, WLock)]"
proof -
  let ?s = "after_run (take 7 wait_0)" and ?es = "Unlock 0 # early_signal"
  let ?s' = "the (exec cnext ?s ?es)"
  have r: "cond_reach ?s" by (rule after_run_reach) (simp add: runs_c)
  have at: "stack ?s 0 = [(0, WSeq)]" by (simp add: runs_c)
  have "exec cnext ?s ?es \<noteq> None" by (simp add: runs_c)
  then have run: "exec cnext ?s ?es = Some ?s'" by auto
  have bumps: "count_bumps 0 ?s ?es = 1" by (simp add: runs_c)
  have here: "stack ?s' 0 = [(0, WUnlock (low_seq (conds ?s 0)))]" "pcs (its_mutex ?s' 0) 0 = Out"
    by (simp_all add: runs_c)
  obtain s'' where step: "cstep ?s' (FutexWait 0) s''" using cstep.futex_wait [OF here] by blast
  from cond_no_missed_signal [OF r at run _ _ here(1) step] bumps run step show ?thesis by auto
qed

section \<open>The tree\<close>

text \<open>C33: every condition variable is represented at its parent by at most one thread, and
  \<open>use_child\<close> is 1 exactly while there is one, from the thread's call for the parent until it
  has released the other waiters; a thread represents a condition variable once.\<close>

theorem cond_one_representative:
  assumes "cond_reach s"
  shows "\<exists>w. {t. c \<in> set (reps (stack s t))} = set_option w \<and>
    use_child (conds s c) = (if w = None then 0 else 1) \<and> distinct (reps (stack s t))"
proof (cases "\<exists>t. c \<in> set (reps (stack s t))")
  case True
  then obtain u where u: "c \<in> set (reps (stack s u))" by blast
  have "set (reps (stack s u)) \<inter> set (reps (stack s v)) = {}" if "v \<noteq> u" for v
    using reach_cond(2) [OF assms] that unfolding tree_inv_def by metis
  with u have "{t. c \<in> set (reps (stack s t))} = {u}" by blast
  with True reach_cond(2) [OF assms] show ?thesis
    by (intro exI [of _ "Some u"]) (auto simp: tree_inv_def)
next
  case False
  with reach_cond(2) [OF assms] show ?thesis by (intro exI [of _ None]) (auto simp: tree_inv_def)
qed

theorem cond_one_representative_witness:
  "{t. 1 \<in> set (reps (stack (after_run child_0) t))} = {0} \<and> use_child (conds (after_run child_0) 1) = 1"
proof -
  have r: "cond_reach (after_run child_0)" using child_0_run by (intro after_run_reach) simp
  from cond_one_representative [OF r, of 1 0] obtain w where
    w: "{t. 1 \<in> set (reps (stack (after_run child_0) t))} = set_option w"
      "use_child (conds (after_run child_0) 1) = (if w = None then 0 else 1)" by blast
  have "0 \<in> {t. 1 \<in> set (reps (stack (after_run child_0) t))}" using child_0_run by simp
  then have "w = Some 0" unfolding w(1) by simp
  with w show ?thesis by simp
qed

text \<open>C34: a signal to a condition variable does not reach the thread that waits for it at the
  parent: that thread sleeps on, also when it is the only waiter and nobody is woken.\<close>

theorem signal_misses_representative:
  assumes "cstep s (FutexWake t w) s'" and "stack s t = (c, SWake n) # cs"
    and "stack s u = (p, WSleep k) # (c, WParent) # ds" and "p \<noteq> c"
  shows "w \<noteq> Some u \<and> stack s' u = stack s u \<and> pcs (its_mutex s' u) u = pcs (its_mutex s u) u"
  using assms(1)
proof cases
  case (wake_waiter d n' es v)
  with assms(2-4) have "v \<noteq> u" "t \<noteq> u" by auto
  with wake_waiter show ?thesis by (auto simp: Cond.wake_waiter_def join_def its_mutex_def)
next
  case (wake_nobody d n' es)
  with assms(2-4) show ?thesis by (auto simp: its_mutex_def)
qed

theorem signal_misses_representative_witness:
  "\<exists>s'. cstep (after_run child_signal) (FutexWake 1 None) s' \<and> stack s' 1 = [] \<and> crets s' 1 = Some 0 \<and>
     stack s' 0 = [(0, WSleep 0), (1, WParent)]"
proof -
  let ?s = "after_run child_signal"
  let ?s' = "signal_done 1 False 0 [] ?s"
  have "\<forall>u < cthreads ?s. \<not> asleep 1 (stack ?s u)"
    using child_signal_run by (auto simp: less_Suc_eq numeral_3_eq_3 numeral_2_eq_2)
  then have step: "cstep ?s (FutexWake 1 None) ?s'"
    using child_signal_run by (intro cstep.wake_nobody [where c = 1 and n = False and cs = "[]"]) blast+
  from signal_misses_representative [OF step, of 1 False "[]" 0 0 0 "[]"] child_signal_run step
  show ?thesis by (intro exI [of _ ?s']) (simp add: signal_done_def)
qed


text \<open>C35: nobody is left asleep at a condition variable with a parent. As long as its \<open>seq\<close>
  has been changed less than 2^32 times, whenever a thread sleeps there some thread is in its
  wait at the parent on behalf of the node, or back from it and about to release the sleepers;
  so a broadcast at the root reaches all waiters of the tree.\<close>

theorem cond_sleepers_represented:
  assumes "csys_init s0" and "exec cnext s0 es = Some s" and "count_bumps c s0 es < 2 ^ 32"
    and "parent (conds s c) \<noteq> None" and "asleep c (stack s u)"
  shows "\<exists>t < cthreads s. holding c (stack s t)"
  using assms by (rule represented)

theorem cond_sleepers_represented_witness:
  "asleep 1 (stack (after_run child_2) 2) \<and> (\<exists>t < cthreads (after_run child_2). holding 1 (stack (after_run child_2) t))"
proof -
  have run: "exec cnext csys0 child_2 = Some (after_run child_2)" using child_2_run by (auto simp: after_run_def)
  from cond_sleepers_represented [OF csys0_init run, of 1 2] child_2_run show ?thesis by simp
qed

text \<open>C36: a broadcast at the root of a tree, made with the mutex of the root held, releases every
  waiter of the tree. When afterwards nothing can move and nobody holds a mutex any more, and
  meanwhile no wait has been called and no sequence number changed 2^32 times, then no thread
  is inside a call at a condition variable of the tree.\<close>

theorem cond_broadcast_wakes_all:
  assumes "csys_init s0" and "exec cnext s0 es = Some s"
    and "stack s b = [(r, BAdd)]" and "parent (conds s r) = None" and "cmutex (conds s r) = Some m"
    and "pcs (locks s m) b = Held"
    and "exec cnext s (CInstr b # ds) = Some s'" and "\<forall>e\<in>set ds. no_wait e"
    and "\<forall>d. count_bumps d s0 (es @ CInstr b # ds) < 2 ^ 32"
    and "\<not> (\<exists>e s''. in_code e \<and> cstep s' e s'')" and "\<forall>k t. pcs (locks s' k) t \<noteq> Held"
  shows "\<not> (\<exists>t c pl cs. stack s' t = (c, pl) # cs \<and> (c, r) \<in> (up s')\<^sup>*)"
proof -
  have run: "exec cnext s0 (es @ CInstr b # ds) = Some s'" using assms(2,7) by (simp add: exec_append)
  note start = cond_safe.inv_start [OF assms(1)]
  have reach: "cond_reach s" "cond_reach s'"
    using cond_run.exec_reach [OF reach_start, of csys_init s0] assms(1,2) run by blast+
  note inv = cond_safe.reach_inv [OF reach(1)] and ci' = reach_cond [OF reach(2)]
  let ?n = "count_bumps r s0 es"
  obtain s1 where n1: "cnext s (CInstr b) = Some s1" and "exec cnext s1 ds = Some s'"
    using assms(7) by (cases "cnext s (CInstr b)") auto
  then have s1: "cstep s (CInstr b) s1" "exec cnext s1 ds = Some s'" by (simp_all only: cnext_cstep)
  have one: "bumps r s (CInstr b) = 1" using assms(3) by simp
  have n: "?n + 1 + count_bumps r s1 ds < 2 ^ 32"
    using spec [OF assms(9), of r] count_bumps_append [OF assms(2), of r "CInstr b # ds"] one n1
    by (simp del: bumps.simps cnext.simps)
  then have root: "root_inv r ?n s" using root_inv_run [OF assms(1,2,4)] by simp
  from root_inv_step [OF inv s1(1) root] one n have root1: "root_inv r (?n + 1) s1" by simp
  have rel: "released r m b ?n s'" and root': "root_inv r (?n + 1 + count_bumps r s1 ds) s'"
    using released_run [OF cond_safe.inv_step [OF inv s1(1)] root1 released_start [OF inv assms(3,6,5) root s1(1)]
        _ s1(2) assms(8) n] by simp_all
  have rest: "asleep c (stack s' u)" if "stack s' u = (c, pl) # cs" for u c pl cs
    using stuck_waits [OF ci'(1,3) assms(10) that] assms(11) by (auto simp: its_mutex_def)
  have none: "\<not> asleep r (stack s' u)" for u
  proof
    assume "asleep r (stack s' u)"
    with releasedD(4) [OF rel] obtain pl where "stack s' b = [(r, pl)]" "pl = BMutex \<or> pl = BRequeue"
      by (auto simp: broadcasting_def)
    with rest [of b r pl "[]"] show False by (auto simp: asleep_iff)
  qed
  have reps: "\<exists>t. holding c (stack s' t)" if "parent (conds s' c) \<noteq> None" "asleep c (stack s' u)" for c u
    using represented [OF assms(1) run _ that] assms(9) by blast
  have par: "parent (conds s' r) = None" using root' by (simp add: root_inv_def)
  have "\<not> asleep c (stack s' u)" if "(c, r) \<in> (up s')\<^sup>*" for c u
    by (rule none_asleep [OF ci'(1) _ _ none par that rtrancl.rtrancl_refl]) (erule rest, erule (1) reps)
  with rest show ?thesis by blast
qed

theorem cond_broadcast_wakes_all_witness:
  "stack (after_run tree_broadcast) 0 = [(0, WSleep 0), (1, WParent)] \<and>
   stack (after_run tree_broadcast) 2 = [(1, WSleep 0)] \<and>
   (\<exists>s'. exec cnext (after_run tree_broadcast) (CInstr 1 # tree_back) = Some s' \<and>
      {t. \<exists>c pl cs. stack s' t = (c, pl) # cs \<and> (c, 0) \<in> (up s')\<^sup>*} = {})"
proof -
  let ?s = "after_run tree_broadcast"
  obtain s' where split: "exec cnext tree_mid (drop 11 tree_back) = Some s'" using tree_end_run by blast
  have mid: "exec cnext ?s (CInstr 1 # take 11 tree_back) = Some tree_mid"
    using tree_mid_run by (auto simp: tree_mid_def)
  have "CInstr 1 # tree_back = (CInstr 1 # take 11 tree_back) @ drop 11 tree_back" by simp
  then have run: "exec cnext ?s (CInstr 1 # tree_back) = Some s'"
    using mid split by (simp only: exec_append option.case)
  have out: "stack s' t = []" "pcs (locks s' m) t = Out" for t m
    using tree_end_run split by simp_all
  have "exec cnext csys0 tree_broadcast \<noteq> None" by (simp add: runs_c)
  then have start: "exec cnext csys0 tree_broadcast = Some ?s" by (auto simp: after_run_def)
  have bound: "\<forall>d. count_bumps d csys0 (tree_broadcast @ CInstr 1 # tree_back) < 2 ^ 32"
  proof
    fix d
    have "length (tree_broadcast @ CInstr 1 # tree_back) < 2 ^ 32" by (simp add: runs_c)
    with count_bumps_length [of d csys0 "tree_broadcast @ CInstr 1 # tree_back"]
    show "count_bumps d csys0 (tree_broadcast @ CInstr 1 # tree_back) < 2 ^ 32" by simp
  qed
  have no: "\<forall>e\<in>set tree_back. no_wait e" by (simp add: tree_back_def no_wait_def)
  have "\<not> (in_code e \<and> cstep s' e s'')" for e s''
  proof (cases e)
    case (OnMutex m f)
    then show ?thesis by (cases f) (auto simp: cstep.simps mstep.simps out)
  qed (auto simp: cstep.simps out)
  then have stuck: "\<not> (\<exists>e s''. in_code e \<and> cstep s' e s'')" by blast
  have "\<not> (\<exists>t c pl cs. stack s' t = (c, pl) # cs \<and> (c, 0) \<in> (up s')\<^sup>*)"
    by (rule cond_broadcast_wakes_all [OF csys0_init start _ _ _ _ run no bound stuck, where m = 0])
      (simp_all add: tree_broadcast_state out)
  then have "{t. \<exists>c pl cs. stack s' t = (c, pl) # cs \<and> (c, 0) \<in> (up s')\<^sup>*} = {}" by blast
  with run show ?thesis by (auto simp: tree_broadcast_state)
qed

text \<open>The value of the wait at the parent is not looked at. When the parent is bound to
  another mutex, a wait that turns to the parent returns 0 without having released its mutex
  or slept, after six steps of its own.\<close>

theorem cond_parent_mismatch:
  assumes "stack s t = [(p, WMutex), (c, WParent)]" and "cmutex (conds s p) = Some m" and "m \<noteq> arg s t"
    and "\<forall>u < cthreads s. \<not> asleep c (stack s u)"
  shows "\<exists>s'. exec cnext s [CInstr t, CInstr t, CInstr t, CInstr t, FutexRequeue t None, CInstr t] = Some s' \<and>
    stack s' t = [] \<and> crets s' t = Some 0 \<and> locks s' = locks s"
proof -
  have "\<not> asleep c ((c, WRequeue) # cs)" for cs by simp
  with assms show ?thesis by (simp add: move_def requeue_to_def Let_def)
qed

theorem cond_parent_mismatch_witness:
  "\<exists>s'. exec cnext (after_run mismatch) [CInstr 0, CInstr 0, CInstr 0, CInstr 0, FutexRequeue 0 None, CInstr 0] = Some s' \<and>
     stack s' 0 = [] \<and> crets s' 0 = Some 0 \<and> locks s' = locks (after_run mismatch)"
proof -
  have "\<forall>u < cthreads (after_run mismatch). \<not> asleep 1 (stack (after_run mismatch) u)"
    using mismatch_run by (auto simp: less_Suc_eq numeral_3_eq_3 numeral_2_eq_2)
  with cond_parent_mismatch [of "after_run mismatch" 0 0 1 1] mismatch_run show ?thesis by simp
qed

section \<open>Waiting for ever\<close>

text \<open>There is no deadlock inside the code. When no thread can take a step of the code,
  every thread in a call of a condition variable either sleeps on one, or sleeps in the queue
  of its mutex while another thread holds that mutex, which is a client outside the condition
  variables or waits with a different mutex.\<close>

theorem cond_no_deadlock:
  assumes "cond_reach s" and "\<not> (\<exists>e s'. in_code e \<and> cstep s e s')" and "stack s t = (c, pl) # cs"
  shows "asleep c (stack s t) \<or> pcs (its_mutex s t) t = LSleep \<and>
    (\<exists>u < cthreads s. pcs (its_mutex s t) u = Held \<and> (stack s u = [] \<or> arg s u \<noteq> arg s t))"
  using reach_cond(1,3) [OF assms(1)] assms(2,3) by (rule stuck_waits)

text \<open>Thread 0 sleeps at the condition variable and the others are outside.\<close>

lemma wait_0_stuck: "\<not> (\<exists>e s'. in_code e \<and> cstep (after_run wait_0) e s')"
proof -
  let ?s = "after_run wait_0"
  have st: "stack ?s t = (if t = 0 then [(0, WSleep 0)] else [])" "pcs (locks ?s m) t = Out" for t m
    by (simp_all add: runs_c)
  have "\<not> (in_code e \<and> cstep ?s e s')" for e s'
  proof (cases e)
    case (OnMutex m f)
    then show ?thesis by (cases f) (auto simp: cstep.simps mstep.simps st)
  qed (auto simp: cstep.simps st split: if_splits)
  then show ?thesis by blast
qed

theorem cond_no_deadlock_witness:
  "{e. \<exists>s'. in_code e \<and> cstep (after_run wait_0) e s'} = {} \<and> asleep 0 (stack (after_run wait_0) 0)"
proof -
  have r: "cond_reach (after_run wait_0)" using wait_0_run by (intro after_run_reach) simp
  have out: "pcs (its_mutex (after_run wait_0) 0) 0 = Out" by (simp add: runs_c)
  from cond_no_deadlock [OF r wait_0_stuck, of 0 0 "WSleep 0" "[]"] wait_0_run out wait_0_stuck show ?thesis by auto
qed

text \<open>C37: the code comes to rest. Whatever the scheduler does, however often the waits for
  condition variables are interrupted and whenever clients unlock mutexes they hold, after
  finitely many steps nothing can move without a call of a client or an interrupted wait for
  a mutex, and then every thread in a call sleeps, on a condition variable or in the queue of
  its mutex while another thread holds it. The tree of condition variables must have a
  height.\<close>

theorem cond_comes_to_rest:
  assumes "cond_reach (f 0)" and "tree_height h (f 0)"
    and "\<forall>i. (\<exists>e. within e \<and> cstep (f i) e (f (Suc i))) \<or>
      f (Suc i) = f i \<and> \<not> (\<exists>e s'. in_code e \<and> cstep (f i) e s')"
  shows "\<exists>n. (\<forall>i\<ge>n. f i = f n) \<and> (\<forall>t c pl cs. stack (f n) t = (c, pl) # cs \<longrightarrow>
    asleep c (stack (f n) t) \<or> pcs (its_mutex (f n) t) t = LSleep \<and>
      (\<exists>u < cthreads (f n). pcs (its_mutex (f n) t) u = Held \<and> (stack (f n) u = [] \<or> arg (f n) u \<noteq> arg (f n) t)))"
proof -
  have "cond_all_inv (f 0) \<and> tree_height h (f 0)"
    using cond_safe.reach_inv [OF assms(1)] assms(2) by blast
  from cond_rest.comes_to_rest [of f h "\<lambda>s. \<not> (\<exists>e s'. in_code e \<and> cstep s e s')", OF this] assms(3)
  obtain n where n: "\<forall>i\<ge>n. f i = f n" "\<not> (\<exists>e s'. in_code e \<and> cstep (f n) e s')" by metis
  have "cond_reach (f n)" by (rule run_reach [where f = f, OF assms(1)]) (use assms(3) in blast)
  from stuck_waits [OF reach_cond(1,3) [OF this] n(2)] n(1) show ?thesis by metis
qed

text \<open>Thread 0 is about to make its FUTEX_WAIT call.\<close>

definition calm_run :: "nat \<Rightarrow> csys" where
  "calm_run i = (if i = 0 then after_run (take 10 wait_0) else after_run wait_0)"

theorem cond_comes_to_rest_witness:
  "stack (calm_run 0) 0 = [(0, WUnlock 0)] \<and>
   (\<exists>n. calm_run (n + 5) = calm_run n \<and> asleep 0 (stack (calm_run n) 0))"
proof -
  let ?s = "after_run (take 10 wait_0)"
  have r: "cond_reach (calm_run 0)" unfolding calm_run_def by (simp, rule after_run_reach) (simp add: runs_c)
  have at: "stack ?s 0 = [(0, WUnlock 0)]" by (simp add: runs_c)
  have "cnext ?s (FutexWait 0) = Some (after_run wait_0)" by (simp add: runs_c)
  then have step: "cstep ?s (FutexWait 0) (after_run wait_0)" by (simp only: cnext_cstep)
  have w: "within (FutexWait 0)" by (simp add: within_def)
  have "(\<exists>e. within e \<and> cstep (calm_run i) e (calm_run (Suc i))) \<or>
      calm_run (Suc i) = calm_run i \<and> \<not> (\<exists>e s'. in_code e \<and> cstep (calm_run i) e s')" for i
    using step w wait_0_stuck by (cases i) (auto simp: calm_run_def)
  note run = this
  have "tree_height id (calm_run 0)" by (simp add: tree_height_def calm_run_def) (simp add: runs_c)
  from cond_comes_to_rest [where f = calm_run and h = id, OF r this allI [OF run]]
  obtain n where n: "\<forall>i\<ge>n. calm_run i = calm_run n" by (elim exE conjE)
  have "calm_run (n + 5) = calm_run n" by (rule n [rule_format, OF le_add1])
  moreover have "calm_run (n + 5) = after_run wait_0" by (simp add: calm_run_def)
  ultimately have "calm_run (n + 5) = calm_run n \<and> asleep 0 (stack (calm_run n) 0)"
    using wait_0_run by (metis asleep.simps(1))
  moreover have "stack (calm_run 0) 0 = [(0, WUnlock 0)]" using at by (simp add: calm_run_def)
  ultimately show ?thesis by blast
qed

end
