(* ===== verification/Topology.thy ===== *)
theory Topology imports Log "HOL-Library.Char_ord" begin

text \<open>
  The processor topology of src/utils/reeact_topology.c. A function of the code is a program
  over its output parameters (\<open>prog\<close>) that goes on with a value, returns an error code, or
  runs into undefined behaviour (\<open>Undef\<close>): an index outside an array, a read of memory that
  was never written, a division by zero, a NULL pointer, a message without its arguments. What
  is logged, in the debug build too, is part of the state. The parser of value lists
  (\<open>parse_value_list_expand\<close> of the common_toolx library), the files and the environment are
  parameters.
\<close>

section \<open>Programs\<close>

text \<open>
  The output parameters are the members of \<open>struct processor_topo\<close>. An array is \<open>None\<close> for the
  NULL pointer; an element is \<open>None\<close> until it is written. The state of a program has the number
  of streams left open and the log beside them.
\<close>

record processor_topo =
  nodes :: "int option list option"
  cores :: "int option list option"
  socket_cnt :: int
  node_cnt :: int
  core_cnt :: int

record topo = processor_topo +
  open_files :: nat
  messages :: log_state

datatype 'a outcome = Go 'a topo | Return int topo | Undef

type_synonym 'a prog = "topo \<Rightarrow> 'a outcome"

definition andthen :: "'a prog \<Rightarrow> ('a \<Rightarrow> 'b prog) \<Rightarrow> 'b prog" where
  "andthen m k = (\<lambda>st. case m st of Go x st' \<Rightarrow> k x st' | Return r st' \<Rightarrow> Return r st' | Undef \<Rightarrow> Undef)"

definition yield :: "'a \<Rightarrow> 'a prog" where "yield x = Go x"

definition return :: "int \<Rightarrow> 'a prog" where "return r = Return r"

definition modify :: "(topo \<Rightarrow> topo) \<Rightarrow> unit prog" where "modify f = (\<lambda>st. Go () (f st))"

definition reads :: "(topo \<Rightarrow> 'a) \<Rightarrow> 'a prog" where "reads f = (\<lambda>st. Go (f st) st)"

text \<open>A value that is undefined behaviour when it is missing.\<close>

definition defined :: "'a option \<Rightarrow> 'a prog" where
  "defined x = (case x of None \<Rightarrow> (\<lambda>st. Undef) | Some y \<Rightarrow> Go y)"

text \<open>Output to the log, or undefined behaviour.\<close>

definition say :: "(log_state \<Rightarrow> log_state option) \<Rightarrow> unit prog" where
  "say f = (\<lambda>st. case f (messages st) of None \<Rightarrow> Undef | Some l \<Rightarrow> Go () (st\<lparr>messages := l\<rparr>))"

primrec for_each :: "'i list \<Rightarrow> ('i \<Rightarrow> 'l \<Rightarrow> 'l prog) \<Rightarrow> 'l \<Rightarrow> 'l prog" where
  "for_each [] body l = yield l"
| "for_each (i # is) body l = andthen (body i l) (for_each is body)"

section \<open>Arrays\<close>

definition in_range :: "int \<Rightarrow> 'a list \<Rightarrow> bool" where
  "in_range i xs \<longleftrightarrow> 0 \<le> i \<and> i < int (length xs)"

definition at :: "'a list \<Rightarrow> int \<Rightarrow> 'a option" where
  "at xs i = (if in_range i xs then Some (xs ! nat i) else None)"

definition put :: "'a list \<Rightarrow> int \<Rightarrow> 'a \<Rightarrow> 'a list option" where
  "put xs i v = (if in_range i xs then Some (xs[nat i := v]) else None)"

text \<open>A read of an array that may be NULL and of an element that may be unwritten.\<close>

definition load :: "int option list option \<Rightarrow> int \<Rightarrow> int option" where
  "load a i = Option.bind a (\<lambda>xs. Option.bind (at xs i) id)"

definition store :: "int option list option \<Rightarrow> int \<Rightarrow> int \<Rightarrow> int option list option option" where
  "store a i v = Option.bind a (\<lambda>xs. map_option Some (put xs i (Some v)))"

section \<open>Files and lines\<close>

text \<open>\<open>fopen_errno\<close> is the error number a failed \<open>fopen\<close> of a file leaves in \<open>errno\<close>.\<close>

record sysenv =
  files :: "string \<Rightarrow> string option"
  fopen_errno :: "string \<Rightarrow> int"
  topo_config :: "string option"
  malloc_cores :: bool
  malloc_nodes :: bool
  logging :: log_env

text \<open>
  The external parser gives its return value and the list it hands out, if any (\<open>None\<close>: the
  output pointer is not written).
\<close>

type_synonym parser = "string \<Rightarrow> int \<times> int list option"

fun cut_line :: "string \<Rightarrow> string \<times> string" where
  "cut_line [] = ([], [])"
| "cut_line (c # cs) = (if c = CHR 0x0A then ([c], cs)
     else (case cut_line cs of (l, r) \<Rightarrow> (c # l, r)))"

text \<open>\<open>getline\<close>: the next line with its newline, and the rest of the file; \<open>None\<close> for -1.\<close>

definition getline :: "string \<Rightarrow> (string \<times> string) option" where
  "getline s = (if s = [] then None else Some (cut_line s))"

definition chomp :: "string \<Rightarrow> string" where
  "chomp l = (if l \<noteq> [] \<and> last l = CHR 0x0A then butlast l else l)"

text \<open>A buffer read as a C string ends at the first NUL.\<close>

definition c_string :: "string \<Rightarrow> string" where
  "c_string l = takeWhile (\<lambda>c. c \<noteq> CHR 0x00) l"

definition OPEN_FILE :: "sysenv \<Rightarrow> string \<Rightarrow> string \<Rightarrow> int \<Rightarrow> string prog" where
  "OPEN_FILE env func fname err = (case files env fname of
     None \<Rightarrow> andthen (say (LOGERRX ((logging env)\<lparr>errno := fopen_errno env fname\<rparr>) func
       ''Unable to open file %s: '' [Str fname])) (\<lambda>_. return err)
   | Some content \<Rightarrow> andthen (modify (\<lambda>st. st\<lparr>open_files := Suc (open_files st)\<rparr>)) (\<lambda>_. yield content))"

text \<open>The message for a file without a line has no argument for its %s.\<close>

definition GET_LINE_MUST_SUCCEED :: "sysenv \<Rightarrow> string \<Rightarrow> string \<Rightarrow> int \<Rightarrow> string prog" where
  "GET_LINE_MUST_SUCCEED env func content err = (case getline content of
     None \<Rightarrow> andthen (say (LOGERRX (logging env) func ''Unable to read line from file %s: '' [])) (\<lambda>_. return err)
   | Some (line, rest) \<Rightarrow> yield (c_string (chomp line)))"

definition fclose :: "unit prog" where
  "fclose = modify (\<lambda>st. st\<lparr>open_files := open_files st - 1\<rparr>)"

text \<open>
  The sequence the code repeats for every file of sysfs: open it, read its first line, parse
  the line, give up with 2 when one of these fails. The message for a line that cannot be
  parsed differs.
\<close>

abbreviation sysfs_name :: string where "sysfs_name \<equiv> ''reeact_get_topo_sysfs''"

definition read_list :: "parser \<Rightarrow> sysenv \<Rightarrow> string \<Rightarrow> string \<Rightarrow> parg list \<Rightarrow> int list prog" where
  "read_list parse env fname fmt args =
     andthen (OPEN_FILE env sysfs_name fname 2) (\<lambda>fp.
     andthen (GET_LINE_MUST_SUCCEED env sysfs_name fp 2) (\<lambda>buf.
     let (ret_val, list) = parse buf in
     if ret_val \<noteq> 0 then andthen (say (LOGERR (logging env) sysfs_name fmt (args @ [Dec ret_val]))) (\<lambda>_. return 2)
     else defined list))"

text \<open>\<open>sprintf\<close> of a directory, a number in decimal and a file name.\<close>

definition ONLINE_NODE_LIST :: string where "ONLINE_NODE_LIST = ''/sys/devices/system/node/online''"
definition ONLINE_CPU_LIST :: string where "ONLINE_CPU_LIST = ''/sys/devices/system/cpu/online''"

definition context_list_file :: "int \<Rightarrow> string" where
  "context_list_file i = ''/sys/devices/system/cpu/cpu'' @ show_int i @ ''/'' @ ''topology/thread_siblings_list''"

definition package_id_file :: "int \<Rightarrow> string" where
  "package_id_file i = ''/sys/devices/system/cpu/cpu'' @ show_int i @ ''/'' @ ''topology/physical_package_id''"

definition core_list_file :: "int \<Rightarrow> string" where
  "core_list_file i = ''/sys/devices/system/node/node'' @ show_int i @ ''/'' @ ''cpulist''"

section \<open>reeact_get_topo_sysfs\<close>

text \<open>
  Physical cores: \<open>ctx_ids\<close> holds -1 for a context that is a core and -2 for one known to be
  an SMT sibling of a core.
\<close>

fun mark_siblings :: "int \<Rightarrow> int list \<Rightarrow> int list \<Rightarrow> int list option" where
  "mark_siblings i [] ctx_ids = Some ctx_ids"
| "mark_siblings i (c # cs) ctx_ids =
     (if c \<noteq> i then Option.bind (put ctx_ids c (-2)) (mark_siblings i cs)
      else mark_siblings i cs ctx_ids)"

definition find_core :: "parser \<Rightarrow> sysenv \<Rightarrow> nat \<Rightarrow> int list \<times> nat \<Rightarrow> (int list \<times> nat) prog" where
  "find_core parse env i = (\<lambda>(ctx_ids, total_core_cnt).
     if ctx_ids ! i = -2 then yield (ctx_ids, total_core_cnt)
     else
       andthen (read_list parse env (context_list_file (int i))
           (''Unable to parse cpu %d's contexts , error %d'' @ nl) [Dec (int i)]) (\<lambda>contexts.
       andthen (defined (mark_siblings (int i) contexts (ctx_ids[i := -1]))) (\<lambda>ctx_ids'.
       yield (ctx_ids', Suc total_core_cnt))))"

text \<open>The cores of node i, from its list of contexts; k of them are assigned already.\<close>

fun assign_cores :: "int list \<Rightarrow> int \<Rightarrow> int list \<Rightarrow> int \<Rightarrow> int option list option \<Rightarrow>
    int option list option option" where
  "assign_cores ctx_ids base [] k a = Some a"
| "assign_cores ctx_ids base (c # cs) k a =
     Option.bind (at ctx_ids c) (\<lambda>v.
       if v = -1 then Option.bind (store a (base + k) c) (assign_cores ctx_ids base cs (k + 1))
       else assign_cores ctx_ids base cs k a)"

definition map_node :: "parser \<Rightarrow> sysenv \<Rightarrow> int list \<Rightarrow> nat \<Rightarrow> unit \<Rightarrow> unit prog" where
  "map_node parse env ctx_ids i = (\<lambda>_.
     andthen (read_list parse env (core_list_file (int i))
       (''Unable to parse node %d's contexts, error %d'' @ nl) [Dec (int i)]) (\<lambda>contexts.
     andthen (reads (\<lambda>st. (core_cnt st, cores st))) (\<lambda>(cc, a).
     andthen (defined (assign_cores ctx_ids (int i * cc) contexts 0 a)) (\<lambda>a'.
     modify (\<lambda>st. st\<lparr>cores := a'\<rparr>)))))"

text \<open>The package id of the first core of node j, read twice for every node. The message names
  the number n of the loop, not the cpu.\<close>

definition node_package :: "parser \<Rightarrow> sysenv \<Rightarrow> int \<Rightarrow> nat \<Rightarrow> int prog" where
  "node_package parse env n j =
     andthen (reads (\<lambda>st. load (cores st) (int j * core_cnt st))) (\<lambda>c.
     andthen (defined c) (\<lambda>core_id.
     andthen (read_list parse env (package_id_file core_id)
       (''Unable to parse cpu %d's package id, error %d'' @ nl) [Dec n]) (\<lambda>contexts.
     defined (at contexts 0))))"

definition max_package :: "parser \<Rightarrow> sysenv \<Rightarrow> nat \<Rightarrow> unit \<Rightarrow> unit prog" where
  "max_package parse env i = (\<lambda>_.
     andthen (node_package parse env (int i) i) (\<lambda>p.
     modify (\<lambda>st. if p > socket_cnt st then st\<lparr>socket_cnt := p\<rparr> else st)))"

definition place_node :: "parser \<Rightarrow> sysenv \<Rightarrow> int \<Rightarrow> nat \<Rightarrow> int \<Rightarrow> int prog" where
  "place_node parse env i j k =
     andthen (node_package parse env i j) (\<lambda>socket_id.
     if socket_id = i then
       andthen (reads (\<lambda>st. store (nodes st) (socket_id * node_cnt st + k) (int j))) (\<lambda>a.
       andthen (defined a) (\<lambda>a'.
       andthen (modify (\<lambda>st. st\<lparr>nodes := a'\<rparr>)) (\<lambda>_. yield (k + 1))))
     else yield k)"

definition place_socket :: "parser \<Rightarrow> sysenv \<Rightarrow> nat \<Rightarrow> nat \<Rightarrow> unit \<Rightarrow> unit prog" where
  "place_socket parse env total_node_cnt i = (\<lambda>_.
     andthen (for_each [0..<total_node_cnt] (place_node parse env (int i)) 0) (\<lambda>_. yield ()))"

definition malloc_ints :: "bool \<Rightarrow> nat \<Rightarrow> int option list option" where
  "malloc_ints ok n = (if ok then Some (replicate n None) else None)"

text \<open>Integer division; by zero it is undefined.\<close>

definition divide_ints :: "int \<Rightarrow> int \<Rightarrow> int option" where
  "divide_ints a b = (if b = 0 then None else Some (a div b))"

definition INT_MAX :: int where "INT_MAX = 2147483647"

definition ENOMEM :: int where "ENOMEM = 12"

text \<open>The debug output: a line with the numbers of a list, the cores found, and the cores of
  every node, as they stand in the array.\<close>

definition debug_list :: "sysenv \<Rightarrow> string \<Rightarrow> parg list \<Rightarrow> int list \<Rightarrow> unit prog" where
  "debug_list env fmt args xs =
     andthen (say (DPRINTF (logging env) sysfs_name fmt args)) (\<lambda>_.
     andthen (for_each xs (\<lambda>x _. say (print_err ''%d,'' [Dec x])) ()) (\<lambda>_.
     say (print_err nl [])))"

definition debug_node :: "sysenv \<Rightarrow> nat \<Rightarrow> unit \<Rightarrow> unit prog" where
  "debug_node env i = (\<lambda>_.
     andthen (say (DPRINTF (logging env) sysfs_name ''node %d core list: '' [Dec (int i)])) (\<lambda>_.
     andthen (reads core_cnt) (\<lambda>cc.
     andthen (for_each [0..<nat cc] (\<lambda>j _.
       andthen (reads (\<lambda>st. load (cores st) (int i * core_cnt st + int j))) (\<lambda>c.
       andthen (defined c) (\<lambda>v. say (print_err ''%d,'' [Dec v])))) ()) (\<lambda>_.
     say (print_err nl [])))))"

definition in_debug :: "sysenv \<Rightarrow> unit prog \<Rightarrow> unit prog" where
  "in_debug env m = (if debug (logging env) then m else yield ())"

definition reeact_get_topo_sysfs :: "parser \<Rightarrow> sysenv \<Rightarrow> unit prog" where
  "reeact_get_topo_sysfs parse env =
     andthen (read_list parse env ONLINE_NODE_LIST (''Unable to parse online node list, error %d'' @ nl) []) (\<lambda>node_ids.
     let total_node_cnt = length node_ids in
     andthen (in_debug env (debug_list env ''There are %d nodes: '' [Dec (int total_node_cnt)] node_ids)) (\<lambda>_.
     andthen (read_list parse env ONLINE_CPU_LIST (''Unable to parse online cpu list, error %d'' @ nl) []) (\<lambda>ctx_ids.
     andthen (for_each [0..<length ctx_ids] (find_core parse env) (ctx_ids, 0)) (\<lambda>(ctx_ids, total_core_cnt).
     andthen (in_debug env (debug_list env ''There are %d cpu cores: '' [Dec (int total_core_cnt)]
       (map int (filter (\<lambda>i. ctx_ids ! i = -1) [0..<length ctx_ids])))) (\<lambda>_.
     andthen (modify (\<lambda>st. st\<lparr>cores := malloc_ints (malloc_cores env) total_core_cnt\<rparr>)) (\<lambda>_.
     andthen (defined (divide_ints (int total_core_cnt) (int total_node_cnt))) (\<lambda>cc.
     andthen (modify (\<lambda>st. st\<lparr>core_cnt := cc\<rparr>)) (\<lambda>_.
     andthen (say (DPRINTF (logging env) sysfs_name (''cores per node: %d'' @ nl) [Dec cc])) (\<lambda>_.
     andthen (reads cores) (\<lambda>a. if a = None then
       andthen (say (LOGERRX ((logging env)\<lparr>errno := ENOMEM\<rparr>) sysfs_name
         ''Unable to allocate space for core to node mapping: '' [])) (\<lambda>_. return 3) else
     andthen (for_each [0..<total_node_cnt] (map_node parse env ctx_ids) ()) (\<lambda>_.
     andthen (in_debug env (for_each [0..<total_node_cnt] (debug_node env) ())) (\<lambda>_.
     andthen (modify (\<lambda>st. st\<lparr>socket_cnt := -1\<rparr>)) (\<lambda>_.
     andthen (for_each [0..<total_node_cnt] (max_package parse env) ()) (\<lambda>_.
     andthen (reads socket_cnt) (\<lambda>sc.
     andthen (defined (if sc = INT_MAX then None else Some (sc + 1))) (\<lambda>sc'.
     andthen (modify (\<lambda>st. st\<lparr>socket_cnt := sc'\<rparr>)) (\<lambda>_.
     andthen (say (DPRINTF (logging env) sysfs_name (''There are %d sockets'' @ nl) [Dec sc'])) (\<lambda>_.
     andthen (modify (\<lambda>st. st\<lparr>nodes := malloc_ints (malloc_nodes env) total_node_cnt\<rparr>)) (\<lambda>_.
     andthen (defined (divide_ints (int total_node_cnt) sc')) (\<lambda>nc.
     andthen (modify (\<lambda>st. st\<lparr>node_cnt := nc\<rparr>)) (\<lambda>_.
     andthen (for_each [0..<nat sc'] (place_socket parse env total_node_cnt) ()) (\<lambda>_.
     andthen fclose (\<lambda>_.
     return 0)))))))))))))))))))))))"

section \<open>reeact_get_topo_conf\<close>

definition is_digit :: "char \<Rightarrow> bool" where
  "is_digit c \<longleftrightarrow> CHR ''0'' \<le> c \<and> c \<le> CHR ''9''"

text \<open>The line from its first digit on (or its end).\<close>

definition skip_to_digit :: "string \<Rightarrow> string" where
  "skip_to_digit buf = dropWhile (\<lambda>c. \<not> is_digit c) buf"

definition set_nodes :: "int list option \<Rightarrow> topo \<Rightarrow> topo" where
  "set_nodes l st = (case l of None \<Rightarrow> st | Some xs \<Rightarrow> st\<lparr>nodes := Some (map Some xs)\<rparr>)"

definition set_cores :: "int list option \<Rightarrow> topo \<Rightarrow> topo" where
  "set_cores l st = (case l of None \<Rightarrow> st | Some xs \<Rightarrow> st\<lparr>cores := Some (map Some xs)\<rparr>)"

text \<open>One line of the file: the switch on its first character.\<close>

abbreviation conf_name :: string where "conf_name \<equiv> ''reeact_get_topo_conf''"

definition bad_line :: "sysenv \<Rightarrow> string \<Rightarrow> int \<Rightarrow> unit prog" where
  "bad_line env text ret_val =
     andthen (say (LOGERR (logging env) conf_name
       (''Error parsing configure file line: %s with error %d'' @ nl) [Str text, Dec ret_val])) (\<lambda>_. return 2)"

definition conf_line :: "parser \<Rightarrow> sysenv \<Rightarrow> string \<Rightarrow> unit prog" where
  "conf_line parse env buf = (case buf of [] \<Rightarrow> yield ()
     | c # cs \<Rightarrow>
         let p = skip_to_digit buf; (ret_val, list) = parse p in
         if c = CHR ''s'' then
           (if ret_val \<noteq> 0 then bad_line env p ret_val else
            andthen (defined list) (\<lambda>counts.
            if length counts \<noteq> 3 then bad_line env p ret_val else
            modify (\<lambda>st. st\<lparr>socket_cnt := counts ! 0, node_cnt := counts ! 1, core_cnt := counts ! 2\<rparr>)))
         else if c = CHR ''n'' then
           andthen (modify (set_nodes list)) (\<lambda>_. if ret_val \<noteq> 0 then bad_line env buf ret_val else yield ())
         else if c = CHR ''c'' then
           andthen (modify (set_cores list)) (\<lambda>_. if ret_val \<noteq> 0 then bad_line env buf ret_val else yield ())
         else yield ())"

lemma cut_line_shorter: "s \<noteq> [] \<Longrightarrow> cut_line s = (l, r) \<Longrightarrow> length r < length s"
proof (induction s arbitrary: l r)
  case (Cons c s)
  then show ?case by (cases s) (auto split: if_splits prod.splits)
qed simp

function conf_lines :: "parser \<Rightarrow> sysenv \<Rightarrow> string \<Rightarrow> unit prog" where
  "conf_lines parse env content = (case getline content of
     None \<Rightarrow> yield ()
   | Some (line, rest) \<Rightarrow>
       andthen (conf_line parse env (c_string (chomp line))) (\<lambda>_. conf_lines parse env rest))"
  by pat_completeness auto
termination
  by (relation "measure (\<lambda>(parse, env, content). length content)")
    (auto simp: getline_def split: if_splits dest: cut_line_shorter)

declare conf_lines.simps [simp del]

definition reeact_get_topo_conf :: "parser \<Rightarrow> sysenv \<Rightarrow> unit prog" where
  "reeact_get_topo_conf parse env =
     andthen (defined (topo_config env)) (\<lambda>conf_file.
     andthen (OPEN_FILE env conf_name conf_file 2) (\<lambda>content.
     andthen (conf_lines parse env content) (\<lambda>_.
     andthen (reads id) (\<lambda>st.
     if node_cnt st = 0 \<or> core_cnt st = 0 \<or> socket_cnt st = 0 \<or> nodes st = None \<or> cores st = None
     then andthen (say (LOGERR (logging env) conf_name
       (''Topology configuration file %s is not complete.'' @ nl) [Str conf_file])) (\<lambda>_. return 2)
     else andthen fclose (\<lambda>_. return 0)))))"

section \<open>reeact_get_topology\<close>

text \<open>\<open>given\<close>: none of the five output pointers is NULL.\<close>

definition clear :: "topo \<Rightarrow> topo" where
  "clear st = st\<lparr>socket_cnt := 0, node_cnt := 0, core_cnt := 0, nodes := None, cores := None\<rparr>"

definition reeact_get_topology :: "parser \<Rightarrow> sysenv \<Rightarrow> bool \<Rightarrow> unit prog" where
  "reeact_get_topology parse env given =
     (if \<not> given then
        andthen (say (LOGERR (logging env) ''reeact_get_topology'' (''wrong parameter'' @ nl) [])) (\<lambda>_. return 1)
      else
      andthen (modify clear) (\<lambda>_ st.
        if topo_config env \<noteq> None then
          (case reeact_get_topo_conf parse env st of
             Return ret_val st' \<Rightarrow>
               (if ret_val \<noteq> 0 then reeact_get_topo_sysfs parse env st' else Return 0 st')
           | r \<Rightarrow> r)
        else reeact_get_topo_sysfs parse env st))"

section \<open>Rules\<close>

lemmas prog_simps [simp] = andthen_def yield_def return_def modify_def reads_def

lemma say_simps [simp]:
  "f (messages st) = Some l \<Longrightarrow> say f st = Go () (st\<lparr>messages := l\<rparr>)"
  "f (messages st) = None \<Longrightarrow> say f st = Undef"
  by (simp_all add: say_def)

lemma defined_simps [simp]:
  "defined (Some x) st = Go x st" "defined None st = Undef"
  by (simp_all add: defined_def)

text \<open>A loop whose body keeps an invariant ends with it.\<close>

lemma for_each_inv:
  assumes "I (0 :: nat) l st"
    and "\<And>i l st. i < n \<Longrightarrow> I i l st \<Longrightarrow> \<exists>l' st'. body i l st = Go l' st' \<and> I (Suc i) l' st'"
  shows "\<exists>l' st'. for_each [0..<n] body l st = Go l' st' \<and> I n l' st'"
proof -
  have "\<exists>l' st'. for_each [k..<n] body l st = Go l' st' \<and> I n l' st'" if "k \<le> n" "I k l st" for k l st
    using that
  proof (induction "n - k" arbitrary: k l st)
    case 0
    then show ?case by simp
  next
    case (Suc m)
    then have "k < n" by simp
    with assms(2) [OF this Suc.prems(2)] obtain l' st'
      where b: "body k l st = Go l' st'" and "I (Suc k) l' st'" by blast
    with Suc.hyps(1) [of "Suc k" l' st'] Suc.hyps(2) \<open>k < n\<close>
    show ?case by (auto simp: upt_conv_Cons)
  qed
  with assms(1) show ?thesis by blast
qed

end
