(* ===== verification/Hooks.thy ===== *)
theory Hooks imports Log begin

text \<open>
  The interposition of the pthread functions. A program that runs with the library calls the
  functions of src/pthread_hooks, which call the policy of src/policies/reeact_policy.c. Built
  with \<open>_REEACT_DEFAULT_POLICY_\<close>, as the Makefile does, the policy calls the original function
  through a pointer that \<open>reeact_pthread_hooks_init\<close> has looked up with \<open>dlsym\<close>; without it the
  functions are stubs for a user policy (\<open>default_policy\<close> is the flag). The dynamic linker and the
  original functions are parameters (\<open>os\<close>); arguments are passed as machine words (pointers, or
  the count of a barrier).
\<close>

section \<open>The process\<close>

type_synonym addr = nat
type_synonym arg = u64

text \<open>
  \<open>resolve\<close> is \<open>dlsym(RTLD_NEXT, name)\<close> and \<open>dl_text\<close> what \<open>dlerror\<close> says when it fails, \<open>run\<close> the code
  at an address. \<open>logger\<close> serves the log functions.
\<close>

record 'w os =
  resolve :: "string \<Rightarrow> addr option"
  dl_text :: "string \<Rightarrow> string"
  run :: "addr \<Rightarrow> arg list \<Rightarrow> 'w \<Rightarrow> int \<times> 'w"
  logger :: log_env
  default_policy :: bool

text \<open>
  The global pointers to the original functions (\<open>None\<close> for NULL), the error that \<open>dlerror\<close>
  would report, the log, and the rest of the world, which only the original functions change.
\<close>

record 'w process =
  real_pthread_create :: "addr option"
  real_pthread_barrier_init :: "addr option"
  real_pthread_barrier_wait :: "addr option"
  real_pthread_barrier_destroy :: "addr option"
  real_pthread_mutex_init :: "addr option"
  real_pthread_mutex_lock :: "addr option"
  real_pthread_mutex_trylock :: "addr option"
  real_pthread_mutex_timedlock :: "addr option"
  real_pthread_mutex_unlock :: "addr option"
  real_pthread_mutex_consistent :: "addr option"
  real_pthread_mutex_destroy :: "addr option"
  real_pthread_cond_init :: "addr option"
  real_pthread_cond_signal :: "addr option"
  real_pthread_cond_broadcast :: "addr option"
  real_pthread_cond_destroy :: "addr option"
  real_pthread_cond_wait :: "addr option"
  real_pthread_cond_timedwait :: "addr option"
  dl_error :: "string option"
  stderr :: log_state
  world :: 'w

text \<open>\<open>NoValue\<close>: the function returned without the value its type promises.\<close>

datatype 'w called = Returned int "'w process" | NoValue "'w process" | Crashed

type_synonym 'w call = "'w process \<Rightarrow> 'w called"

definition dlsym :: "'w os \<Rightarrow> string \<Rightarrow> 'w process \<Rightarrow> addr option \<times> 'w process" where
  "dlsym os name p = (resolve os name, p\<lparr>dl_error :=
     (if resolve os name = None then Some (dl_text os name) else dl_error p)\<rparr>)"

definition dlerror :: "'w process \<Rightarrow> string option \<times> 'w process" where
  "dlerror p = (dl_error p, p\<lparr>dl_error := None\<rparr>)"

text \<open>A call through a function pointer.\<close>

definition call_real :: "'w os \<Rightarrow> addr option \<Rightarrow> arg list \<Rightarrow> 'w call" where
  "call_real os f args p = (case f of None \<Rightarrow> Crashed
     | Some a \<Rightarrow> (case run os a args (world p) of (r, w) \<Rightarrow> Returned r (p\<lparr>world := w\<rparr>)))"

text \<open>Log output on the way.\<close>

definition logged :: "(log_state \<Rightarrow> log_state option) \<Rightarrow> 'w call \<Rightarrow> 'w call" where
  "logged f k p = (case f (stderr p) of None \<Rightarrow> Crashed | Some l \<Rightarrow> k (p\<lparr>stderr := l\<rparr>))"

section \<open>The policy\<close>

text \<open>\<open>reeact_policy_cleanup\<close> has nothing to do in either configuration.\<close>

definition reeact_policy_cleanup :: int where "reeact_policy_cleanup = 0"

text \<open>Only lock and unlock look the original function up when they find the pointer NULL.\<close>

definition reeact_policy_pthread_create :: "'w os \<Rightarrow> arg \<Rightarrow> arg \<Rightarrow> arg \<Rightarrow> arg \<Rightarrow> 'w call" where
  "reeact_policy_pthread_create os thread attr start_routine arg p =
     (if default_policy os then call_real os (real_pthread_create p) [thread, attr, start_routine, arg] p else Returned 0 p)"

definition reeact_policy_pthread_barrier_init :: "'w os \<Rightarrow> arg \<Rightarrow> arg \<Rightarrow> arg \<Rightarrow> 'w call" where
  "reeact_policy_pthread_barrier_init os barrier attr count p =
     (if default_policy os then call_real os (real_pthread_barrier_init p) [barrier, attr, count] p else Returned 0 p)"

definition reeact_policy_pthread_barrier_wait :: "'w os \<Rightarrow> arg \<Rightarrow> 'w call" where
  "reeact_policy_pthread_barrier_wait os barrier p =
     (if default_policy os then call_real os (real_pthread_barrier_wait p) [barrier] p else Returned 0 p)"

definition reeact_policy_pthread_barrier_destroy :: "'w os \<Rightarrow> arg \<Rightarrow> 'w call" where
  "reeact_policy_pthread_barrier_destroy os barrier p =
     (if default_policy os then call_real os (real_pthread_barrier_destroy p) [barrier] p else Returned 0 p)"

definition reeact_policy_pthread_mutex_init :: "'w os \<Rightarrow> arg \<Rightarrow> arg \<Rightarrow> 'w call" where
  "reeact_policy_pthread_mutex_init os mutex attr p =
     (if default_policy os then call_real os (real_pthread_mutex_init p) [mutex, attr] p else Returned 0 p)"

definition reeact_policy_pthread_mutex_lock :: "'w os \<Rightarrow> arg \<Rightarrow> 'w call" where
  "reeact_policy_pthread_mutex_lock os mutex p =
     (if default_policy os then
        (let p' = (if real_pthread_mutex_lock p = None
           then (case dlsym os ''pthread_mutex_lock'' p of (f, q) \<Rightarrow> q\<lparr>real_pthread_mutex_lock := f\<rparr>) else p)
         in call_real os (real_pthread_mutex_lock p') [mutex] p')
      else Returned 0 p)"

definition reeact_policy_pthread_mutex_trylock :: "'w os \<Rightarrow> arg \<Rightarrow> 'w call" where
  "reeact_policy_pthread_mutex_trylock os mutex p =
     (if default_policy os then call_real os (real_pthread_mutex_trylock p) [mutex] p else Returned 0 p)"

definition reeact_policy_pthread_mutex_timedlock :: "'w os \<Rightarrow> arg \<Rightarrow> arg \<Rightarrow> 'w call" where
  "reeact_policy_pthread_mutex_timedlock os mutex abs_timeout p =
     (if default_policy os then call_real os (real_pthread_mutex_timedlock p) [mutex, abs_timeout] p else Returned 0 p)"

definition reeact_policy_pthread_mutex_unlock :: "'w os \<Rightarrow> arg \<Rightarrow> 'w call" where
  "reeact_policy_pthread_mutex_unlock os mutex p =
     (if default_policy os then
        (let p' = (if real_pthread_mutex_unlock p = None
           then (case dlsym os ''pthread_mutex_unlock'' p of (f, q) \<Rightarrow> q\<lparr>real_pthread_mutex_unlock := f\<rparr>) else p)
         in call_real os (real_pthread_mutex_unlock p') [mutex] p')
      else Returned 0 p)"

definition reeact_policy_pthread_mutex_consistent :: "'w os \<Rightarrow> arg \<Rightarrow> 'w call" where
  "reeact_policy_pthread_mutex_consistent os mutex p =
     (if default_policy os then call_real os (real_pthread_mutex_consistent p) [mutex] p else Returned 0 p)"

definition reeact_policy_pthread_mutex_destroy :: "'w os \<Rightarrow> arg \<Rightarrow> 'w call" where
  "reeact_policy_pthread_mutex_destroy os mutex p =
     (if default_policy os then call_real os (real_pthread_mutex_destroy p) [mutex] p else Returned 0 p)"

definition reeact_policy_pthread_cond_init :: "'w os \<Rightarrow> arg \<Rightarrow> arg \<Rightarrow> 'w call" where
  "reeact_policy_pthread_cond_init os cond attr p =
     (if default_policy os then call_real os (real_pthread_cond_init p) [cond, attr] p else Returned 0 p)"

definition reeact_policy_pthread_cond_signal :: "'w os \<Rightarrow> arg \<Rightarrow> 'w call" where
  "reeact_policy_pthread_cond_signal os cond p =
     (if default_policy os then call_real os (real_pthread_cond_signal p) [cond] p else Returned 0 p)"

definition reeact_policy_pthread_cond_broadcast :: "'w os \<Rightarrow> arg \<Rightarrow> 'w call" where
  "reeact_policy_pthread_cond_broadcast os cond p =
     (if default_policy os then call_real os (real_pthread_cond_broadcast p) [cond] p else Returned 0 p)"

definition reeact_policy_pthread_cond_destroy :: "'w os \<Rightarrow> arg \<Rightarrow> 'w call" where
  "reeact_policy_pthread_cond_destroy os cond p =
     (if default_policy os then call_real os (real_pthread_cond_destroy p) [cond] p else Returned 0 p)"

definition reeact_policy_pthread_cond_wait :: "'w os \<Rightarrow> arg \<Rightarrow> arg \<Rightarrow> 'w call" where
  "reeact_policy_pthread_cond_wait os cond mutex p =
     (if default_policy os then call_real os (real_pthread_cond_wait p) [cond, mutex] p else Returned 0 p)"

definition reeact_policy_pthread_cond_timedwait :: "'w os \<Rightarrow> arg \<Rightarrow> arg \<Rightarrow> arg \<Rightarrow> 'w call" where
  "reeact_policy_pthread_cond_timedwait os cond mutex abstime p =
     (if default_policy os then call_real os (real_pthread_cond_timedwait p) [cond, mutex, abstime] p else Returned 0 p)"

section \<open>The hooks\<close>

definition pthread_create :: "'w os \<Rightarrow> arg \<Rightarrow> arg \<Rightarrow> arg \<Rightarrow> arg \<Rightarrow> 'w call" where
  "pthread_create os thread attr start_routine arg =
     logged (DPRINTF (logger os) ''pthread_create'' (''pthread_create called'' @ nl) [])
       (reeact_policy_pthread_create os thread attr start_routine arg)"

definition pthread_barrier_init :: "'w os \<Rightarrow> arg \<Rightarrow> arg \<Rightarrow> arg \<Rightarrow> 'w call" where
  "pthread_barrier_init os barrier attr count = reeact_policy_pthread_barrier_init os barrier attr count"

definition pthread_barrier_wait :: "'w os \<Rightarrow> arg \<Rightarrow> 'w call" where
  "pthread_barrier_wait os barrier = reeact_policy_pthread_barrier_wait os barrier"

definition pthread_barrier_destroy :: "'w os \<Rightarrow> arg \<Rightarrow> 'w call" where
  "pthread_barrier_destroy os barrier = reeact_policy_pthread_barrier_destroy os barrier"

definition pthread_mutex_init :: "'w os \<Rightarrow> arg \<Rightarrow> arg \<Rightarrow> 'w call" where
  "pthread_mutex_init os mutex attr = reeact_policy_pthread_mutex_init os mutex attr"

definition pthread_mutex_lock :: "'w os \<Rightarrow> arg \<Rightarrow> 'w call" where
  "pthread_mutex_lock os mutex = reeact_policy_pthread_mutex_lock os mutex"

definition pthread_mutex_trylock :: "'w os \<Rightarrow> arg \<Rightarrow> 'w call" where
  "pthread_mutex_trylock os mutex = reeact_policy_pthread_mutex_trylock os mutex"

definition pthread_mutex_timedlock :: "'w os \<Rightarrow> arg \<Rightarrow> arg \<Rightarrow> 'w call" where
  "pthread_mutex_timedlock os mutex abs_timeout = reeact_policy_pthread_mutex_timedlock os mutex abs_timeout"

definition pthread_mutex_unlock :: "'w os \<Rightarrow> arg \<Rightarrow> 'w call" where
  "pthread_mutex_unlock os mutex = reeact_policy_pthread_mutex_unlock os mutex"

definition pthread_mutex_consistent :: "'w os \<Rightarrow> arg \<Rightarrow> 'w call" where
  "pthread_mutex_consistent os mutex = reeact_policy_pthread_mutex_consistent os mutex"

definition pthread_mutex_destroy :: "'w os \<Rightarrow> arg \<Rightarrow> 'w call" where
  "pthread_mutex_destroy os mutex = reeact_policy_pthread_mutex_destroy os mutex"

definition pthread_cond_init :: "'w os \<Rightarrow> arg \<Rightarrow> arg \<Rightarrow> 'w call" where
  "pthread_cond_init os cond attr = reeact_policy_pthread_cond_init os cond attr"

definition pthread_cond_signal :: "'w os \<Rightarrow> arg \<Rightarrow> 'w call" where
  "pthread_cond_signal os cond = reeact_policy_pthread_cond_signal os cond"

definition pthread_cond_broadcast :: "'w os \<Rightarrow> arg \<Rightarrow> 'w call" where
  "pthread_cond_broadcast os cond = reeact_policy_pthread_cond_broadcast os cond"

definition pthread_cond_destroy :: "'w os \<Rightarrow> arg \<Rightarrow> 'w call" where
  "pthread_cond_destroy os cond = reeact_policy_pthread_cond_destroy os cond"

definition pthread_cond_wait :: "'w os \<Rightarrow> arg \<Rightarrow> arg \<Rightarrow> 'w call" where
  "pthread_cond_wait os cond mutex = reeact_policy_pthread_cond_wait os cond mutex"

definition pthread_cond_timedwait :: "'w os \<Rightarrow> arg \<Rightarrow> arg \<Rightarrow> arg \<Rightarrow> 'w call" where
  "pthread_cond_timedwait os cond mutex abstime = reeact_policy_pthread_cond_timedwait os cond mutex abstime"

section \<open>Initialization\<close>

definition REEACT_PTHREAD_HOOKS_ERR_LOAD_ORIGINAL_FUNCTION :: int where
  "REEACT_PTHREAD_HOOKS_ERR_LOAD_ORIGINAL_FUNCTION = 1"

definition load_original :: "'w os \<Rightarrow> string \<Rightarrow> (addr option \<Rightarrow> 'w process \<Rightarrow> 'w process) \<Rightarrow>
    'w process \<Rightarrow> 'w process" where
  "load_original os name assign p = (case dlsym os name p of (f, q) \<Rightarrow> assign f q)"

text \<open>The look-ups, in the order of the code.\<close>

definition load_originals :: "'w os \<Rightarrow> 'w process \<Rightarrow> 'w process" where
  "load_originals os p =
     (let p = load_original os ''pthread_create'' (\<lambda>f p. p\<lparr>real_pthread_create := f\<rparr>) p;
      p = load_original os ''pthread_barrier_init'' (\<lambda>f p. p\<lparr>real_pthread_barrier_init := f\<rparr>) p;
      p = load_original os ''pthread_barrier_wait'' (\<lambda>f p. p\<lparr>real_pthread_barrier_wait := f\<rparr>) p;
      p = load_original os ''pthread_barrier_destroy'' (\<lambda>f p. p\<lparr>real_pthread_barrier_destroy := f\<rparr>) p;
      p = load_original os ''pthread_mutex_init'' (\<lambda>f p. p\<lparr>real_pthread_mutex_init := f\<rparr>) p;
      p = load_original os ''pthread_mutex_lock'' (\<lambda>f p. p\<lparr>real_pthread_mutex_lock := f\<rparr>) p;
      p = load_original os ''pthread_mutex_trylock'' (\<lambda>f p. p\<lparr>real_pthread_mutex_trylock := f\<rparr>) p;
      p = load_original os ''pthread_mutex_unlock'' (\<lambda>f p. p\<lparr>real_pthread_mutex_unlock := f\<rparr>) p;
      p = load_original os ''pthread_mutex_consistent'' (\<lambda>f p. p\<lparr>real_pthread_mutex_consistent := f\<rparr>) p;
      p = load_original os ''pthread_mutex_destroy'' (\<lambda>f p. p\<lparr>real_pthread_mutex_destroy := f\<rparr>) p;
      p = load_original os ''pthread_mutex_timedlock'' (\<lambda>f p. p\<lparr>real_pthread_mutex_timedlock := f\<rparr>) p;
      p = load_original os ''pthread_cond_init'' (\<lambda>f p. p\<lparr>real_pthread_cond_init := f\<rparr>) p;
      p = load_original os ''pthread_cond_destroy'' (\<lambda>f p. p\<lparr>real_pthread_cond_destroy := f\<rparr>) p;
      p = load_original os ''pthread_cond_signal'' (\<lambda>f p. p\<lparr>real_pthread_cond_signal := f\<rparr>) p;
      p = load_original os ''pthread_cond_broadcast'' (\<lambda>f p. p\<lparr>real_pthread_cond_broadcast := f\<rparr>) p;
      p = load_original os ''pthread_cond_wait'' (\<lambda>f p. p\<lparr>real_pthread_cond_wait := f\<rparr>) p;
      p = load_original os ''pthread_cond_timedwait'' (\<lambda>f p. p\<lparr>real_pthread_cond_timedwait := f\<rparr>) p
      in p)"

definition reeact_pthread_hooks_init :: "'w os \<Rightarrow> 'w call" where
  "reeact_pthread_hooks_init os p =
     (let (old, p) = dlerror p;
          p = load_originals os p;
          (error, p) = dlerror p
      in case error of None \<Rightarrow> Returned 0 p
         | Some text \<Rightarrow>
             logged (LOGERR (logger os) ''reeact_pthread_hooks_init''
                 (''Error opening original pthread functions with error :%s'' @ nl) [Str text])
               (Returned REEACT_PTHREAD_HOOKS_ERR_LOAD_ORIGINAL_FUNCTION) p)"

definition reeact_pthread_hooks_cleanup :: int where "reeact_pthread_hooks_cleanup = 0"

section \<open>The gomp interface\<close>

text \<open>
  A patched libgomp calls these first and goes on with its own barrier unless they return 0.
  The default policy always returns 1. Of the stubs without the default policy only the last
  four return a value. Nothing is looked up at initialization.
\<close>

definition reeact_gomp_barrier_init :: "'w os \<Rightarrow> arg \<Rightarrow> arg \<Rightarrow> 'w call" where
  "reeact_gomp_barrier_init os bar count p = (let fname = ''reeact_gomp_barrier_init'' in
     if default_policy os then
       logged (DPRINTF (logger os) fname (''%s called with bar %p, count %u'' @ nl)
         [Str fname, Ptr bar, Uns (ucast count)]) (Returned 1) p
     else NoValue p)"

definition reeact_gomp_barrier_reinit :: "'w os \<Rightarrow> arg \<Rightarrow> arg \<Rightarrow> 'w call" where
  "reeact_gomp_barrier_reinit os bar count p = (let fname = ''reeact_gomp_barrier_reinit'' in
     if default_policy os then
       logged (DPRINTF (logger os) fname (''%s called with bar %p, count %u'' @ nl)
         [Str fname, Ptr bar, Uns (ucast count)]) (Returned 1) p
     else NoValue p)"

definition reeact_gomp_barrier_destroy :: "'w os \<Rightarrow> arg \<Rightarrow> 'w call" where
  "reeact_gomp_barrier_destroy os bar p = (let fname = ''reeact_gomp_barrier_destroy'' in
     if default_policy os then
       logged (DPRINTF (logger os) fname (''%s called with bar %p'' @ nl)
         [Str fname, Ptr bar]) (Returned 1) p
     else NoValue p)"

definition reeact_gomp_barrier_wait :: "'w os \<Rightarrow> arg \<Rightarrow> 'w call" where
  "reeact_gomp_barrier_wait os bar p = (let fname = ''reeact_gomp_barrier_wait'' in
     if default_policy os then
       logged (DPRINTF (logger os) fname (''%s called with bar %p'' @ nl)
         [Str fname, Ptr bar]) (Returned 1) p
     else NoValue p)"

definition reeact_gomp_barrier_wait_last :: "'w os \<Rightarrow> arg \<Rightarrow> 'w call" where
  "reeact_gomp_barrier_wait_last os bar p = (let fname = ''reeact_gomp_barrier_wait_last'' in
     if default_policy os then
       logged (DPRINTF (logger os) fname (''%s called with bar %p'' @ nl)
         [Str fname, Ptr bar]) (Returned 1) p
     else NoValue p)"

definition reeact_gomp_barrier_wait_end :: "'w os \<Rightarrow> arg \<Rightarrow> arg \<Rightarrow> 'w call" where
  "reeact_gomp_barrier_wait_end os bar state p = (let fname = ''reeact_gomp_barrier_wait_end'' in
     if default_policy os then
       logged (DPRINTF (logger os) fname (''%s called with bar %p and state %d'' @ nl)
         [Str fname, Ptr bar, Dec (sint (ucast state :: u32))]) (Returned 1) p
     else NoValue p)"

definition reeact_gomp_team_barrier_wait :: "'w os \<Rightarrow> arg \<Rightarrow> 'w call" where
  "reeact_gomp_team_barrier_wait os bar p = (let fname = ''reeact_gomp_team_barrier_wait'' in
     if default_policy os then
       logged (DPRINTF (logger os) fname (''%s called with bar %p'' @ nl)
         [Str fname, Ptr bar]) (Returned 1) p
     else NoValue p)"

definition reeact_gomp_team_barrier_wait_end :: "'w os \<Rightarrow> arg \<Rightarrow> arg \<Rightarrow> 'w call" where
  "reeact_gomp_team_barrier_wait_end os bar state p = (let fname = ''reeact_gomp_team_barrier_wait_end'' in
     if default_policy os then
       logged (DPRINTF (logger os) fname (''%s called with bar %p and state %d'' @ nl)
         [Str fname, Ptr bar, Dec (sint (ucast state :: u32))]) (Returned 1) p
     else NoValue p)"

definition reeact_gomp_team_barrier_wake :: "'w os \<Rightarrow> arg \<Rightarrow> arg \<Rightarrow> 'w call" where
  "reeact_gomp_team_barrier_wake os bar count p = (let fname = ''reeact_gomp_team_barrier_wake'' in
     if default_policy os then
       logged (DPRINTF (logger os) fname (''%s called with bar %p and count %d'' @ nl)
         [Str fname, Ptr bar, Dec (sint (ucast count :: u32))]) (Returned 1) p
     else NoValue p)"

definition reeact_gomp_team_barrier_set_task_pending :: "'w os \<Rightarrow> arg \<Rightarrow> 'w call" where
  "reeact_gomp_team_barrier_set_task_pending os bar p = (let fname = ''reeact_gomp_team_barrier_set_task_pending'' in
     if default_policy os then
       logged (DPRINTF (logger os) fname (''%s called with bar %p'' @ nl)
         [Str fname, Ptr bar]) (Returned 1) p
     else NoValue p)"

definition reeact_gomp_team_barrier_clear_task_pending :: "'w os \<Rightarrow> arg \<Rightarrow> 'w call" where
  "reeact_gomp_team_barrier_clear_task_pending os bar p = (let fname = ''reeact_gomp_team_barrier_clear_task_pending'' in
     if default_policy os then
       logged (DPRINTF (logger os) fname (''%s called with bar %p'' @ nl)
         [Str fname, Ptr bar]) (Returned 1) p
     else NoValue p)"

definition reeact_gomp_team_barrier_set_waiting_for_tasks :: "'w os \<Rightarrow> arg \<Rightarrow> 'w call" where
  "reeact_gomp_team_barrier_set_waiting_for_tasks os bar p = (let fname = ''reeact_gomp_team_barrier_set_waiting_for_tasks'' in
     if default_policy os then
       logged (DPRINTF (logger os) fname (''%s called with bar %p'' @ nl)
         [Str fname, Ptr bar]) (Returned 1) p
     else NoValue p)"

definition reeact_gomp_team_barrier_done :: "'w os \<Rightarrow> arg \<Rightarrow> arg \<Rightarrow> 'w call" where
  "reeact_gomp_team_barrier_done os bar state p = (let fname = ''reeact_gomp_team_barrier_done'' in
     if default_policy os then
       logged (DPRINTF (logger os) fname (''%s called with bar %p and state %d'' @ nl)
         [Str fname, Ptr bar, Dec (sint (ucast state :: u32))]) (Returned 1) p
     else Returned 0 p)"

definition reeact_gomp_team_barrier_waiting_for_tasks :: "'w os \<Rightarrow> arg \<Rightarrow> arg \<Rightarrow> 'w call" where
  "reeact_gomp_team_barrier_waiting_for_tasks os bar ret_val p = (let fname = ''reeact_gomp_team_barrier_waiting_for_tasks'' in
     if default_policy os then
       logged (DPRINTF (logger os) fname (''%s called with bar %p'' @ nl)
         [Str fname, Ptr bar]) (Returned 1) p
     else Returned 0 p)"

definition reeact_gomp_barrier_last_thread :: "'w os \<Rightarrow> arg \<Rightarrow> arg \<Rightarrow> 'w call" where
  "reeact_gomp_barrier_last_thread os state ret_val p = (let fname = ''reeact_gomp_barrier_last_thread'' in
     if default_policy os then
       logged (DPRINTF (logger os) fname (''%s called with state %d'' @ nl)
         [Str fname, Dec (sint (ucast state :: u32))]) (Returned 1) p
     else Returned 0 p)"

definition reeact_gomp_barrier_wait_start :: "'w os \<Rightarrow> arg \<Rightarrow> arg \<Rightarrow> 'w call" where
  "reeact_gomp_barrier_wait_start os bar ret_val p = (let fname = ''reeact_gomp_barrier_wait_start'' in
     if default_policy os then
       logged (DPRINTF (logger os) fname (''%s called with bar %p'' @ nl)
         [Str fname, Ptr bar]) (Returned 1) p
     else Returned 0 p)"

definition reeact_gomp_hooks_init :: int where "reeact_gomp_hooks_init = 0"

definition reeact_gomp_hooks_cleanup :: int where "reeact_gomp_hooks_cleanup = 0"

section \<open>All hooks at once\<close>

text \<open>A call of the program, the symbol of the original function and what it is passed.\<close>

datatype hook_call =
    Call_create arg arg arg arg
  | Call_barrier_init arg arg arg
  | Call_barrier_wait arg
  | Call_barrier_destroy arg
  | Call_mutex_init arg arg
  | Call_mutex_lock arg
  | Call_mutex_trylock arg
  | Call_mutex_timedlock arg arg
  | Call_mutex_unlock arg
  | Call_mutex_consistent arg
  | Call_mutex_destroy arg
  | Call_cond_init arg arg
  | Call_cond_signal arg
  | Call_cond_broadcast arg
  | Call_cond_destroy arg
  | Call_cond_wait arg arg
  | Call_cond_timedwait arg arg arg

fun through_hook :: "'w os \<Rightarrow> hook_call \<Rightarrow> 'w call" where
  "through_hook os (Call_create thread attr start_routine arg) = pthread_create os thread attr start_routine arg"
| "through_hook os (Call_barrier_init barrier attr count) = pthread_barrier_init os barrier attr count"
| "through_hook os (Call_barrier_wait barrier) = pthread_barrier_wait os barrier"
| "through_hook os (Call_barrier_destroy barrier) = pthread_barrier_destroy os barrier"
| "through_hook os (Call_mutex_init mutex attr) = pthread_mutex_init os mutex attr"
| "through_hook os (Call_mutex_lock mutex) = pthread_mutex_lock os mutex"
| "through_hook os (Call_mutex_trylock mutex) = pthread_mutex_trylock os mutex"
| "through_hook os (Call_mutex_timedlock mutex abs_timeout) = pthread_mutex_timedlock os mutex abs_timeout"
| "through_hook os (Call_mutex_unlock mutex) = pthread_mutex_unlock os mutex"
| "through_hook os (Call_mutex_consistent mutex) = pthread_mutex_consistent os mutex"
| "through_hook os (Call_mutex_destroy mutex) = pthread_mutex_destroy os mutex"
| "through_hook os (Call_cond_init cond attr) = pthread_cond_init os cond attr"
| "through_hook os (Call_cond_signal cond) = pthread_cond_signal os cond"
| "through_hook os (Call_cond_broadcast cond) = pthread_cond_broadcast os cond"
| "through_hook os (Call_cond_destroy cond) = pthread_cond_destroy os cond"
| "through_hook os (Call_cond_wait cond mutex) = pthread_cond_wait os cond mutex"
| "through_hook os (Call_cond_timedwait cond mutex abstime) = pthread_cond_timedwait os cond mutex abstime"

fun symbol :: "hook_call \<Rightarrow> string" where
  "symbol (Call_create thread attr start_routine arg) = ''pthread_create''"
| "symbol (Call_barrier_init barrier attr count) = ''pthread_barrier_init''"
| "symbol (Call_barrier_wait barrier) = ''pthread_barrier_wait''"
| "symbol (Call_barrier_destroy barrier) = ''pthread_barrier_destroy''"
| "symbol (Call_mutex_init mutex attr) = ''pthread_mutex_init''"
| "symbol (Call_mutex_lock mutex) = ''pthread_mutex_lock''"
| "symbol (Call_mutex_trylock mutex) = ''pthread_mutex_trylock''"
| "symbol (Call_mutex_timedlock mutex abs_timeout) = ''pthread_mutex_timedlock''"
| "symbol (Call_mutex_unlock mutex) = ''pthread_mutex_unlock''"
| "symbol (Call_mutex_consistent mutex) = ''pthread_mutex_consistent''"
| "symbol (Call_mutex_destroy mutex) = ''pthread_mutex_destroy''"
| "symbol (Call_cond_init cond attr) = ''pthread_cond_init''"
| "symbol (Call_cond_signal cond) = ''pthread_cond_signal''"
| "symbol (Call_cond_broadcast cond) = ''pthread_cond_broadcast''"
| "symbol (Call_cond_destroy cond) = ''pthread_cond_destroy''"
| "symbol (Call_cond_wait cond mutex) = ''pthread_cond_wait''"
| "symbol (Call_cond_timedwait cond mutex abstime) = ''pthread_cond_timedwait''"

fun passed :: "hook_call \<Rightarrow> arg list" where
  "passed (Call_create thread attr start_routine arg) = [thread, attr, start_routine, arg]"
| "passed (Call_barrier_init barrier attr count) = [barrier, attr, count]"
| "passed (Call_barrier_wait barrier) = [barrier]"
| "passed (Call_barrier_destroy barrier) = [barrier]"
| "passed (Call_mutex_init mutex attr) = [mutex, attr]"
| "passed (Call_mutex_lock mutex) = [mutex]"
| "passed (Call_mutex_trylock mutex) = [mutex]"
| "passed (Call_mutex_timedlock mutex abs_timeout) = [mutex, abs_timeout]"
| "passed (Call_mutex_unlock mutex) = [mutex]"
| "passed (Call_mutex_consistent mutex) = [mutex]"
| "passed (Call_mutex_destroy mutex) = [mutex]"
| "passed (Call_cond_init cond attr) = [cond, attr]"
| "passed (Call_cond_signal cond) = [cond]"
| "passed (Call_cond_broadcast cond) = [cond]"
| "passed (Call_cond_destroy cond) = [cond]"
| "passed (Call_cond_wait cond mutex) = [cond, mutex]"
| "passed (Call_cond_timedwait cond mutex abstime) = [cond, mutex, abstime]"

text \<open>The symbols in the order of the look-ups.\<close>

definition hooked_symbols :: "string list" where
  "hooked_symbols = [''pthread_create'',
     ''pthread_barrier_init'',
     ''pthread_barrier_wait'',
     ''pthread_barrier_destroy'',
     ''pthread_mutex_init'',
     ''pthread_mutex_lock'',
     ''pthread_mutex_trylock'',
     ''pthread_mutex_unlock'',
     ''pthread_mutex_consistent'',
     ''pthread_mutex_destroy'',
     ''pthread_mutex_timedlock'',
     ''pthread_cond_init'',
     ''pthread_cond_destroy'',
     ''pthread_cond_signal'',
     ''pthread_cond_broadcast'',
     ''pthread_cond_wait'',
     ''pthread_cond_timedwait'']"

fun pointer :: "'w process \<Rightarrow> hook_call \<Rightarrow> addr option" where
  "pointer p (Call_create thread attr start_routine arg) = real_pthread_create p"
| "pointer p (Call_barrier_init barrier attr count) = real_pthread_barrier_init p"
| "pointer p (Call_barrier_wait barrier) = real_pthread_barrier_wait p"
| "pointer p (Call_barrier_destroy barrier) = real_pthread_barrier_destroy p"
| "pointer p (Call_mutex_init mutex attr) = real_pthread_mutex_init p"
| "pointer p (Call_mutex_lock mutex) = real_pthread_mutex_lock p"
| "pointer p (Call_mutex_trylock mutex) = real_pthread_mutex_trylock p"
| "pointer p (Call_mutex_timedlock mutex abs_timeout) = real_pthread_mutex_timedlock p"
| "pointer p (Call_mutex_unlock mutex) = real_pthread_mutex_unlock p"
| "pointer p (Call_mutex_consistent mutex) = real_pthread_mutex_consistent p"
| "pointer p (Call_mutex_destroy mutex) = real_pthread_mutex_destroy p"
| "pointer p (Call_cond_init cond attr) = real_pthread_cond_init p"
| "pointer p (Call_cond_signal cond) = real_pthread_cond_signal p"
| "pointer p (Call_cond_broadcast cond) = real_pthread_cond_broadcast p"
| "pointer p (Call_cond_destroy cond) = real_pthread_cond_destroy p"
| "pointer p (Call_cond_wait cond mutex) = real_pthread_cond_wait p"
| "pointer p (Call_cond_timedwait cond mutex abstime) = real_pthread_cond_timedwait p"

text \<open>The calls of libgomp, the names of the functions and how their arguments are written.\<close>

datatype gomp_call =
    Gomp_barrier_init arg arg
  | Gomp_barrier_reinit arg arg
  | Gomp_barrier_destroy arg
  | Gomp_barrier_wait arg
  | Gomp_barrier_wait_last arg
  | Gomp_barrier_wait_end arg arg
  | Gomp_team_barrier_wait arg
  | Gomp_team_barrier_wait_end arg arg
  | Gomp_team_barrier_wake arg arg
  | Gomp_team_barrier_set_task_pending arg
  | Gomp_team_barrier_clear_task_pending arg
  | Gomp_team_barrier_set_waiting_for_tasks arg
  | Gomp_team_barrier_done arg arg
  | Gomp_team_barrier_waiting_for_tasks arg arg
  | Gomp_barrier_last_thread arg arg
  | Gomp_barrier_wait_start arg arg

fun through_gomp :: "'w os \<Rightarrow> gomp_call \<Rightarrow> 'w call" where
  "through_gomp os (Gomp_barrier_init bar count) = reeact_gomp_barrier_init os bar count"
| "through_gomp os (Gomp_barrier_reinit bar count) = reeact_gomp_barrier_reinit os bar count"
| "through_gomp os (Gomp_barrier_destroy bar) = reeact_gomp_barrier_destroy os bar"
| "through_gomp os (Gomp_barrier_wait bar) = reeact_gomp_barrier_wait os bar"
| "through_gomp os (Gomp_barrier_wait_last bar) = reeact_gomp_barrier_wait_last os bar"
| "through_gomp os (Gomp_barrier_wait_end bar state) = reeact_gomp_barrier_wait_end os bar state"
| "through_gomp os (Gomp_team_barrier_wait bar) = reeact_gomp_team_barrier_wait os bar"
| "through_gomp os (Gomp_team_barrier_wait_end bar state) = reeact_gomp_team_barrier_wait_end os bar state"
| "through_gomp os (Gomp_team_barrier_wake bar count) = reeact_gomp_team_barrier_wake os bar count"
| "through_gomp os (Gomp_team_barrier_set_task_pending bar) = reeact_gomp_team_barrier_set_task_pending os bar"
| "through_gomp os (Gomp_team_barrier_clear_task_pending bar) = reeact_gomp_team_barrier_clear_task_pending os bar"
| "through_gomp os (Gomp_team_barrier_set_waiting_for_tasks bar) = reeact_gomp_team_barrier_set_waiting_for_tasks os bar"
| "through_gomp os (Gomp_team_barrier_done bar state) = reeact_gomp_team_barrier_done os bar state"
| "through_gomp os (Gomp_team_barrier_waiting_for_tasks bar ret_val) = reeact_gomp_team_barrier_waiting_for_tasks os bar ret_val"
| "through_gomp os (Gomp_barrier_last_thread state ret_val) = reeact_gomp_barrier_last_thread os state ret_val"
| "through_gomp os (Gomp_barrier_wait_start bar ret_val) = reeact_gomp_barrier_wait_start os bar ret_val"

fun gomp_name :: "gomp_call \<Rightarrow> string" where
  "gomp_name (Gomp_barrier_init bar count) = ''reeact_gomp_barrier_init''"
| "gomp_name (Gomp_barrier_reinit bar count) = ''reeact_gomp_barrier_reinit''"
| "gomp_name (Gomp_barrier_destroy bar) = ''reeact_gomp_barrier_destroy''"
| "gomp_name (Gomp_barrier_wait bar) = ''reeact_gomp_barrier_wait''"
| "gomp_name (Gomp_barrier_wait_last bar) = ''reeact_gomp_barrier_wait_last''"
| "gomp_name (Gomp_barrier_wait_end bar state) = ''reeact_gomp_barrier_wait_end''"
| "gomp_name (Gomp_team_barrier_wait bar) = ''reeact_gomp_team_barrier_wait''"
| "gomp_name (Gomp_team_barrier_wait_end bar state) = ''reeact_gomp_team_barrier_wait_end''"
| "gomp_name (Gomp_team_barrier_wake bar count) = ''reeact_gomp_team_barrier_wake''"
| "gomp_name (Gomp_team_barrier_set_task_pending bar) = ''reeact_gomp_team_barrier_set_task_pending''"
| "gomp_name (Gomp_team_barrier_clear_task_pending bar) = ''reeact_gomp_team_barrier_clear_task_pending''"
| "gomp_name (Gomp_team_barrier_set_waiting_for_tasks bar) = ''reeact_gomp_team_barrier_set_waiting_for_tasks''"
| "gomp_name (Gomp_team_barrier_done bar state) = ''reeact_gomp_team_barrier_done''"
| "gomp_name (Gomp_team_barrier_waiting_for_tasks bar ret_val) = ''reeact_gomp_team_barrier_waiting_for_tasks''"
| "gomp_name (Gomp_barrier_last_thread state ret_val) = ''reeact_gomp_barrier_last_thread''"
| "gomp_name (Gomp_barrier_wait_start bar ret_val) = ''reeact_gomp_barrier_wait_start''"

fun gomp_args :: "gomp_call \<Rightarrow> string" where
  "gomp_args (Gomp_barrier_init bar count) = ''bar '' @ show_ptr (unat bar) @ '', count '' @ show_nat (unat (ucast count :: u32))"
| "gomp_args (Gomp_barrier_reinit bar count) = ''bar '' @ show_ptr (unat bar) @ '', count '' @ show_nat (unat (ucast count :: u32))"
| "gomp_args (Gomp_barrier_destroy bar) = ''bar '' @ show_ptr (unat bar)"
| "gomp_args (Gomp_barrier_wait bar) = ''bar '' @ show_ptr (unat bar)"
| "gomp_args (Gomp_barrier_wait_last bar) = ''bar '' @ show_ptr (unat bar)"
| "gomp_args (Gomp_barrier_wait_end bar state) = ''bar '' @ show_ptr (unat bar) @ '' and state '' @ show_int (sint (ucast state :: u32))"
| "gomp_args (Gomp_team_barrier_wait bar) = ''bar '' @ show_ptr (unat bar)"
| "gomp_args (Gomp_team_barrier_wait_end bar state) = ''bar '' @ show_ptr (unat bar) @ '' and state '' @ show_int (sint (ucast state :: u32))"
| "gomp_args (Gomp_team_barrier_wake bar count) = ''bar '' @ show_ptr (unat bar) @ '' and count '' @ show_int (sint (ucast count :: u32))"
| "gomp_args (Gomp_team_barrier_set_task_pending bar) = ''bar '' @ show_ptr (unat bar)"
| "gomp_args (Gomp_team_barrier_clear_task_pending bar) = ''bar '' @ show_ptr (unat bar)"
| "gomp_args (Gomp_team_barrier_set_waiting_for_tasks bar) = ''bar '' @ show_ptr (unat bar)"
| "gomp_args (Gomp_team_barrier_done bar state) = ''bar '' @ show_ptr (unat bar) @ '' and state '' @ show_int (sint (ucast state :: u32))"
| "gomp_args (Gomp_team_barrier_waiting_for_tasks bar ret_val) = ''bar '' @ show_ptr (unat bar)"
| "gomp_args (Gomp_barrier_last_thread state ret_val) = ''state '' @ show_int (sint (ucast state :: u32))"
| "gomp_args (Gomp_barrier_wait_start bar ret_val) = ''bar '' @ show_ptr (unat bar)"

end
