(* ===== verification/Core.thy ===== *)
theory Core imports Topology Hooks begin

text \<open>
  The framework of src/reeact.c: the constructor \<open>reeact_init\<close>, which fills the data of the
  process, reads the topology, prints it in the debug build (the default target of the
  Makefile) and initializes hooks and policy, and the destructor \<open>reeact_cleanup\<close>. All log output
  goes to the one log of the process, in the order of the code.
\<close>

section \<open>The data of the process\<close>

record reeact_data =
  pid :: int
  proc_name_short :: "string option"
  proc_name_long :: "string option"
  policy_data :: "addr option"
  topology :: processor_topo

text \<open>
  The log functions ask the same system everywhere: process id and short name are those of
  \<open>logger\<close>. \<open>policy_init_flag\<close> is \<open>_REEACT_DEFAULT_POLICY\<close> (without the last underscore), which
  the initialization of the policy tests and the Makefile does not define.
\<close>

record 'w reeact_env =
  linker :: "'w os"
  list_parser :: parser
  system :: sysenv
  invocation_name :: string
  calloc_ok :: bool
  policy_init_flag :: bool

definition log_of :: "'w reeact_env \<Rightarrow> log_env" where "log_of env = logger (linker env)"

definition sys_of :: "'w reeact_env \<Rightarrow> sysenv" where "sys_of env = (system env)\<lparr>logging := log_of env\<rparr>"

text \<open>\<open>freed\<close>: the memory of the handle has been given back (the pointer keeps its value);
  \<open>streams\<close>: the streams the library has left open.\<close>

record 'w reeact_state =
  reeact_handle :: "reeact_data option"
  freed :: bool
  process :: "'w process"
  streams :: nat

text \<open>What \<open>calloc\<close> hands out: zeros and NULL pointers.\<close>

definition zero_data :: reeact_data where
  "zero_data = \<lparr>pid = 0, proc_name_short = None, proc_name_long = None, policy_data = None,
     topology = \<lparr>nodes = None, cores = None, socket_cnt = 0, node_cnt = 0, core_cnt = 0\<rparr>\<rparr>"

definition reeact_per_proc_init :: "'w reeact_env \<Rightarrow> reeact_data option \<Rightarrow> log_state \<Rightarrow>
    (int \<times> reeact_data option \<times> log_state) option" where
  "reeact_per_proc_init env rh l = (case rh of
       None \<Rightarrow> map_option (\<lambda>l. (1, None, l))
         (print_err (''%d %s: reeact_per_proc_init: REEact data is NULL'' @ nl)
           [Dec (process_id (log_of env)), Str (short_name (log_of env))] l)
     | Some d \<Rightarrow> Some (0, Some (d\<lparr>pid := process_id (log_of env),
         proc_name_short := Some (short_name (log_of env)),
         proc_name_long := Some (invocation_name env)\<rparr>), l))"

definition reeact_policy_init :: "bool \<Rightarrow> reeact_data \<Rightarrow> int \<times> reeact_data" where
  "reeact_policy_init flag d = (if flag then (0, d\<lparr>policy_data := None\<rparr>) else (0, d))"

section \<open>Printing the topology\<close>

abbreviation tab :: string where "tab \<equiv> [CHR 0x09]"

text \<open>The arrays are read where the counts point to; an index that leaves them is undefined.\<close>

definition print_core :: "int \<Rightarrow> nat \<Rightarrow> unit \<Rightarrow> unit prog" where
  "print_core node_id k = (\<lambda>_.
     andthen (reads (\<lambda>st. load (cores st) (node_id * core_cnt st + int k))) (\<lambda>c.
     andthen (defined c) (\<lambda>v. say (print_err ''%d '' [Dec v]))))"

definition print_node :: "nat \<Rightarrow> nat \<Rightarrow> unit \<Rightarrow> unit prog" where
  "print_node i j = (\<lambda>_.
     andthen (reads (\<lambda>st. load (nodes st) (int i * node_cnt st + int j))) (\<lambda>n.
     andthen (defined n) (\<lambda>node_id.
     andthen (say (print_err (tab @ '' Node %d:'' @ nl @ tab @ tab) [Dec node_id])) (\<lambda>_.
     andthen (reads core_cnt) (\<lambda>core_cnt.
     andthen (for_each [0..<nat core_cnt] (print_core node_id) ()) (\<lambda>_.
     say (print_err nl [])))))))"

definition print_socket :: "nat \<Rightarrow> unit \<Rightarrow> unit prog" where
  "print_socket i = (\<lambda>_.
     andthen (say (print_err (''Socket %d:'' @ nl) [Dec (int i)])) (\<lambda>_.
     andthen (reads node_cnt) (\<lambda>node_cnt.
     for_each [0..<nat node_cnt] (print_node i) ())))"

definition reeact_log_topology :: "log_env \<Rightarrow> unit prog" where
  "reeact_log_topology env =
     (if debug env then
        andthen (reads (\<lambda>st. [Dec (socket_cnt st), Dec (node_cnt st), Dec (core_cnt st)])) (\<lambda>counts.
        andthen (say (DPRINTF env ''reeact_log_topology''
          (''Socket count is %d, node per socket is %d, cores per node is %d'' @ nl) counts)) (\<lambda>_.
        andthen (reads socket_cnt) (\<lambda>socket_cnt.
        for_each [0..<nat socket_cnt] print_socket ())))
      else yield ())"

section \<open>Constructor and destructor\<close>

text \<open>A failed step is logged and the next one goes on.\<close>

definition report :: "'w reeact_env \<Rightarrow> string \<Rightarrow> string \<Rightarrow> int \<Rightarrow> log_state \<Rightarrow> log_state option" where
  "report env func what ret_val l =
     (if ret_val \<noteq> 0 then LOGERR (log_of env) func (what @ '' with error %d'' @ nl) [Dec ret_val] l else Some l)"

text \<open>\<open>None\<close>: undefined behaviour.\<close>

definition reeact_init :: "'w reeact_env \<Rightarrow> 'w reeact_state \<Rightarrow> 'w reeact_state option" where
  "reeact_init env s =
     Option.bind (DPRINTF (log_of env) ''reeact_init'' (''reeact initialization'' @ nl) [] (stderr (process s))) (\<lambda>l.
     if \<not> calloc_ok env then
       Option.bind (LOGERRX ((log_of env)\<lparr>errno := ENOMEM\<rparr>) ''reeact_init''
           ''Unable to allocate memory for REEact data: '' [] l) (\<lambda>l.
       Some (s\<lparr>reeact_handle := None, process := (process s)\<lparr>stderr := l\<rparr>\<rparr>))
     else (case reeact_per_proc_init env (Some zero_data) l of
       Some (r, Some d, l) \<Rightarrow>
         (case reeact_get_topology (list_parser env) (sys_of env) True
             (processor_topo.extend (topology d) (topo.fields (streams s) l)) of
           Return ret t \<Rightarrow>
             (case reeact_log_topology (log_of env) t of
               Go u t \<Rightarrow>
                 (case reeact_pthread_hooks_init (linker env) ((process s)\<lparr>stderr := messages t\<rparr>) of
                   Returned ret_val p \<Rightarrow>
                     Option.bind (report env ''reeact_init'' ''Error initializing pthread hooks'' ret_val (stderr p)) (\<lambda>l.
                     Option.bind (report env ''reeact_init'' ''Error initializing gomp hooks'' reeact_gomp_hooks_init l) (\<lambda>l.
                     let (ret_val, d) = reeact_policy_init (policy_init_flag env)
                           (d\<lparr>topology := processor_topo.truncate t\<rparr>) in
                     Option.bind (report env ''reeact_init'' ''Error initializing user policy'' ret_val l) (\<lambda>l.
                     Some (s\<lparr>reeact_handle := Some d, process := p\<lparr>stderr := l\<rparr>, streams := open_files t\<rparr>))))
                 | _ \<Rightarrow> None)
             | _ \<Rightarrow> None)
         | _ \<Rightarrow> None)
     | _ \<Rightarrow> None))"

text \<open>\<open>None\<close>: the handle is freed a second time. The two messages are exchanged in the code.\<close>

definition reeact_cleanup :: "'w reeact_env \<Rightarrow> 'w reeact_state \<Rightarrow> 'w reeact_state option" where
  "reeact_cleanup env s =
     Option.bind (DPRINTF (log_of env) ''reeact_cleanup'' (''reeact cleanup'' @ nl) [] (stderr (process s))) (\<lambda>l.
     Option.bind (report env ''reeact_cleanup'' ''Error cleaning up pthread hooks'' reeact_policy_cleanup l) (\<lambda>l.
     Option.bind (report env ''reeact_cleanup'' ''Error cleaning up user policy'' reeact_pthread_hooks_cleanup l) (\<lambda>l.
     let s = s\<lparr>process := (process s)\<lparr>stderr := l\<rparr>\<rparr> in
     if reeact_handle s = None then Some s
     else if freed s then None else Some (s\<lparr>freed := True\<rparr>))))"

end
