(* ===== verification/Topology_Sysfs.thy ===== *)
theory Topology_Sysfs imports Topology begin

text \<open>
  The topology that \<open>reeact_get_topo_sysfs\<close> computes. A \<open>machine\<close> is what the header of
  reeact_topology.c assumes (sockets with the same number of nodes, nodes with the same
  number of cores, numbers without gaps), \<open>sysfs_shows\<close> says that sysfs describes it, and
  one lemma per loop says what the loop leaves behind; \<open>sysfs_result\<close> puts them together,
  with every line the debug build logs on the way.
\<close>

section \<open>Machines\<close>

record machine =
  sockets :: nat
  nodes_per_socket :: nat
  cores_per_node :: nat
  cpus :: nat
  siblings :: "nat \<Rightarrow> nat list"
  cpulist :: "nat \<Rightarrow> nat list"
  package :: "nat \<Rightarrow> nat"

definition n_nodes :: "machine \<Rightarrow> nat" where
  "n_nodes M = sockets M * nodes_per_socket M"

text \<open>The context that stands for its physical core: the first of its siblings.\<close>

definition leader :: "machine \<Rightarrow> nat \<Rightarrow> bool" where
  "leader M i \<longleftrightarrow> (\<forall>j\<in>set (siblings M i). i \<le> j)"

definition node_cores :: "machine \<Rightarrow> nat \<Rightarrow> nat list" where
  "node_cores M j = filter (leader M) (cpulist M j)"

definition node_socket :: "machine \<Rightarrow> nat \<Rightarrow> nat" where
  "node_socket M j = package M (hd (node_cores M j))"

definition socket_nodes :: "machine \<Rightarrow> nat \<Rightarrow> nat list" where
  "socket_nodes M s = filter (\<lambda>j. node_socket M j = s) [0..<n_nodes M]"

definition homogeneous :: "machine \<Rightarrow> bool" where
  "homogeneous M \<longleftrightarrow>
     0 < sockets M \<and> int (sockets M) \<le> INT_MAX \<and> 0 < nodes_per_socket M \<and> 0 < cores_per_node M \<and>
     (\<forall>i < cpus M. i \<in> set (siblings M i)) \<and>
     (\<forall>i < cpus M. \<forall>j\<in>set (siblings M i). j < cpus M \<and> set (siblings M j) = set (siblings M i)) \<and>
     distinct (concat (map (cpulist M) [0..<n_nodes M])) \<and>
     set (concat (map (cpulist M) [0..<n_nodes M])) = {..<cpus M} \<and>
     (\<forall>j < n_nodes M. length (node_cores M j) = cores_per_node M \<and> node_socket M j < sockets M) \<and>
     (\<forall>s < sockets M. length (socket_nodes M s) = nodes_per_socket M)"

definition shows_list :: "parser \<Rightarrow> sysenv \<Rightarrow> string \<Rightarrow> int list \<Rightarrow> bool" where
  "shows_list parse env fname xs \<longleftrightarrow> (case files env fname of None \<Rightarrow> False
     | Some content \<Rightarrow> (case getline content of None \<Rightarrow> False
         | Some (line, rest) \<Rightarrow> parse (c_string (chomp line)) = (0, Some xs)))"

definition sysfs_shows :: "parser \<Rightarrow> sysenv \<Rightarrow> machine \<Rightarrow> bool" where
  "sysfs_shows parse env M \<longleftrightarrow>
     shows_list parse env ONLINE_NODE_LIST (map int [0..<n_nodes M]) \<and>
     shows_list parse env ONLINE_CPU_LIST (map int [0..<cpus M]) \<and>
     (\<forall>i < cpus M. shows_list parse env (context_list_file (int i)) (map int (siblings M i))) \<and>
     (\<forall>j < n_nodes M. shows_list parse env (core_list_file (int j)) (map int (cpulist M j))) \<and>
     (\<forall>i < cpus M. shows_list parse env (package_id_file (int i)) [int (package M i)])"

lemma read_list_shows:
  "shows_list parse env fname xs \<Longrightarrow>
   read_list parse env fname fmt args st = Go xs (st\<lparr>open_files := Suc (open_files st)\<rparr>)"
  by (auto simp: shows_list_def read_list_def OPEN_FILE_def GET_LINE_MUST_SUCCEED_def
      split: option.splits)

lemma machine_siblings:
  assumes "homogeneous M" and "i < cpus M"
  shows "i \<in> set (siblings M i)"
    and "j \<in> set (siblings M i) \<Longrightarrow> j < cpus M"
    and "j \<in> set (siblings M i) \<Longrightarrow> set (siblings M j) = set (siblings M i)"
  using assms unfolding homogeneous_def by blast+

section \<open>The physical cores\<close>

lemma put_simps:
  "i < length xs \<Longrightarrow> put xs (int i) v = Some (xs[i := v])"
  "i < length xs \<Longrightarrow> at xs (int i) = Some (xs ! i)"
  by (simp_all add: put_def at_def in_range_def)

lemma mark_siblings_result:
  assumes "\<forall>c\<in>set cs. c < length ids"
  shows "\<exists>ids'. mark_siblings (int i) (map int cs) ids = Some ids' \<and> length ids' = length ids \<and>
    (\<forall>j < length ids. ids' ! j = (if j \<in> set cs \<and> j \<noteq> i then -2 else ids ! j))"
  using assms
proof (induction cs arbitrary: ids)
  case (Cons c cs)
  show ?case
  proof (cases "c = i")
    case True
    from Cons.IH [of ids] Cons.prems obtain ids' where
      "mark_siblings (int i) (map int cs) ids = Some ids'" "length ids' = length ids"
      "\<forall>j < length ids. ids' ! j = (if j \<in> set cs \<and> j \<noteq> i then -2 else ids ! j)" by auto
    with True show ?thesis by (intro exI [of _ ids']) auto
  next
    case False
    from Cons.IH [of "ids[c := -2]"] Cons.prems False show ?thesis
      by (auto simp: put_simps nth_list_update)
  qed
qed simp

definition core_marks :: "machine \<Rightarrow> nat \<Rightarrow> int list \<Rightarrow> bool" where
  "core_marks M i ids \<longleftrightarrow> length ids = cpus M \<and> (\<forall>j < cpus M. ids ! j =
     (if j < i then (if leader M j then -1 else -2)
      else if \<exists>k < i. k \<in> set (siblings M j) then -2 else int j))"

lemma core_marks_step:
  assumes M: "homogeneous M" and i: "i < cpus M" and ids: "core_marks M i ids"
  shows "ids ! i = -2 \<longleftrightarrow> \<not> leader M i"
    and "\<not> leader M i \<Longrightarrow> core_marks M (Suc i) ids"
    and "leader M i \<Longrightarrow> \<exists>ids'. mark_siblings (int i) (map int (siblings M i)) (ids[i := -1]) = Some ids' \<and>
      core_marks M (Suc i) ids'"
proof -
  note sib = machine_siblings [OF M]
  have sym: "k \<in> set (siblings M j) \<Longrightarrow> j < cpus M \<Longrightarrow> j \<in> set (siblings M k)" for j k
    using sib by blast
  show mark: "ids ! i = -2 \<longleftrightarrow> \<not> leader M i"
    using ids i by (auto simp: core_marks_def leader_def not_le)
  show "core_marks M (Suc i) ids" if no: "\<not> leader M i"
  proof -
    from no obtain k where k: "k \<in> set (siblings M i)" "k < i" by (auto simp: leader_def not_le)
    have "\<exists>k<i. k \<in> set (siblings M j)" if "i \<in> set (siblings M j)" "j < cpus M" for j
      using sib(3) [OF that(2,1)] k by auto
    then have more: "(\<exists>k < Suc i. k \<in> set (siblings M j)) \<longleftrightarrow> (\<exists>k < i. k \<in> set (siblings M j))"
      if "j < cpus M" for j
      using that by (auto simp: less_Suc_eq)
    have "ids ! j = (if j < Suc i then (if leader M j then -1 else -2)
        else if \<exists>k < Suc i. k \<in> set (siblings M j) then -2 else int j)" if j: "j < cpus M" for j
      using ids mark no j more [OF j] by (cases "j = i") (auto simp: core_marks_def less_Suc_eq)
    with ids show ?thesis by (simp add: core_marks_def)
  qed
  show "\<exists>ids'. mark_siblings (int i) (map int (siblings M i)) (ids[i := -1]) = Some ids' \<and>
      core_marks M (Suc i) ids'" if l: "leader M i"
  proof -
    have "\<forall>c\<in>set (siblings M i). c < length (ids[i := -1])"
      using sib(2) [OF i] ids by (simp add: core_marks_def)
    from mark_siblings_result [OF this, of i] obtain ids'
      where ids': "mark_siblings (int i) (map int (siblings M i)) (ids[i := -1]) = Some ids'"
        "length ids' = length ids"
        "\<forall>j < length ids. ids' ! j = (if j \<in> set (siblings M i) \<and> j \<noteq> i then -2 else ids[i := -1] ! j)"
      by auto
    have "ids' ! j = (if j < Suc i then (if leader M j then -1 else -2)
      else if \<exists>k < Suc i. k \<in> set (siblings M j) then -2 else int j)" if j: "j < cpus M" for j
    proof -
      have eq: "j \<in> set (siblings M i) \<longleftrightarrow> i \<in> set (siblings M j)" using sym i j by blast
      have low: "j \<notin> set (siblings M i)" if "j < i" using that l by (auto simp: leader_def)
      from ids' ids j eq low l show ?thesis
        by (auto simp: core_marks_def nth_list_update less_Suc_eq)
    qed
    with ids' ids show ?thesis by (auto simp: core_marks_def)
  qed
qed

lemma find_cores_result:
  assumes M: "homogeneous M" and sh: "sysfs_shows parse env M"
  shows "\<exists>ids. for_each [0..<cpus M] (find_core parse env) (map int [0..<cpus M], 0) st =
      Go (ids, length (filter (leader M) [0..<cpus M]))
        (st\<lparr>open_files := open_files st + length (filter (leader M) [0..<cpus M])\<rparr>) \<and>
    core_marks M (cpus M) ids"
proof -
  define I where "I = (\<lambda>i (ids, n) st'. core_marks M i ids \<and> n = length (filter (leader M) [0..<i]) \<and>
    st' = st\<lparr>open_files := open_files st + n\<rparr>)"
  have "\<exists>l' st'. for_each [0..<cpus M] (find_core parse env) (map int [0..<cpus M], 0) st = Go l' st' \<and>
      I (cpus M) l' st'"
  proof (rule for_each_inv [of I])
    show "I 0 (map int [0..<cpus M], 0) st" by (simp add: I_def core_marks_def)
    fix i l st'
    assume i: "i < cpus M" and inv: "I i l st'"
    obtain ids n where l: "l = (ids, n)" by (cases l) auto
    with inv have ids: "core_marks M i ids" by (simp add: I_def)
    have r: "read_list parse env (context_list_file (int i)) fmt args s =
        Go (map int (siblings M i)) (s\<lparr>open_files := Suc (open_files s)\<rparr>)" for fmt args s
      using sh i by (intro read_list_shows) (simp add: sysfs_shows_def)
    show "\<exists>l' st''. find_core parse env i l st' = Go l' st'' \<and> I (Suc i) l' st''"
      using core_marks_step [OF M i ids] inv
      by (cases "leader M i") (auto simp: find_core_def I_def l r)
  qed
  then show ?thesis by (auto simp: I_def)
qed


lemma machine_rows:
  assumes "homogeneous M"
  shows "\<forall>j < n_nodes M. length (node_cores M j) = cores_per_node M"
    and "\<forall>s < sockets M. length (socket_nodes M s) = nodes_per_socket M"
    and "j < n_nodes M \<Longrightarrow> node_socket M j < sockets M"
    and "j < n_nodes M \<Longrightarrow> c \<in> set (cpulist M j) \<Longrightarrow> c < cpus M"
    and "0 < cores_per_node M" and "0 < nodes_per_socket M" and "0 < sockets M"
    and "0 < n_nodes M"
proof -
  show "j < n_nodes M \<Longrightarrow> c \<in> set (cpulist M j) \<Longrightarrow> c < cpus M"
  proof -
    assume "j < n_nodes M" and "c \<in> set (cpulist M j)"
    then have "c \<in> set (concat (map (cpulist M) [0..<n_nodes M]))" by auto
    also have "\<dots> = {..<cpus M}" using assms unfolding homogeneous_def by (elim conjE)
    finally show ?thesis by simp
  qed
  show "0 < n_nodes M" using assms by (simp add: homogeneous_def n_nodes_def)
qed (use assms in \<open>simp_all add: homogeneous_def\<close>)

text \<open>The cores found are as many as the nodes have together.\<close>

lemma core_count:
  assumes M: "homogeneous M"
  shows "length (filter (leader M) [0..<cpus M]) = n_nodes M * cores_per_node M"
proof -
  let ?all = "concat (map (cpulist M) [0..<n_nodes M])"
  have all: "distinct ?all" "set ?all = {..<cpus M}" using M by (simp_all add: homogeneous_def)
  have "length (filter (leader M) ?all) = card (set (filter (leader M) ?all))"
    using all(1) by (intro distinct_card [symmetric]) simp
  also have "set (filter (leader M) ?all) = set (filter (leader M) [0..<cpus M])"
    unfolding set_filter all(2) by auto
  also have "card \<dots> = length (filter (leader M) [0..<cpus M])"
    by (rule distinct_card) simp
  also have "filter (leader M) ?all = concat (map (node_cores M) [0..<n_nodes M])"
    by (simp add: filter_concat node_cores_def [abs_def] comp_def)
  also have "length \<dots> = n_nodes M * cores_per_node M"
    by (rule length_concat_grid) (rule machine_rows(1) [OF M])
  finally show ?thesis by simp
qed

section \<open>The cores of the nodes\<close>

text \<open>An array written up to a point.\<close>

definition written :: "nat list \<Rightarrow> nat \<Rightarrow> int option list option" where
  "written xs n = Some (map (\<lambda>x. Some (int x)) xs @ replicate n None)"

lemma store_written:
  assumes "i = int (length xs)" and "0 < n"
  shows "store (written xs n) i (int c) = Some (written (xs @ [c]) (n - 1))"
proof -
  obtain m where "n = Suc m" using assms(2) by (cases n) auto
  with assms(1) show ?thesis
    by (simp add: store_def written_def put_def in_range_def list_update_append)
qed

lemma load_written:
  "i < length xs \<Longrightarrow> load (written xs n) (int i) = Some (int (xs ! i))"
  by (simp add: load_def written_def at_def in_range_def nth_append)

lemma assign_cores_result:
  assumes "\<forall>c\<in>set cs. c < length ids \<and> (ids ! c = -1 \<longleftrightarrow> P c)"
    and "base + k = int (length xs)" and "length (filter P cs) \<le> n"
  shows "assign_cores ids base (map int cs) k (written xs n) =
    Some (written (xs @ filter P cs) (n - length (filter P cs)))"
  using assms
proof (induction cs arbitrary: k xs n)
  case (Cons c cs)
  show ?case
  proof (cases "P c")
    case True
    with Cons.prems have "store (written xs n) (base + k) (int c) = Some (written (xs @ [c]) (n - 1))"
      by (intro store_written) auto
    moreover have "assign_cores ids base (map int cs) (k + 1) (written (xs @ [c]) (n - 1)) =
        Some (written ((xs @ [c]) @ filter P cs) (n - 1 - length (filter P cs)))"
      using True Cons.prems by (intro Cons.IH) auto
    ultimately show ?thesis using True Cons.prems by (simp add: put_simps)
  next
    case False
    with Cons.prems Cons.IH [of k xs n] show ?thesis by (simp add: put_simps)
  qed
qed simp

definition core_table :: "machine \<Rightarrow> nat \<Rightarrow> nat list" where
  "core_table M n = concat (map (node_cores M) [0..<n])"

lemma map_nodes_result:
  assumes M: "homogeneous M" and sh: "sysfs_shows parse env M" and ids: "core_marks M (cpus M) ids"
    and st: "cores st = written [] (n_nodes M * cores_per_node M)" "core_cnt st = int (cores_per_node M)"
  shows "for_each [0..<n_nodes M] (map_node parse env ids) () st =
    Go () (st\<lparr>cores := written (core_table M (n_nodes M)) 0, open_files := open_files st + n_nodes M\<rparr>)"
proof -
  let ?n = "n_nodes M" and ?c = "cores_per_node M"
  define I where "I = (\<lambda>i (l :: unit) st'. st' =
    st\<lparr>cores := written (core_table M i) ((?n - i) * ?c), open_files := open_files st + i\<rparr>)"
  have "\<exists>l' st'. for_each [0..<?n] (map_node parse env ids) () st = Go l' st' \<and> I ?n l' st'"
  proof (rule for_each_inv [of I])
    show "I 0 () st" using st by (cases st) (simp add: I_def core_table_def)
    fix i l st'
    assume i: "i < ?n" and inv: "I i l st'"
    have r: "read_list parse env (core_list_file (int i)) fmt args s =
        Go (map int (cpulist M i)) (s\<lparr>open_files := Suc (open_files s)\<rparr>)" for fmt args s
      using sh i by (intro read_list_shows) (simp add: sysfs_shows_def)
    have len: "length (core_table M i) = i * ?c" "length (node_cores M i) = ?c"
      using machine_rows(1) [OF M] i unfolding core_table_def by (auto intro: length_concat_grid)
    have "assign_cores ids (int i * int ?c) (map int (cpulist M i)) 0
        (written (core_table M i) ((?n - i) * ?c)) =
      Some (written (core_table M i @ filter (leader M) (cpulist M i))
        ((?n - i) * ?c - length (filter (leader M) (cpulist M i))))"
    proof (rule assign_cores_result)
      show "\<forall>c\<in>set (cpulist M i). c < length ids \<and> (ids ! c = -1 \<longleftrightarrow> leader M c)"
        using machine_rows(4) [OF M i] ids by (auto simp: core_marks_def)
      show "length (filter (leader M) (cpulist M i)) \<le> (?n - i) * ?c"
        using len(2) i by (cases "?n - i") (simp_all add: node_cores_def)
    qed (simp add: len)
    moreover have "(?n - i) * ?c - ?c = (?n - Suc i) * ?c"
      by (metis Suc_diff_Suc i diff_Suc_1 diff_mult_distrib nat_mult_1)
    ultimately show "\<exists>l' st''. map_node parse env ids i l st' = Go l' st'' \<and> I (Suc i) l' st''"
      using inv st(2) len(2) by (simp add: map_node_def I_def r core_table_def node_cores_def)
  qed
  then show ?thesis by (auto simp: I_def)
qed

section \<open>The sockets\<close>

lemma node_package_result:
  assumes M: "homogeneous M" and sh: "sysfs_shows parse env M" and j: "j < n_nodes M"
    and st: "cores st = written (core_table M (n_nodes M)) 0" "core_cnt st = int (cores_per_node M)"
  shows "node_package parse env n j st =
    Go (int (node_socket M j)) (st\<lparr>open_files := Suc (open_files st)\<rparr>)"
proof -
  let ?c = "cores_per_node M" and ?core = "hd (node_cores M j)"
  note rows = machine_rows [OF M]
  have len: "length (node_cores M j) = ?c" using rows(1) j by blast
  have "j * ?c + 0 < n_nodes M * ?c" using j rows(5) by simp
  then have "load (cores st) (int (j * ?c)) = Some (int (core_table M (n_nodes M) ! (j * ?c)))"
    unfolding st(1) core_table_def by (intro load_written) (simp add: length_concat_grid [OF rows(1)])
  also have "core_table M (n_nodes M) ! (j * ?c) = node_cores M j ! 0"
    using nth_concat_grid [OF rows(1) j rows(5)] by (simp add: core_table_def)
  also have "node_cores M j ! 0 = ?core" using len rows(5) by (cases "node_cores M j") auto
  finally have c: "load (cores st) (int j * int ?c) = Some (int ?core)" by simp
  have "?core \<in> set (node_cores M j)" using len rows(5) by (intro hd_in_set) auto
  then have "?core < cpus M" using rows(4) [OF j] by (simp add: node_cores_def)
  then have r: "read_list parse env (package_id_file (int ?core)) fmt args s =
      Go [int (package M ?core)] (s\<lparr>open_files := Suc (open_files s)\<rparr>)" for fmt args s
    using sh by (intro read_list_shows) (simp add: sysfs_shows_def)
  show ?thesis by (simp add: node_package_def st c [unfolded st(1)] r at_def in_range_def node_socket_def)
qed

lemma socket_exists:
  assumes M: "homogeneous M" and s: "s < sockets M"
  shows "\<exists>j < n_nodes M. node_socket M j = s"
proof -
  have "length (socket_nodes M s) = nodes_per_socket M" using machine_rows(2) [OF M] s by blast
  with machine_rows(6) [OF M] have "socket_nodes M s \<noteq> []" by auto
  then have "set (socket_nodes M s) \<noteq> {}" by simp
  then show ?thesis by (auto simp: socket_nodes_def)
qed

lemma max_package_result:
  assumes M: "homogeneous M" and sh: "sysfs_shows parse env M"
    and st: "cores st = written (core_table M (n_nodes M)) 0" "core_cnt st = int (cores_per_node M)"
      "socket_cnt st = -1"
  shows "for_each [0..<n_nodes M] (max_package parse env) () st =
    Go () (st\<lparr>socket_cnt := int (sockets M) - 1, open_files := open_files st + n_nodes M\<rparr>)"
proof -
  let ?n = "n_nodes M"
  define I where "I = (\<lambda>i (l :: unit) st'. \<exists>m. st' =
      st\<lparr>socket_cnt := m, open_files := open_files st + i\<rparr> \<and>
    (\<forall>j < i. int (node_socket M j) \<le> m) \<and> (m = -1 \<or> (\<exists>j < i. m = int (node_socket M j))))"
  have "\<exists>l' st'. for_each [0..<?n] (max_package parse env) () st = Go l' st' \<and> I ?n l' st'"
  proof (rule for_each_inv [of I])
    show "I 0 () st" using st by (cases st) (simp add: I_def)
    fix i l st'
    assume i: "i < ?n" and "I i l st'"
    then obtain m where st': "st' = st\<lparr>socket_cnt := m, open_files := open_files st + i\<rparr>"
      and le: "\<forall>j < i. int (node_socket M j) \<le> m"
      and ex: "m = -1 \<or> (\<exists>j < i. m = int (node_socket M j))" by (auto simp: I_def)
    have p: "node_package parse env n i st' =
        Go (int (node_socket M i)) (st'\<lparr>open_files := Suc (open_files st')\<rparr>)"
for n
      by (rule node_package_result [OF M sh i]) (simp_all add: st' st)
    let ?m = "max m (int (node_socket M i))"
    have "max_package parse env i l st' = Go () (st\<lparr>socket_cnt := ?m, open_files := open_files st + Suc i\<rparr>)"
      using p by (simp add: max_package_def st' max_def)
    moreover have "\<forall>j < Suc i. int (node_socket M j) \<le> ?m"
      using le by (auto simp: less_Suc_eq le_max_iff_disj)
    moreover have "?m = -1 \<or> (\<exists>j < Suc i. ?m = int (node_socket M j))"
      using ex by (auto simp: max_def less_Suc_eq)
    ultimately show "\<exists>l' st''. max_package parse env i l st' = Go l' st'' \<and> I (Suc i) l' st''"
      by (auto simp: I_def)
  qed
  then obtain m where run: "for_each [0..<?n] (max_package parse env) () st =
      Go () (st\<lparr>socket_cnt := m, open_files := open_files st + ?n\<rparr>)"
    and le: "\<forall>j < ?n. int (node_socket M j) \<le> m"
    and ex: "m = -1 \<or> (\<exists>j < ?n. m = int (node_socket M j))" by (auto simp: I_def)
  have "sockets M - 1 < sockets M" using machine_rows(7) [OF M] by simp
  from socket_exists [OF M this] le have "int (sockets M) - 1 \<le> m" by force
  moreover have "m \<le> int (sockets M) - 1" using ex machine_rows(3,7) [OF M] by force
  ultimately show ?thesis using run by simp
qed

definition node_table :: "machine \<Rightarrow> nat \<Rightarrow> nat list" where
  "node_table M s = concat (map (socket_nodes M) [0..<s])"

definition socket_part :: "machine \<Rightarrow> nat \<Rightarrow> nat \<Rightarrow> nat list" where
  "socket_part M s j = filter (\<lambda>i. node_socket M i = s) [0..<j]"

lemma socket_part_bound:
  assumes "homogeneous M" and "s < sockets M" and "j < n_nodes M" and "node_socket M j = s"
  shows "length (socket_part M s j) < nodes_per_socket M"
proof -
  have "[0..<n_nodes M] = [0..<j] @ j # [Suc j..<n_nodes M]"
    using assms(3) by (metis append_Cons append_Nil le_add1 less_imp_le_nat upt_add_eq_append
        upt_conv_Cons le_add_diff_inverse plus_nat.add_0)
  then have "length (socket_nodes M s) > length (socket_part M s j)"
    using assms(4) by (simp add: socket_nodes_def socket_part_def)
  with machine_rows(2) [OF assms(1)] assms(2) show ?thesis by auto
qed

lemma place_socket_result:
  assumes M: "homogeneous M" and sh: "sysfs_shows parse env M" and s: "s < sockets M"
    and st: "cores st = written (core_table M (n_nodes M)) 0" "core_cnt st = int (cores_per_node M)"
      "node_cnt st = int (nodes_per_socket M)"
      "nodes st = written (node_table M s) ((sockets M - s) * nodes_per_socket M)"
  shows "place_socket parse env (n_nodes M) s () st =
    Go () (st\<lparr>nodes := written (node_table M (Suc s)) ((sockets M - Suc s) * nodes_per_socket M),
      open_files := open_files st + n_nodes M\<rparr>)"
proof -
  let ?n = "n_nodes M" and ?c = "nodes_per_socket M"
  define I where "I = (\<lambda>j k st'. k = int (length (socket_part M s j)) \<and>
    st' = st\<lparr>nodes := written (node_table M s @ socket_part M s j)
        ((sockets M - s) * ?c - length (socket_part M s j)), open_files := open_files st + j\<rparr>)"
  note rows = machine_rows [OF M]
  have len: "length (node_table M s) = s * ?c"
    using rows(2) s unfolding node_table_def by (intro length_concat_grid) auto
  have room: "?c \<le> (sockets M - s) * ?c" using s by (cases "sockets M - s") auto
  have "\<exists>k st'. for_each [0..<?n] (place_node parse env (int s)) 0 st = Go k st' \<and> I ?n k st'"
  proof (rule for_each_inv [of I])
    show "I 0 0 st" using st by (cases st) (simp add: I_def socket_part_def)
    fix j k st'
    assume j: "j < ?n" and inv: "I j k st'"
    have p: "node_package parse env n j st' =
        Go (int (node_socket M j)) (st'\<lparr>open_files := Suc (open_files st')\<rparr>)"
for n
      using inv st by (intro node_package_result [OF M sh j]) (simp_all add: I_def)
    show "\<exists>k' st''. place_node parse env (int s) j k st' = Go k' st'' \<and> I (Suc j) k' st''"
    proof (cases "node_socket M j = s")
      case True
      let ?xs = "node_table M s @ socket_part M s j" and ?m = "(sockets M - s) * ?c - length (socket_part M s j)"
      have "0 < ?m" using less_le_trans [OF socket_part_bound [OF M s j True] room] by (rule zero_less_diff [THEN iffD2])
      then have "store (written ?xs ?m) (int s * int ?c + k) (int j) = Some (written (?xs @ [j]) (?m - 1))"
        using inv by (intro store_written) (simp_all add: I_def len)
      moreover have "socket_part M s (Suc j) = socket_part M s j @ [j]"
        using True by (simp add: socket_part_def)
      ultimately show ?thesis
        using inv p True st(3) by (simp add: place_node_def I_def)
    next
      case False
      then have "socket_part M s (Suc j) = socket_part M s j" by (simp add: socket_part_def)
      with False inv p show ?thesis by (simp add: place_node_def I_def)
    qed
  qed
  moreover have "socket_part M s ?n = socket_nodes M s" by (simp add: socket_part_def socket_nodes_def)
  moreover have "(sockets M - s) * ?c - ?c = (sockets M - Suc s) * ?c"
    by (metis Suc_diff_Suc s diff_Suc_1 diff_mult_distrib nat_mult_1)
  ultimately show ?thesis
    using rows(2) s by (auto simp: place_socket_def I_def node_table_def)
qed

lemma place_sockets_result:
  assumes M: "homogeneous M" and sh: "sysfs_shows parse env M"
    and st: "cores st = written (core_table M (n_nodes M)) 0" "core_cnt st = int (cores_per_node M)"
      "node_cnt st = int (nodes_per_socket M)" "nodes st = written [] (n_nodes M)"
  shows "for_each [0..<sockets M] (place_socket parse env (n_nodes M)) () st =
    Go () (st\<lparr>nodes := written (node_table M (sockets M)) 0,
      open_files := open_files st + sockets M * n_nodes M\<rparr>)"
proof -
  define I where "I = (\<lambda>s (l :: unit) st'. st' = st\<lparr>nodes := written (node_table M s)
      ((sockets M - s) * nodes_per_socket M), open_files := open_files st + s * n_nodes M\<rparr>)"
  have "\<exists>l' st'. for_each [0..<sockets M] (place_socket parse env (n_nodes M)) () st = Go l' st' \<and>
      I (sockets M) l' st'"
  proof (rule for_each_inv [of I])
    show "I 0 () st" using st by (cases st) (simp add: I_def node_table_def n_nodes_def)
    fix s l st'
    assume s: "s < sockets M" and inv: "I s l st'"
    have "place_socket parse env (n_nodes M) s () st' =
      Go () (st'\<lparr>nodes := written (node_table M (Suc s)) ((sockets M - Suc s) * nodes_per_socket M),
        open_files := open_files st' + n_nodes M\<rparr>)"
      using inv st by (intro place_socket_result [OF M sh s]) (simp_all add: I_def)
    with inv show "\<exists>l' st''. place_socket parse env (n_nodes M) s l st' = Go l' st'' \<and> I (Suc s) l' st''"
      by (simp add: I_def add.assoc add.commute)
  qed
  then show ?thesis by (auto simp: I_def)
qed

text \<open>Reading the flattened arrays.\<close>

lemma load_row:
  assumes "\<forall>i < n. length (f i) = c" and "i < n" and "k < c"
  shows "load (written (concat (map f [0..<n])) 0) (int i * int c + int k) = Some (int (f i ! k))"
proof -
  have "i * c + k < n * c"
    using assms by (metis add.commute add_less_cancel_left less_le_trans mult.commute
        mult_Suc_right mult_le_mono2 Suc_leI)
  then have "load (written (concat (map f [0..<n])) 0) (int (i * c + k)) =
      Some (int (concat (map f [0..<n]) ! (i * c + k)))"
    by (intro load_written) (simp add: length_concat_grid [OF assms(1)])
  then show ?thesis by (simp add: nth_concat_grid [OF assms])
qed

section \<open>The debug output\<close>

definition number_list :: "nat list \<Rightarrow> string" where
  "number_list xs = concat (map (\<lambda>x. show_int (int x) @ '','') xs) @ nl"

definition node_line :: "machine \<Rightarrow> nat \<Rightarrow> string" where
  "node_line M j = ''node '' @ show_int (int j) @ '' core list: '' @ number_list (node_cores M j)"

definition socket_line :: "machine \<Rightarrow> string" where
  "socket_line M = ''There are '' @ show_int (int (sockets M)) @ '' sockets'' @ nl"

definition sysfs_lines :: "machine \<Rightarrow> string list" where
  "sysfs_lines M =
     [''There are '' @ show_int (int (n_nodes M)) @ '' nodes: '' @ number_list [0..<n_nodes M],
      ''There are '' @ show_int (int (n_nodes M * cores_per_node M)) @ '' cpu cores: '' @
        number_list (filter (leader M) [0..<cpus M]),
      ''cores per node: '' @ show_int (int (cores_per_node M)) @ nl] @
     map (node_line M) [0..<n_nodes M] @ [socket_line M]"

definition log_line :: "sysenv \<Rightarrow> string \<Rightarrow> log_state \<Rightarrow> log_state" where
  "log_line env t l = (if debug (logging env) then tell (logging env) (sysfs_name @ '': '' @ t) l else l)"

definition sysfs_log :: "sysenv \<Rightarrow> machine \<Rightarrow> log_state \<Rightarrow> log_state" where
  "sysfs_log env M = fold (log_line env) (sysfs_lines M)"

lemma sysfs_log_text:
  "sysfs_log env M l = (if debug (logging env)
    then fold (\<lambda>t. tell (logging env) (sysfs_name @ '': '' @ t)) (sysfs_lines M) l else l)"
proof -
  have "fold (log_line env) ts l = (if debug (logging env)
      then fold (\<lambda>t. tell (logging env) (sysfs_name @ '': '' @ t)) ts l else l)" for ts l
    by (induction ts arbitrary: l) (simp_all add: log_line_def)
  then show ?thesis by (simp add: sysfs_log_def)
qed

lemma for_each_says:
  assumes "\<And>x l. x \<in> set xs \<Longrightarrow> body x () (st\<lparr>messages := l\<rparr>) = Go () (st\<lparr>messages := h x l\<rparr>)"
  shows "for_each xs body () (st\<lparr>messages := l\<rparr>) = Go () (st\<lparr>messages := fold h xs l\<rparr>)"
  using assms by (induction xs arbitrary: l) auto

lemma fold_emit: "fold (\<lambda>x. emit (g x)) xs l = emit (concat (map g xs)) l"
  by (induction xs arbitrary: l) auto

lemma emit_tell: "emit s (tell env t l) = tell env (t @ s) l"
  by (simp add: tell_def)

lemma say_DPRINTF:
  assumes "formatted fmt args = Some t"
  shows "say (DPRINTF (logging env) sysfs_name fmt args) st =
    Go () (st\<lparr>messages := log_line env t (messages st)\<rparr>)"
  by (simp add: DPRINTF_tell [OF assms] log_line_def)

lemma print_number: "print_err ''%d,'' [Dec x] l = Some (emit (show_int x @ '','') l)" "print_err nl [] l = Some (emit nl l)"
  by (simp_all add: print_err_def)

lemma debug_list_result:
  assumes "formatted fmt args = Some t"
  shows "in_debug env (debug_list env fmt args (map int xs)) st =
    Go () (st\<lparr>messages := log_line env (t @ number_list xs) (messages st)\<rparr>)"
proof -
  have "for_each (map int xs) (\<lambda>x _. say (print_err ''%d,'' [Dec x])) () (st\<lparr>messages := l\<rparr>) =
      Go () (st\<lparr>messages := fold (\<lambda>x. emit (show_int x @ '','')) (map int xs) l\<rparr>)" for l
    by (rule for_each_says) (simp add: print_number)
  then show ?thesis
    by (simp add: in_debug_def debug_list_def say_DPRINTF [OF assms] print_number fold_emit comp_def
        number_list_def log_line_def emit_tell)
qed

lemma debug_node_result:
  assumes M: "homogeneous M" and j: "j < n_nodes M"
    and st: "cores st = written (core_table M (n_nodes M)) 0" "core_cnt st = int (cores_per_node M)"
    and "debug (logging env)"
  shows "debug_node env j () (st\<lparr>messages := l\<rparr>) = Go () (st\<lparr>messages := log_line env (node_line M j) l\<rparr>)"
proof -
  let ?c = "cores_per_node M"
  let ?body = "\<lambda>k _. andthen (reads (\<lambda>st. load (cores st) (int j * core_cnt st + int k)))
    (\<lambda>c. andthen (defined c) (\<lambda>v. say (print_err ''%d,'' [Dec v])))"
  have len: "length (node_cores M j) = ?c" using machine_rows(1) [OF M] j by blast
  have "load (cores st) (int j * core_cnt st + int k) = Some (int (node_cores M j ! k))" if "k < ?c" for k
    using load_row [OF machine_rows(1) [OF M] j that] by (simp add: st core_table_def)
  then have "for_each [0..<?c] ?body () (st\<lparr>messages := l\<rparr>) =
      Go () (st\<lparr>messages := fold (\<lambda>k. emit (show_int (int (node_cores M j ! k)) @ '','')) [0..<?c] l\<rparr>)" for l
    by (intro for_each_says) (simp add: print_number)
  also have "map (\<lambda>k. show_int (int (node_cores M j ! k)) @ '','') [0..<?c] =
      map (\<lambda>x. show_int (int x) @ '','') (node_cores M j)"
    using len by (intro nth_equalityI) simp_all
  ultimately show ?thesis using assms(5)
    by (simp add: debug_node_def say_DPRINTF print_number fold_emit number_list_def node_line_def log_line_def emit_tell st)
qed

lemma debug_nodes_result:
  assumes M: "homogeneous M"
    and st: "cores st = written (core_table M (n_nodes M)) 0" "core_cnt st = int (cores_per_node M)"
  shows "in_debug env (for_each [0..<n_nodes M] (debug_node env) ()) st = Go () (st\<lparr>messages := fold (log_line env)
    (map (node_line M) [0..<n_nodes M]) (messages st)\<rparr>)"
proof (cases "debug (logging env)")
  case True
  have "for_each [0..<n_nodes M] (debug_node env) () (st\<lparr>messages := messages st\<rparr>) = Go () (st\<lparr>messages :=
      fold (\<lambda>j. log_line env (node_line M j)) [0..<n_nodes M] (messages st)\<rparr>)"
    by (rule for_each_says, rule debug_node_result [OF M _ st True]) simp
  with True show ?thesis by (simp add: in_debug_def fold_map comp_def)
next
  case False
  have "fold (log_line env) ts l = l" for ts l
    using False by (induction ts arbitrary: l) (simp_all add: log_line_def)
  with False show ?thesis by (simp add: in_debug_def)
qed

section \<open>The whole function\<close>

definition opened_by_sysfs :: "machine \<Rightarrow> nat" where
  "opened_by_sysfs M = 2 + n_nodes M * cores_per_node M + 2 * n_nodes M + sockets M * n_nodes M"

definition topology_of :: "machine \<Rightarrow> nat \<Rightarrow> log_state \<Rightarrow> topo" where
  "topology_of M f l = \<lparr>nodes = written (node_table M (sockets M)) 0,
     cores = written (core_table M (n_nodes M)) 0, socket_cnt = int (sockets M),
     node_cnt = int (nodes_per_socket M), core_cnt = int (cores_per_node M), open_files = f, messages = l\<rparr>"

lemma sysfs_result:
  assumes M: "homogeneous M" and sh: "sysfs_shows parse env M"
    and mem: "malloc_cores env" "malloc_nodes env"
  shows "reeact_get_topo_sysfs parse env st =
    Return 0 (topology_of M (open_files st + opened_by_sysfs M - 1) (sysfs_log env M (messages st)))"
proof -
  let ?n = "n_nodes M" and ?c = "cores_per_node M"
  have r: "read_list parse env ONLINE_NODE_LIST fmt args s = Go (map int [0..<?n]) (s\<lparr>open_files := Suc (open_files s)\<rparr>)"
    "read_list parse env ONLINE_CPU_LIST fmt args s = Go (map int [0..<cpus M]) (s\<lparr>open_files := Suc (open_files s)\<rparr>)"
    for fmt args s using sh by (intro read_list_shows; simp add: sysfs_shows_def)+
  have online: "in_debug env (debug_list env ''There are %d nodes: '' [Dec (int ?n)] (map int [0..<?n])) s =
      Go () (s\<lparr>messages := log_line env (sysfs_lines M ! 0) (messages s)\<rparr>)" for s
    by (rule debug_list_result [THEN trans]) (simp, simp add: sysfs_lines_def)
  let ?s1 = "st\<lparr>messages := log_line env (sysfs_lines M ! 0) (messages st), open_files := Suc (Suc (open_files st))\<rparr>"
  obtain ids where f: "for_each [0..<cpus M] (find_core parse env) (map int [0..<cpus M], 0) ?s1 =
      Go (ids, ?n * ?c) (?s1\<lparr>open_files := open_files ?s1 + ?n * ?c\<rparr>)"
    and ids: "core_marks M (cpus M) ids"
    using find_cores_result [OF M sh, of ?s1] unfolding core_count [OF M] by blast
  have found: "filter (\<lambda>i. ids ! i = -1) [0..<length ids] = filter (leader M) [0..<cpus M]"
    using ids by (intro filter_cong) (auto simp: core_marks_def)
  have found_log: "in_debug env (debug_list env ''There are %d cpu cores: '' [Dec (int (?n * ?c))]
      (map int (filter (leader M) [0..<cpus M]))) s =
      Go () (s\<lparr>messages := log_line env (sysfs_lines M ! 1) (messages s)\<rparr>)" for s
    by (rule debug_list_result [THEN trans]) (simp, simp add: sysfs_lines_def)
  have cc: "divide_ints (int (?n * ?c)) (int ?n) = Some (int ?c)"
    using machine_rows(8) [OF M] by (simp add: divide_ints_def)
  let ?l2 = "log_line env (sysfs_lines M ! 2) (log_line env (sysfs_lines M ! 1) (messages ?s1))"
  let ?s2 = "?s1\<lparr>open_files := open_files ?s1 + ?n * ?c, cores := malloc_ints True (?n * ?c), core_cnt := int ?c,
    messages := ?l2\<rparr>"
  have m: "for_each [0..<?n] (map_node parse env ids) () ?s2 =
      Go () (?s2\<lparr>cores := written (core_table M ?n) 0, open_files := open_files ?s2 + ?n\<rparr>)"
    by (rule map_nodes_result [OF M sh ids]) (simp_all add: malloc_ints_def written_def)
  let ?l3 = "fold (log_line env) (map (node_line M) [0..<?n]) ?l2"
  let ?s3 = "?s2\<lparr>cores := written (core_table M ?n) 0, open_files := open_files ?s2 + ?n, messages := ?l3, socket_cnt := -1\<rparr>"
  have nodes_log: "in_debug env (for_each [0..<?n] (debug_node env) ())
      (?s2\<lparr>cores := written (core_table M ?n) 0, open_files := open_files ?s2 + ?n\<rparr>) =
      Go () (?s2\<lparr>cores := written (core_table M ?n) 0, open_files := open_files ?s2 + ?n, messages := ?l3\<rparr>)"
    by (subst debug_nodes_result [OF M]) simp_all
  have x: "for_each [0..<?n] (max_package parse env) () ?s3 =
      Go () (?s3\<lparr>socket_cnt := int (sockets M) - 1, open_files := open_files ?s3 + ?n\<rparr>)"
    by (rule max_package_result [OF M sh]) simp_all
  have nc: "divide_ints (int ?n) (int (sockets M)) = Some (int (nodes_per_socket M))"
    using machine_rows(7) [OF M] by (simp add: divide_ints_def n_nodes_def)
  let ?s4 = "?s3\<lparr>open_files := open_files ?s3 + ?n, socket_cnt := int (sockets M),
    messages := log_line env (socket_line M) ?l3, nodes := malloc_ints True ?n, node_cnt := int (nodes_per_socket M)\<rparr>"
  have p: "for_each [0..<sockets M] (place_socket parse env ?n) () ?s4 =
      Go () (?s4\<lparr>nodes := written (node_table M (sockets M)) 0,
        open_files := open_files ?s4 + sockets M * ?n\<rparr>)"
    by (rule place_sockets_result [OF M sh]) (simp_all add: malloc_ints_def written_def)
  have d: "say (DPRINTF (logging env) sysfs_name (''cores per node: %d'' @ nl) [Dec (int ?c)]) s =
      Go () (s\<lparr>messages := log_line env (sysfs_lines M ! 2) (messages s)\<rparr>)"
    "say (DPRINTF (logging env) sysfs_name (''There are %d sockets'' @ nl) [Dec (int (sockets M))]) s =
      Go () (s\<lparr>messages := log_line env (socket_line M) (messages s)\<rparr>)" for s
    by (rule say_DPRINTF [THEN trans], simp, simp add: sysfs_lines_def socket_line_def)+
  have l: "sysfs_log env M (messages st) = log_line env (socket_line M) ?l3" by (simp add: sysfs_log_def sysfs_lines_def)
  have "int (sockets M) - 1 \<noteq> INT_MAX" using M by (simp add: homogeneous_def)
  with r online f found found_log cc m nodes_log x nc p d mem show ?thesis
    by (simp add: reeact_get_topo_sysfs_def Let_def malloc_ints_def fclose_def topology_of_def
        opened_by_sysfs_def l algebra_simps del: formatted.simps)
qed

end
