(* ===== verification/Topology_Conf.thy ===== *)
theory Topology_Conf imports Topology_Sysfs begin

text \<open>
  The configuration file. \<open>conf_text\<close> is a file with the three lines the parser of the code
  looks for; \<open>conf_result\<close> says what reading it gives. The collection \<open>codes\<close> bounds the
  error codes a program can return.
\<close>

section \<open>Numbers and lists as text\<close>

fun show_list :: "int list \<Rightarrow> string" where
  "show_list [] = []"
| "show_list [x] = show_int x"
| "show_list (x # xs) = show_int x @ '','' @ show_list xs"

definition plain :: "string \<Rightarrow> bool" where
  "plain s \<longleftrightarrow> CHR 0x0A \<notin> set s \<and> CHR 0x00 \<notin> set s"

definition starts_digit :: "string \<Rightarrow> bool" where
  "starts_digit s \<longleftrightarrow> s \<noteq> [] \<and> is_digit (hd s)"

lemma digit_cases: "d < 10 \<Longrightarrow> is_digit (''0123456789'' ! d) \<and> plain [''0123456789'' ! d]"
  by (auto simp: less_Suc_eq numeral_eq_Suc is_digit_def plain_def less_eq_char_def)

lemma show_nat_text: "plain (show_nat n) \<and> starts_digit (show_nat n)"
proof (induction n rule: show_nat.induct)
  case (1 n)
  show ?case
  proof (cases "n < 10")
    case True
    with digit_cases [OF True] show ?thesis
      by (subst (1 2) show_nat.simps) (simp add: starts_digit_def)
  next
    case False
    have "n mod 10 < 10" by simp
    with digit_cases [OF this] 1 [OF False] False show ?thesis
      by (subst (1 2) show_nat.simps) (auto simp: starts_digit_def plain_def)
  qed
qed

lemma show_list_text:
  "\<forall>x\<in>set xs. 0 \<le> x \<Longrightarrow> plain (show_list xs) \<and> (xs \<noteq> [] \<longrightarrow> starts_digit (show_list xs))"
proof (induction xs rule: show_list.induct)
  case (2 x)
  then show ?case using show_nat_text by (simp add: show_int_def)
next
  case (3 x y ys)
  then show ?case
    using show_nat_text [of "nat x"] by (auto simp: show_int_def plain_def starts_digit_def)
qed (simp add: plain_def)

section \<open>Reading the lines\<close>

lemma cut_line_plain: "plain l \<Longrightarrow> cut_line (l @ CHR 0x0A # rest) = (l @ [CHR 0x0A], rest)"
  by (induction l) (auto simp: plain_def)

lemma c_string_plain: "plain l \<Longrightarrow> c_string l = l"
  by (auto simp: c_string_def plain_def takeWhile_eq_all_conv)

lemma conf_lines_cons:
  assumes "plain l"
  shows "conf_lines parse env (l @ CHR 0x0A # rest) =
    andthen (conf_line parse env l) (\<lambda>_. conf_lines parse env rest)"
  by (subst conf_lines.simps)
    (simp add: getline_def cut_line_plain [OF assms] chomp_def c_string_plain [OF assms] del: andthen_def)

lemma conf_lines_nil: "conf_lines parse env [] = yield ()"
  by (subst conf_lines.simps) (simp add: getline_def del: yield_def)

lemma skip_to_digit_text:
  assumes "starts_digit t" and "\<forall>c\<in>set l. \<not> is_digit c"
  shows "skip_to_digit (l @ t) = t"
  using assms by (cases t) (auto simp: skip_to_digit_def starts_digit_def dropWhile_append2)

definition conf_text :: "int list \<Rightarrow> int list \<Rightarrow> int list \<Rightarrow> string" where
  "conf_text counts ns cs = ''s:'' @ show_list counts @ CHR 0x0A #
     ''n:'' @ show_list ns @ CHR 0x0A # ''c:'' @ show_list cs @ [CHR 0x0A]"

lemma labels: "\<forall>c\<in>set ''s:''. \<not> is_digit c" "\<forall>c\<in>set ''n:''. \<not> is_digit c" "\<forall>c\<in>set ''c:''. \<not> is_digit c"
  "plain ''s:''" "plain ''n:''" "plain ''c:''"
  by (simp_all add: is_digit_def plain_def less_eq_char_def)

lemma conf_lines_text:
  assumes "\<forall>x\<in>set counts \<union> set ns \<union> set cs. 0 \<le> x" and "length counts = 3" "ns \<noteq> []" "cs \<noteq> []"
    and parse: "parse (show_list counts) = (0, Some counts)" "parse (show_list ns) = (0, Some ns)"
      "parse (show_list cs) = (0, Some cs)"
  shows "conf_lines parse env (conf_text counts ns cs) st = Go () (st\<lparr>socket_cnt := counts ! 0,
    node_cnt := counts ! 1, core_cnt := counts ! 2, nodes := Some (map Some ns), cores := Some (map Some cs)\<rparr>)"
proof -
  have str: "plain (show_list xs)" "xs \<noteq> [] \<Longrightarrow> starts_digit (show_list xs)"
    if "set xs \<subseteq> set counts \<union> set ns \<union> set cs" for xs
    using show_list_text [of xs] assms(1) that by blast+
  have join: "plain (l @ show_list xs)" if "plain l" "set xs \<subseteq> set counts \<union> set ns \<union> set cs" for l xs
    using str(1) that by (auto simp: plain_def)
  have "counts \<noteq> []" using assms(2) by auto
  then have skip: "skip_to_digit (''s:'' @ show_list counts) = show_list counts"
    "skip_to_digit (''n:'' @ show_list ns) = show_list ns" "skip_to_digit (''c:'' @ show_list cs) = show_list cs"
    using assms(3,4) by (intro skip_to_digit_text str labels; blast)+
  have split: "conf_text counts ns cs = (''s:'' @ show_list counts) @ CHR 0x0A #
     ((''n:'' @ show_list ns) @ CHR 0x0A # ((''c:'' @ show_list cs) @ CHR 0x0A # []))"
    by (simp add: conf_text_def)
  have lines: "conf_lines parse env (conf_text counts ns cs) =
      andthen (conf_line parse env (''s:'' @ show_list counts)) (\<lambda>_.
      andthen (conf_line parse env (''n:'' @ show_list ns)) (\<lambda>_.
      andthen (conf_line parse env (''c:'' @ show_list cs)) (\<lambda>_. yield ())))"
    unfolding split using join labels(4-6)
    by (simp only: conf_lines_cons conf_lines_nil Un_upper1 Un_upper2 sup.coboundedI1 sup.coboundedI2 subset_refl)
  show ?thesis
    unfolding lines using skip assms(2) parse
    by (simp add: conf_line_def set_nodes_def set_cores_def)
qed

lemma conf_result:
  assumes "\<forall>x\<in>set counts \<union> set ns \<union> set cs. 0 \<le> x" and "length counts = 3" "ns \<noteq> []" "cs \<noteq> []"
    and "0 \<notin> set counts"
    and "parse (show_list counts) = (0, Some counts)" "parse (show_list ns) = (0, Some ns)"
      "parse (show_list cs) = (0, Some cs)"
    and conf: "topo_config env = Some f" "files env f = Some (conf_text counts ns cs)"
  shows "reeact_get_topology parse env True st = Return 0 \<lparr>nodes = Some (map Some ns),
    cores = Some (map Some cs), socket_cnt = counts ! 0, node_cnt = counts ! 1, core_cnt = counts ! 2,
    open_files = open_files st, messages = messages st\<rparr>"
proof -
  from assms(2,5) have "counts ! 0 \<noteq> 0" "counts ! 1 \<noteq> 0" "counts ! 2 \<noteq> 0"
    using nth_mem [of _ counts] by (metis One_nat_def Suc_1 lessI less_SucI numeral_3_eq_3 zero_less_Suc)+
  then show ?thesis
    using conf conf_lines_text [OF assms(1-4,6-8)]
    by (simp add: reeact_get_topology_def reeact_get_topo_conf_def OPEN_FILE_def fclose_def clear_def)
qed

section \<open>Error codes\<close>

definition returns :: "int set \<Rightarrow> 'a prog \<Rightarrow> bool" where
  "returns R m \<longleftrightarrow> (\<forall>st r st'. m st = Return r st' \<longrightarrow> r \<in> R)"

named_theorems codes

lemma returns_basic [codes]:
  "returns R (yield x)" "returns R (modify f)" "returns R (reads g)" "returns R (defined v)"
  "r \<in> R \<Longrightarrow> returns R (return r)"
  by (auto simp: returns_def defined_def split: option.splits)

lemma returns_say [codes]: "returns R (say f)"
  by (auto simp: returns_def say_def split: option.splits)

lemma returns_andthen [codes]:
  "returns R m \<Longrightarrow> (\<And>x. returns R (k x)) \<Longrightarrow> returns R (andthen m k)"
  by (fastforce simp: returns_def split: outcome.splits)

lemma returns_for_each [codes]:
  "(\<And>i l. returns R (body i l)) \<Longrightarrow> returns R (for_each is body l)"
  by (induction "is" arbitrary: l) (auto simp del: yield_def andthen_def intro: codes)

lemma returns_branch [codes]:
  "(b \<Longrightarrow> returns R m) \<Longrightarrow> (\<not> b \<Longrightarrow> returns R m') \<Longrightarrow> returns R (if b then m else m')"
  "(v = None \<Longrightarrow> returns R m) \<Longrightarrow> (\<And>x. v = Some x \<Longrightarrow> returns R (k x)) \<Longrightarrow>
   returns R (case v of None \<Rightarrow> m | Some x \<Rightarrow> k x)"
  "(\<And>x y. p = (x, y) \<Longrightarrow> returns R (h x y)) \<Longrightarrow> returns R (case p of (x, y) \<Rightarrow> h x y)"
  "(l = [] \<Longrightarrow> returns R m) \<Longrightarrow> (\<And>z zs. l = z # zs \<Longrightarrow> returns R (g z zs)) \<Longrightarrow>
   returns R (case l of [] \<Rightarrow> m | z # zs \<Rightarrow> g z zs)"
  by (auto split: option.splits prod.splits list.splits)

lemma returns_read [codes]: "2 \<in> R \<Longrightarrow> returns R (read_list parse env f fmt args)"
  unfolding read_list_def OPEN_FILE_def GET_LINE_MUST_SUCCEED_def Let_def by (intro codes)

lemma returns_steps [codes]:
  "2 \<in> R \<Longrightarrow> returns R (find_core parse env i l)"
  "2 \<in> R \<Longrightarrow> returns R (map_node parse env ids i u)"
  "2 \<in> R \<Longrightarrow> returns R (max_package parse env i u)"
  "2 \<in> R \<Longrightarrow> returns R (place_socket parse env n i u)"
  unfolding find_core_def map_node_def max_package_def place_socket_def place_node_def
    node_package_def
  by (intro codes; simp)+

lemma returns_debug [codes]:
  "returns R (in_debug env (debug_list env fmt args xs))"
  "returns R (in_debug env (for_each is (debug_node env) u))"
  unfolding in_debug_def debug_list_def debug_node_def by (intro codes)+

lemma returns_sysfs: "returns {0, 2, 3} (reeact_get_topo_sysfs parse env)"
  unfolding reeact_get_topo_sysfs_def fclose_def Let_def by (intro codes; simp)

lemma returns_conf_line [codes]: "2 \<in> R \<Longrightarrow> returns R (conf_line parse env buf)"
  unfolding conf_line_def bad_line_def Let_def by (intro codes)

lemma returns_conf_lines [codes]: "2 \<in> R \<Longrightarrow> returns R (conf_lines parse env content)"
proof (induction parse env content rule: conf_lines.induct)
  case (1 parse env content)
  show ?case
    by (subst conf_lines.simps) (intro codes; use 1 in blast)
qed

lemma returns_conf: "returns {0, 2} (reeact_get_topo_conf parse env)"
  unfolding reeact_get_topo_conf_def OPEN_FILE_def fclose_def by (intro codes; simp)

end
