(* ===== verification/Topology_Types.thy ===== *)
theory Topology_Types imports Topology_Sysfs begin

text \<open>
  What a successful \<open>reeact_get_topo_sysfs\<close> guarantees on any machine and for any contents of
  sysfs, also where its assumptions about the machine fail: the arrays have the lengths the
  counts promise and hold numbers of nodes and contexts. The proof runs the program backwards
  (\<open>wp\<close>) with one invariant per loop.
\<close>

section \<open>Weakest preconditions\<close>

text \<open>\<open>Q\<close> for going on with a value, \<open>R\<close> for returning a code; undefined behaviour is not ruled
  out here.\<close>

definition wp :: "'a prog \<Rightarrow> ('a \<Rightarrow> topo \<Rightarrow> bool) \<Rightarrow> (int \<Rightarrow> topo \<Rightarrow> bool) \<Rightarrow> topo \<Rightarrow> bool" where
  "wp m Q R st \<longleftrightarrow> (case m st of Go x s \<Rightarrow> Q x s | Return r s \<Rightarrow> R r s | Undef \<Rightarrow> True)"

named_theorems wp_rules

lemma wp_yield [wp_rules]: "Q x st \<Longrightarrow> wp (yield x) Q R st"
  and wp_return [wp_rules]: "R r st \<Longrightarrow> wp (return r) Q R st"
  by (auto simp: wp_def)

lemma wp_modify [wp_rules]: "Q () (f st) \<Longrightarrow> wp (modify f) Q R st"
  by (simp add: wp_def)

lemma wp_reads [wp_rules]: "Q (g st) st \<Longrightarrow> wp (reads g) Q R st"
  by (simp add: wp_def)

lemma wp_defined [wp_rules]: "(\<And>y. v = Some y \<Longrightarrow> Q y st) \<Longrightarrow> wp (defined v) Q R st"
  by (auto simp: wp_def defined_def split: option.splits)

lemma wp_say [wp_rules]: "(\<And>l. Q () (st\<lparr>messages := l\<rparr>)) \<Longrightarrow> wp (say f) Q R st"
  by (auto simp: wp_def say_def split: option.splits)

lemma wp_andthen [wp_rules]: "wp m (\<lambda>x. wp (k x) Q R) R st \<Longrightarrow> wp (andthen m k) Q R st"
  by (auto simp: wp_def split: outcome.splits)

lemma wp_branch [wp_rules]:
  "(b \<Longrightarrow> wp m Q R st) \<Longrightarrow> (\<not> b \<Longrightarrow> wp m' Q R st) \<Longrightarrow> wp (if b then m else m') Q R st"
  "(\<And>x y. p = (x, y) \<Longrightarrow> wp (h x y) Q R st) \<Longrightarrow> wp (case p of (x, y) \<Rightarrow> h x y) Q R st"
  by (auto split: prod.splits)

text \<open>The programs are taken apart by the rules from here on, not by simplification.\<close>

declare prog_simps [simp del]

lemma wp_mono: "wp m Q R st \<Longrightarrow> (\<And>x s. Q x s \<Longrightarrow> Q' x s) \<Longrightarrow> wp m Q' R st"
  by (auto simp: wp_def split: outcome.splits)

lemma wp_for_each:
  assumes "I l st" and "\<And>i l s. i \<in> set is \<Longrightarrow> I l s \<Longrightarrow> wp (body i l) I R s" and "\<And>l s. I l s \<Longrightarrow> Q l s"
  shows "wp (for_each is body l) Q R st"
  using assms(1,2)
proof (induction "is" arbitrary: l st)
  case Nil
  with assms(3) show ?case by (auto intro: wp_rules)
next
  case (Cons i "is")
  have "wp (body i l) (\<lambda>l. wp (for_each is body l) Q R) R st"
    by (rule wp_mono [OF Cons.prems(2) [OF _ Cons.prems(1)]]) (use Cons in simp_all)
  then show ?case by (simp add: wp_andthen)
qed

text \<open>The list a file of sysfs holds; reading it gives this list or the error 2.\<close>

definition file_list :: "parser \<Rightarrow> sysenv \<Rightarrow> string \<Rightarrow> int list" where
  "file_list parse env f = (case files env f of None \<Rightarrow> [] | Some content \<Rightarrow>
     (case getline content of None \<Rightarrow> []
      | Some (line, rest) \<Rightarrow> (case snd (parse (c_string (chomp line))) of None \<Rightarrow> [] | Some xs \<Rightarrow> xs)))"

lemma wp_read_list [wp_rules]:
  "(\<And>s. R 2 s) \<Longrightarrow> Q (file_list parse env f) (st\<lparr>open_files := Suc (open_files st)\<rparr>) \<Longrightarrow>
   wp (read_list parse env f fmt args) Q R st"
  by (auto simp: prog_simps say_def wp_def read_list_def OPEN_FILE_def GET_LINE_MUST_SUCCEED_def file_list_def defined_def
      split: option.splits prod.splits outcome.splits)

section \<open>The arrays\<close>

text \<open>An array of n elements that hold numbers below m, or nothing yet.\<close>

definition array_of :: "nat \<Rightarrow> nat \<Rightarrow> int option list option \<Rightarrow> bool" where
  "array_of n m a \<longleftrightarrow> (\<exists>xs. a = Some xs \<and> length xs = n \<and> (\<forall>v. Some v \<in> set xs \<longrightarrow> 0 \<le> v \<and> v < int m))"

lemma array_malloc: "array_of n m (Some (replicate n None))"
  by (auto simp: array_of_def)

lemma array_store:
  assumes "array_of n m a" and "store a i v = Some a'" and "0 \<le> v" and "v < int m"
  shows "array_of n m a'"
proof -
  from assms(1) obtain xs where xs: "a = Some xs" "length xs = n"
    "\<And>v. Some v \<in> set xs \<Longrightarrow> 0 \<le> v \<and> v < int m" by (auto simp: array_of_def)
  with assms(2) have a': "a' = Some (xs[nat i := Some v])" by (auto simp: store_def put_def split: if_splits)
  have "0 \<le> w \<and> w < int m" if "Some w \<in> set (xs[nat i := Some v])" for w
    using that xs(3) assms(3,4) set_update_subset_insert [of xs "nat i" "Some v"] by blast
  with a' xs(2) show ?thesis by (simp add: array_of_def)
qed

lemma array_assign:
  assumes "array_of n (length ids) a" and "assign_cores ids base cs k a = Some a'"
  shows "array_of n (length ids) a'"
  using assms
proof (induction ids base cs k a rule: assign_cores.induct)
  case (2 ids base c cs k a)
  then obtain v where v: "at ids c = Some v" by (auto simp: bind_eq_Some_conv)
  then have c: "0 \<le> c" "c < int (length ids)" by (auto simp: at_def in_range_def split: if_splits)
  show ?case
  proof (cases "v = -1")
    case True
    with 2(4) v obtain b where b: "store a (base + k) c = Some b" "assign_cores ids base cs (k + 1) b = Some a'"
      by (auto simp: bind_eq_Some_conv)
    from 2(1) [OF v True b(1) array_store [OF 2(3) b(1) c] b(2)] show ?thesis .
  next
    case False
    with 2(2) [OF v False 2(3)] 2(4) v show ?thesis by simp
  qed
qed simp

lemma mark_length: "mark_siblings i cs ids = Some ids' \<Longrightarrow> length ids' = length ids"
  by (induction i cs ids rule: mark_siblings.induct)
    (auto simp: bind_eq_Some_conv put_def split: if_splits)

section \<open>The loops\<close>

definition counts_ok :: "nat \<Rightarrow> nat \<Rightarrow> nat \<Rightarrow> topo \<Rightarrow> bool" where
  "counts_ok n m k st \<longleftrightarrow> 0 < n \<and> array_of k m (cores st) \<and> core_cnt st = int k div int n"

definition only_zero :: "(topo \<Rightarrow> bool) \<Rightarrow> int \<Rightarrow> topo \<Rightarrow> bool" where
  "only_zero P r st \<longleftrightarrow> r = 0 \<longrightarrow> P st"

lemma only_zero_simps [simp]:
  "only_zero P 2 st" "only_zero P 3 st" "only_zero P 0 st \<longleftrightarrow> P st"
  by (simp_all add: only_zero_def)

lemma counts_ok_simps [simp]:
  "counts_ok n m k (st\<lparr>open_files := x\<rparr>) = counts_ok n m k st"
  "counts_ok n m k (st\<lparr>messages := l\<rparr>) = counts_ok n m k st"
  "counts_ok n m k (st\<lparr>socket_cnt := y\<rparr>) = counts_ok n m k st"
  "counts_ok n m k (st\<lparr>node_cnt := y\<rparr>) = counts_ok n m k st"
  "counts_ok n m k (st\<lparr>nodes := a\<rparr>) = counts_ok n m k st"
  by (simp_all add: counts_ok_def)

lemma wp_find_core:
  assumes "length (fst l) = m"
  shows "wp (find_core parse env i l) (\<lambda>l s. length (fst l) = m) (only_zero P) st"
  using assms unfolding find_core_def
  by (cases l) (auto intro!: wp_rules dest: mark_length)

lemma wp_map_node:
  assumes "counts_ok n (length ids) k st"
  shows "wp (map_node parse env ids i u) (\<lambda>_. counts_ok n (length ids) k) (only_zero P) st"
  using assms unfolding map_node_def counts_ok_def
  by (auto intro!: wp_rules intro: array_assign)

lemma wp_node_package:
  assumes "\<And>p s. I s \<Longrightarrow> Q p s" and "\<And>s x. I s \<Longrightarrow> I (s\<lparr>open_files := x\<rparr>)" and "I st"
  shows "wp (node_package parse env j i) Q (only_zero P) st"
  using assms unfolding node_package_def by (auto intro!: wp_rules)

lemma wp_max_package:
  assumes "counts_ok n m k st \<and> -1 \<le> socket_cnt st"
  shows "wp (max_package parse env i u) (\<lambda>_ s. counts_ok n m k s \<and> -1 \<le> socket_cnt s) (only_zero P) st"
  unfolding max_package_def
  by (intro wp_rules wp_node_package [where I = "\<lambda>s. counts_ok n m k s \<and> -1 \<le> socket_cnt s"]) (use assms in auto)

text \<open>All five output parameters after the nodes have been allocated.\<close>

definition topo_ok :: "nat \<Rightarrow> nat \<Rightarrow> nat \<Rightarrow> topo \<Rightarrow> bool" where
  "topo_ok n m k st \<longleftrightarrow> counts_ok n m k st \<and> array_of n n (nodes st) \<and> 0 < socket_cnt st \<and>
     node_cnt st = int n div socket_cnt st"

lemma topo_ok_open [simp]:
  "topo_ok n m k (st\<lparr>open_files := x\<rparr>) = topo_ok n m k st"
  "topo_ok n m k (st\<lparr>messages := l\<rparr>) = topo_ok n m k st"
  by (simp_all add: topo_ok_def)

lemma wp_place_node:
  assumes "topo_ok n m k st" and "j < n"
  shows "wp (place_node parse env i j l) (\<lambda>_. topo_ok n m k) (only_zero P) st"
  unfolding place_node_def
  by (intro wp_rules wp_node_package [where I = "topo_ok n m k"])
    (use assms in \<open>auto simp: topo_ok_def intro: array_store\<close>)

lemma wp_place_socket:
  assumes "topo_ok n m k st"
  shows "wp (place_socket parse env n i u) (\<lambda>_. topo_ok n m k) (only_zero P) st"
  unfolding place_socket_def
  by (intro wp_rules wp_for_each [where I = "\<lambda>_. topo_ok n m k"]) (use assms in \<open>auto intro: wp_place_node\<close>)

text \<open>The debug output changes nothing but the log.\<close>

definition log_only :: "(topo \<Rightarrow> bool) \<Rightarrow> bool" where
  "log_only I \<longleftrightarrow> (\<forall>st l. I st \<longrightarrow> I (st\<lparr>messages := l\<rparr>))"

lemma log_onlyD: "log_only I \<Longrightarrow> I st \<Longrightarrow> I (st\<lparr>messages := l\<rparr>)"
  by (simp add: log_only_def)

lemma wp_for_each_log:
  assumes "log_only I" and "I st" and "\<And>s. I s \<Longrightarrow> Q () s"
    and "\<And>i s. I s \<Longrightarrow> wp (body i ()) (\<lambda>_. I) R s"
  shows "wp (for_each is body ()) Q R st"
  by (rule wp_for_each [where I = "\<lambda>_. I"]) (use assms in auto)

lemma wp_debug_list:
  assumes "log_only I" and "I st" and "\<And>s. I s \<Longrightarrow> Q () s"
  shows "wp (in_debug env (debug_list env fmt args xs)) Q R st"
  unfolding in_debug_def debug_list_def
  by (intro wp_rules wp_for_each_log [where I = I]) (use assms in \<open>auto intro: log_onlyD\<close>)

lemma wp_debug_nodes:
  assumes "log_only I" and "I st" and "\<And>s. I s \<Longrightarrow> Q () s"
  shows "wp (in_debug env (for_each is (debug_node env) ())) Q R st"
  unfolding in_debug_def debug_node_def
  by (intro wp_rules wp_for_each_log [where I = I]) (use assms in \<open>auto intro: log_onlyD\<close>)

text \<open>The four loops as steps of the whole function.\<close>

lemma wp_find_cores:
  assumes "length ids = m" and "\<And>l s. length (fst l) = m \<Longrightarrow> Q l s"
  shows "wp (for_each is (find_core parse env) (ids, k)) Q (only_zero P) st"
  by (rule wp_for_each [where I = "\<lambda>l s. length (fst l) = m"]) (use assms in \<open>auto intro: wp_find_core\<close>)

lemma wp_map_nodes:
  assumes "counts_ok n (length ids) k st" and "\<And>s. counts_ok n (length ids) k s \<Longrightarrow> Q () s"
  shows "wp (for_each is (map_node parse env ids) ()) Q (only_zero P) st"
  by (rule wp_for_each [where I = "\<lambda>_. counts_ok n (length ids) k"]) (use assms in \<open>auto intro: wp_map_node\<close>)

lemma wp_max_packages:
  assumes "counts_ok n m k st \<and> -1 \<le> socket_cnt st"
    and "\<And>s. counts_ok n m k s \<Longrightarrow> -1 \<le> socket_cnt s \<Longrightarrow> Q () s"
  shows "wp (for_each is (max_package parse env) ()) Q (only_zero P) st"
  by (rule wp_for_each [where I = "\<lambda>_ s. counts_ok n m k s \<and> -1 \<le> socket_cnt s"])
    (use assms in \<open>auto intro: wp_max_package\<close>)

lemma wp_place_sockets:
  assumes "topo_ok n m k st" and "\<And>s. topo_ok n m k s \<Longrightarrow> Q () s"
  shows "wp (for_each is (place_socket parse env n) ()) Q (only_zero P) st"
  by (rule wp_for_each [where I = "\<lambda>_. topo_ok n m k"]) (use assms in \<open>auto intro: wp_place_socket\<close>)

section \<open>The whole function\<close>

definition online :: "parser \<Rightarrow> sysenv \<Rightarrow> string \<Rightarrow> nat" where
  "online parse env f = length (file_list parse env f)"

text \<open>From the loop over the packages on.\<close>

lemma divided: "divide_ints a b = Some c \<longleftrightarrow> b \<noteq> 0 \<and> c = a div b"
  by (auto simp: divide_ints_def)

lemma packages_ok:
  assumes "counts_ok n m k s" and "-1 \<le> socket_cnt s" and "divide_ints (int n) (socket_cnt s + 1) = Some nc"
  shows "topo_ok n m k (s\<lparr>socket_cnt := socket_cnt s + 1, messages := l, nodes := Some (replicate n None), node_cnt := nc\<rparr>)"
  using assms array_malloc [of n n] by (auto simp: topo_ok_def counts_ok_def divided)

lemma wp_sysfs:
  assumes "malloc_nodes env"
  shows "wp (reeact_get_topo_sysfs parse env) (\<lambda>_ _. True)
    (only_zero (\<lambda>s. \<exists>k. topo_ok (online parse env ONLINE_NODE_LIST) (online parse env ONLINE_CPU_LIST) k s)) st"
proof -
  let ?n = "length (file_list parse env ONLINE_NODE_LIST)" and ?m = "length (file_list parse env ONLINE_CPU_LIST)"
  show ?thesis
    unfolding reeact_get_topo_sysfs_def Let_def fclose_def online_def
    apply (intro wp_rules wp_find_cores wp_debug_list [where I = "\<lambda>_. True"] refl;
        (simp only: only_zero_simps log_only_def simp_thms)?)
    subgoal for s1 l s2 ids k s3 cc l4
      apply (rule wp_map_nodes [where n = ?n and k = k])
       apply (auto simp: counts_ok_def divided malloc_ints_def array_malloc split: if_splits)[1]
      apply (intro wp_rules wp_debug_nodes [where I = "counts_ok ?n ?m k"])
        apply (simp add: log_only_def)
       apply simp
      apply (intro wp_rules wp_max_packages [where n = ?n and m = ?m and k = k])
       apply (auto simp: counts_ok_def)[1]
      apply (intro wp_rules wp_place_sockets [where n = ?n and m = ?m and k = k])
       apply (auto simp: malloc_ints_def assms split: if_splits intro: packages_ok)[1]
      apply auto
      done
    done
qed

declare prog_simps [simp]

end
