(* ===== verification/Core_Print.thy ===== *)
theory Core_Print imports Core Topology_Conf Topology_Types begin

text \<open>
  What \<open>reeact_log_topology\<close> prints: the sockets of a described machine with their nodes and cores,
  and undefined behaviour when the counts ask for more nodes than the array has.
\<close>

section \<open>The printed topology\<close>

definition core_text :: "nat list \<Rightarrow> string" where
  "core_text cs = concat (map (\<lambda>c. show_int (int c) @ '' '') cs)"

definition node_text :: "machine \<Rightarrow> nat \<Rightarrow> string" where
  "node_text M j = tab @ '' Node '' @ show_int (int j) @ '':'' @ nl @ tab @ tab @ core_text (node_cores M j) @ nl"

definition socket_text :: "machine \<Rightarrow> nat \<Rightarrow> string" where
  "socket_text M s = ''Socket '' @ show_int (int s) @ '':'' @ nl @ concat (map (node_text M) (socket_nodes M s))"

definition machine_text :: "machine \<Rightarrow> string" where
  "machine_text M = ''Socket count is '' @ show_int (int (sockets M)) @ '', node per socket is '' @
     show_int (int (nodes_per_socket M)) @ '', cores per node is '' @ show_int (int (cores_per_node M)) @ nl @
     concat (map (socket_text M) [0..<sockets M])"

lemma for_each_prints:
  assumes "\<And>k l. k < length xs \<Longrightarrow> body k () (st\<lparr>messages := l\<rparr>) = Go () (st\<lparr>messages := emit (g (xs ! k)) l\<rparr>)"
    and "length xs = n"
  shows "for_each [0..<n] body () (st\<lparr>messages := l\<rparr>) = Go () (st\<lparr>messages := emit (concat (map g xs)) l\<rparr>)"
proof -
  have "for_each [0..<n] body () (st\<lparr>messages := l\<rparr>) =
      Go () (st\<lparr>messages := fold (\<lambda>k. emit (g (xs ! k))) [0..<n] l\<rparr>)"
    by (rule for_each_says) (use assms in auto)
  also have "map (\<lambda>k. g (xs ! k)) [0..<n] = map g xs" using assms(2) by (intro nth_equalityI) auto
  ultimately show ?thesis by (simp add: fold_emit)
qed

lemma print_node_machine:
  assumes M: "homogeneous M" and s: "s < sockets M" and k: "k < nodes_per_socket M"
    and t: "t = topology_of M f l0"
  shows "print_node s k () (t\<lparr>messages := l\<rparr>) =
    Go () (t\<lparr>messages := emit (node_text M (socket_nodes M s ! k)) l\<rparr>)"
proof -
  let ?j = "socket_nodes M s ! k"
  have "length (socket_nodes M s) = nodes_per_socket M" using machine_rows(2) [OF M] s by blast
  then have "?j \<in> set (socket_nodes M s)" using k by simp
  then have j: "?j < n_nodes M" by (simp add: socket_nodes_def)
  have len: "length (node_cores M ?j) = cores_per_node M" using machine_rows(1) [OF M] j by blast
  have n: "load (nodes t) (int s * int (nodes_per_socket M) + int k) = Some (int ?j)"
    using load_row [OF machine_rows(2) [OF M] s k] by (simp add: t topology_of_def node_table_def)
  have "load (cores t) (int ?j * int (cores_per_node M) + int i) = Some (int (node_cores M ?j ! i))"
    if "i < cores_per_node M" for i
    using load_row [OF machine_rows(1) [OF M] j that] by (simp add: t topology_of_def core_table_def)
  then have "for_each [0..<cores_per_node M] (print_core (int ?j)) () (t\<lparr>messages := l\<rparr>) =
      Go () (t\<lparr>messages := emit (core_text (node_cores M ?j)) l\<rparr>)" for l
    unfolding core_text_def using len
    by (intro for_each_prints) (simp_all add: print_core_def print_err_def t topology_of_def)
  with n show ?thesis
    by (simp add: print_node_def print_err_def node_text_def t topology_of_def)
qed

lemma print_socket_machine:
  assumes M: "homogeneous M" and s: "s < sockets M" and t: "t = topology_of M f l0"
  shows "print_socket s () (t\<lparr>messages := l\<rparr>) = Go () (t\<lparr>messages := emit (socket_text M s) l\<rparr>)"
proof -
  have len: "length (socket_nodes M s) = nodes_per_socket M" using machine_rows(2) [OF M] s by blast
  have "for_each [0..<nodes_per_socket M] (print_node s) () (t\<lparr>messages := l\<rparr>) =
      Go () (t\<lparr>messages := emit (concat (map (node_text M) (socket_nodes M s))) l\<rparr>)" for l
    using print_node_machine [OF M s _ t] len by (intro for_each_prints) simp_all
  then show ?thesis by (simp add: print_socket_def print_err_def socket_text_def t topology_of_def)
qed

definition topology_log :: "log_env \<Rightarrow> machine \<Rightarrow> log_state \<Rightarrow> log_state" where
  "topology_log env M l = (if debug env then tell env (''reeact_log_topology: '' @ machine_text M) l else l)"

lemma log_topology_machine:
  assumes M: "homogeneous M"
  shows "reeact_log_topology env (topology_of M f l) = Go () (topology_of M f (topology_log env M l))"
proof -
  let ?t = "topology_of M f l"
  have "for_each [0..<sockets M] print_socket () (?t\<lparr>messages := l\<rparr>) =
      Go () (?t\<lparr>messages := emit (concat (map (socket_text M) [0..<sockets M])) l\<rparr>)" for l
    using print_socket_machine [OF M _ refl, where f = f] by (intro for_each_prints) simp_all
  then show ?thesis
    by (simp add: reeact_log_topology_def topology_log_def machine_text_def DPRINTF_tell topology_of_def emit_tell)
qed

text \<open>Counts that ask for more nodes than the array has.\<close>

definition prints_only :: "'a prog \<Rightarrow> topo \<Rightarrow> bool" where
  "prints_only m st \<longleftrightarrow>
     (\<forall>l. m (st\<lparr>messages := l\<rparr>) = Undef \<or> (\<exists>x l'. m (st\<lparr>messages := l\<rparr>) = Go x (st\<lparr>messages := l'\<rparr>)))"

named_theorems prints

lemma prints_basic [prints]:
  "prints_only (say f) st" "prints_only (reads g) st" "prints_only (defined v) st" "prints_only (yield y) st"
  by (auto simp: prints_only_def say_def defined_def split: option.splits)

lemma prints_andthen [prints]:
  assumes "prints_only m st" and "\<And>x. prints_only (k x) st"
  shows "prints_only (andthen m k) st"
  unfolding prints_only_def
proof
  fix l
  from assms(1) consider "m (st\<lparr>messages := l\<rparr>) = Undef" | x l' where "m (st\<lparr>messages := l\<rparr>) = Go x (st\<lparr>messages := l'\<rparr>)"
    unfolding prints_only_def by blast
  then show "andthen m k (st\<lparr>messages := l\<rparr>) = Undef \<or> (\<exists>x l'. andthen m k (st\<lparr>messages := l\<rparr>) = Go x (st\<lparr>messages := l'\<rparr>))"
  proof cases
    case 2
    with assms(2) [of x] show ?thesis by (simp add: prints_only_def)
  qed simp
qed

lemma prints_for_each [prints]:
  "(\<And>x u. prints_only (body x u) st) \<Longrightarrow> prints_only (for_each xs body u) st"
  by (induction xs arbitrary: u) (auto simp del: andthen_def yield_def intro: prints)

lemma for_each_undefined:
  assumes "x \<in> set xs" and "\<And>l. body x () (st\<lparr>messages := l\<rparr>) = Undef"
    and "\<And>x u. prints_only (body x u) st"
  shows "for_each xs body () (st\<lparr>messages := l\<rparr>) = Undef"
  using assms(1)
proof (induction xs arbitrary: l)
  case (Cons y ys)
  from assms(3) [of y "()"] consider "body y () (st\<lparr>messages := l\<rparr>) = Undef"
    | u l' where "body y () (st\<lparr>messages := l\<rparr>) = Go u (st\<lparr>messages := l'\<rparr>)"
    unfolding prints_only_def by blast
  then show ?case
  proof cases
    case 2
    then have "y \<noteq> x" using assms(2) by auto
    with Cons 2 show ?thesis by simp
  qed simp
qed simp

lemma prints_loops [prints]:
  "prints_only (print_core n k u) st" "prints_only (print_node i j u) st" "prints_only (print_socket i u) st"
  unfolding print_core_def print_node_def print_socket_def by (intro prints)+

lemma log_topology_short:
  assumes "nodes st = Some xs" and "0 < socket_cnt st" "0 < node_cnt st"
    and "int (length xs) < socket_cnt st * node_cnt st" and "debug env"
  shows "reeact_log_topology env st = Undef"
proof -
  let ?i = "nat (socket_cnt st - 1)" and ?j = "nat (node_cnt st - 1)"
  have last: "?i \<in> set [0..<nat (socket_cnt st)]" "?j \<in> set [0..<nat (node_cnt st)]"
    using assms(2,3) by auto
  have "int ?i * node_cnt st + int ?j = socket_cnt st * node_cnt st - 1"
    using assms(2,3) by (simp add: algebra_simps)
  then have "load (nodes st) (int ?i * node_cnt st + int ?j) = None"
    using assms(1,4) by (simp add: load_def at_def in_range_def)
  then have "print_node ?i ?j () (st\<lparr>messages := l\<rparr>) = Undef" for l by (simp add: print_node_def)
  then have "for_each [0..<nat (node_cnt st)] (print_node ?i) () (st\<lparr>messages := l\<rparr>) = Undef" for l
    by (rule for_each_undefined [OF last(2)]) (auto intro: prints)
  then have "print_socket ?i () (st\<lparr>messages := l\<rparr>) = Undef" for l
    by (simp add: print_socket_def print_err_def)
  then have "for_each [0..<nat (socket_cnt st)] print_socket () (st\<lparr>messages := l\<rparr>) = Undef" for l
    by (rule for_each_undefined [OF last(1)]) (auto intro: prints)
  then show ?thesis using assms(5) by (simp add: reeact_log_topology_def DPRINTF_tell)
qed

end
