(* ===== verification/Topology_Props.thy ===== *)
theory Topology_Props imports Topology_Conf Topology_Types begin

text \<open>
  What \<open>reeact_get_topology\<close> promises: the arrays of its header comment on the machines the
  code assumes, the same from a configuration file, the fall-back from a broken
  configuration file to sysfs, the error codes, and the streams it forgets to close.
\<close>

section \<open>A machine, its sysfs and a parser\<close>

text \<open>
  Two sockets with one node each, one core per node and two SMT contexts per core, numbered
  the way Linux does; and a parser that knows the lines of this sysfs.
\<close>

definition dual :: machine where
  "dual = \<lparr>sockets = 2, nodes_per_socket = 1, cores_per_node = 1, cpus = 4,
     siblings = (\<lambda>i. if i = 0 \<or> i = 2 then [0, 2] else [1, 3]),
     cpulist = (\<lambda>j. if j = 0 then [0, 2] else [1, 3]), package = (\<lambda>i. if i = 0 \<or> i = 2 then 0 else 1)\<rparr>"

definition line :: "string \<Rightarrow> string" where "line s = s @ [CHR 0x0A]"

definition dual_files :: "string \<Rightarrow> string option" where
  "dual_files = map_of [(ONLINE_NODE_LIST, line ''0-1''), (ONLINE_CPU_LIST, line ''0-3''),
     (context_list_file 0, line ''0,2''), (context_list_file 1, line ''1,3''),
     (context_list_file 2, line ''0,2''), (context_list_file 3, line ''1,3''),
     (core_list_file 0, line ''0,2''), (core_list_file 1, line ''1,3''),
     (package_id_file 0, line ''0''), (package_id_file 1, line ''1''),
     (package_id_file 2, line ''0''), (package_id_file 3, line ''1''),
     (''broken.conf'', line ''sockets: 2''), (''good.conf'', conf_text [2, 1, 1] [0, 1] [0, 1]),
     (''short.conf'', conf_text [2, 2, 1] [0, 1] [0, 1])]"

definition dual_parse :: parser where
  "dual_parse s = (case map_of [(''0-1'', [0, 1]), (''0-3'', [0, 1, 2, 3]), (''0,2'', [0, 2]),
     (''1,3'', [1, 3]), (''0'', [0]), (''1'', [1]), (''2'', [2]), (''2,1,1'', [2, 1, 1]), (''2,2,1'', [2, 2, 1]),
     (''0,1'', [0, 1])] s of None \<Rightarrow> (1, None) | Some xs \<Rightarrow> (0, Some xs))"

definition dual_env :: "string option \<Rightarrow> sysenv" where
  "dual_env conf = \<lparr>files = dual_files, fopen_errno = (\<lambda>_. 2), topo_config = conf, malloc_cores = True,
     malloc_nodes = True, logging = app_log 42\<rparr>"

definition blank :: topo where
  "blank = \<lparr>nodes = None, cores = None, socket_cnt = 0, node_cnt = 0, core_cnt = 0, open_files = 0,
     messages = log_start\<rparr>"

lemma upt_small [simp]: "[0..<2] = [0, 1 :: nat]" "[0..<4] = [0, 1, 2, 3 :: nat]"
  by (simp_all add: upt_rec numeral_eq_Suc)

lemma dual_homogeneous: "homogeneous dual"
  by (simp add: homogeneous_def dual_def n_nodes_def node_cores_def node_socket_def socket_nodes_def
      leader_def small_ranges INT_MAX_def lessThan_nat_numeral lessThan_Suc) auto

lemmas file_names = ONLINE_NODE_LIST_def ONLINE_CPU_LIST_def context_list_file_def
  core_list_file_def package_id_file_def show_int_def show_nat.simps

lemma dual_sysfs: "sysfs_shows dual_parse (dual_env conf) dual"
  by (simp add: sysfs_shows_def shows_list_def dual_env_def dual_files_def dual_parse_def dual_def
      n_nodes_def small_ranges file_names getline_def line_def chomp_def c_string_def)

lemma dual_lines: "sysfs_lines dual = [''There are 2 nodes: 0,1,'' @ nl, ''There are 2 cpu cores: 0,1,'' @ nl,
    ''cores per node: 1'' @ nl, ''node 0 core list: 0,'' @ nl, ''node 1 core list: 1,'' @ nl,
    ''There are 2 sockets'' @ nl]"
  by (simp add: sysfs_lines_def dual_def n_nodes_def node_line_def socket_line_def number_list_def node_cores_def
      leader_def show_int_def show_nat.simps)

section \<open>Topology from sysfs\<close>

text \<open>C13: the topology is the machine's. On a homogeneous machine that sysfs describes, and
  without a configuration file, the call succeeds, the counts are the machine's, the entry
  for socket s and index k of the flattened \<open>nodes\<close> is the k-th node whose first core is in
  package s, and the entry for node j and index k of \<open>cores\<close> is the k-th context of node j
  that is the first of its SMT siblings. No read or write leaves an array, and the outcome
  does not depend on what the output parameters held before. The log has the lines of
  \<open>sysfs_lines\<close> more in the debug build, and nothing more in the release build.\<close>

theorem topology_correct:
  assumes "homogeneous M" and "sysfs_shows parse env M"
    and "topo_config env = None" and "malloc_cores env" and "malloc_nodes env"
  shows "\<exists>st'. reeact_get_topology parse env True st = Return 0 st' \<and>
    socket_cnt st' = int (sockets M) \<and> node_cnt st' = int (nodes_per_socket M) \<and>
    core_cnt st' = int (cores_per_node M) \<and>
    messages st' = (if debug (logging env)
      then fold (\<lambda>t. tell (logging env) (''reeact_get_topo_sysfs: '' @ t)) (sysfs_lines M) (messages st) else messages st) \<and>
    (\<forall>s < sockets M. \<forall>k < nodes_per_socket M.
       load (nodes st') (int s * node_cnt st' + int k) = Some (int (socket_nodes M s ! k))) \<and>
    (\<forall>j < n_nodes M. \<forall>k < cores_per_node M.
       load (cores st') (int j * core_cnt st' + int k) = Some (int (node_cores M j ! k)))"
proof -
  let ?st = "topology_of M (open_files st + opened_by_sysfs M - 1) (sysfs_log env M (messages st))"
  have "reeact_get_topology parse env True st = Return 0 ?st"
    using sysfs_result [OF assms(1,2,4,5)] assms(3) by (simp add: reeact_get_topology_def clear_def)
  moreover have "load (nodes ?st) (int s * node_cnt ?st + int k) = Some (int (socket_nodes M s ! k))"
    if "s < sockets M" "k < nodes_per_socket M" for s k
    using load_row [OF machine_rows(2) [OF assms(1)] that] by (simp add: topology_of_def node_table_def)
  moreover have "load (cores ?st) (int j * core_cnt ?st + int k) = Some (int (node_cores M j ! k))"
    if "j < n_nodes M" "k < cores_per_node M" for j k
    using load_row [OF machine_rows(1) [OF assms(1)] that] by (simp add: topology_of_def core_table_def)
  ultimately show ?thesis
    using sysfs_log_text [of env M "messages st"] by (intro exI [of _ ?st]) (simp add: topology_of_def)
qed

theorem topology_correct_witness:
  "\<exists>st'. reeact_get_topology dual_parse (dual_env None) True blank = Return 0 st' \<and>
     socket_cnt st' = 2 \<and> load (nodes st') 1 = Some 1 \<and> load (cores st') 1 = Some 1 \<and>
     errout (messages st') =
       ''42 app: reeact_get_topo_sysfs: There are 2 nodes: 0,1,'' @ nl @
       ''42 app: reeact_get_topo_sysfs: There are 2 cpu cores: 0,1,'' @ nl @
       ''42 app: reeact_get_topo_sysfs: cores per node: 1'' @ nl @
       ''42 app: reeact_get_topo_sysfs: node 0 core list: 0,'' @ nl @
       ''42 app: reeact_get_topo_sysfs: node 1 core list: 1,'' @ nl @
       ''42 app: reeact_get_topo_sysfs: There are 2 sockets'' @ nl"
proof -
  obtain st' where st': "reeact_get_topology dual_parse (dual_env None) True blank = Return 0 st'"
    "socket_cnt st' = int (sockets dual)" "node_cnt st' = int (nodes_per_socket dual)"
    "core_cnt st' = int (cores_per_node dual)"
    "messages st' = fold (\<lambda>t. tell (app_log 42) (''reeact_get_topo_sysfs: '' @ t)) (sysfs_lines dual) log_start"
    and n: "\<forall>s < sockets dual. \<forall>k < nodes_per_socket dual.
       load (nodes st') (int s * node_cnt st' + int k) = Some (int (socket_nodes dual s ! k))"
    and c: "\<forall>j < n_nodes dual. \<forall>k < cores_per_node dual.
       load (cores st') (int j * core_cnt st' + int k) = Some (int (node_cores dual j ! k))"
    using topology_correct [OF dual_homogeneous dual_sysfs [of None], of blank]
    by (auto simp: dual_env_def blank_def app_log_def)
  have "load (nodes st') 1 = Some 1" "load (cores st') 1 = Some 1"
    using n [rule_format, of 1 0] c [rule_format, of 1 0] st'(3,4)
    by (simp_all add: dual_def n_nodes_def socket_nodes_def node_socket_def node_cores_def leader_def)
  moreover have "socket_cnt st' = 2" using st'(2) by (simp add: dual_def)
  ultimately show ?thesis using st'(1,5)
    by (simp add: dual_lines tell_errout log_start_def app_log_def show_int_def show_nat.simps)
qed

text \<open>C14: a configuration file that cannot be read, or whose reading ends with an error,
  does no harm: the topology is the one sysfs describes, whatever the file had put into the
  output parameters before the error. (Only the streams and the log differ: the failed attempt
  may have left the file open and has logged the error.)\<close>

theorem topology_fallback:
  assumes "homogeneous M" and "sysfs_shows parse env M"
    and "topo_config env = Some f" and "malloc_cores env" and "malloc_nodes env"
    and "reeact_get_topo_conf parse env (clear st) = Return r st1" and "r \<noteq> 0"
  shows "reeact_get_topology parse env True st =
    Return 0 (topology_of M (open_files st1 + opened_by_sysfs M - 1) (sysfs_log env M (messages st1)))"
  using sysfs_result [OF assms(1,2,4,5)] assms(3,6,7)
  by (simp add: reeact_get_topology_def)

theorem topology_fallback_witness:
  "reeact_get_topology dual_parse (dual_env (Some ''broken.conf'')) True blank =
     Return 0 (topology_of dual (1 + opened_by_sysfs dual - 1) (sysfs_log (dual_env (Some ''broken.conf'')) dual
       \<lparr>log_pid = 42, errout = ''42 app: reeact_get_topo_conf: Error parsing configure file line: 2 with error 0'' @ nl\<rparr>))"
proof -
  have "conf_lines dual_parse (dual_env (Some ''broken.conf'')) (line ''sockets: 2'') st = Return 2 (st\<lparr>messages :=
      tell (app_log 42) (''reeact_get_topo_conf: Error parsing configure file line: 2 with error 0'' @ nl) (messages st)\<rparr>)" for st
    by (subst conf_lines.simps)
      (simp add: getline_def line_def chomp_def c_string_def conf_line_def skip_to_digit_def
        is_digit_def less_eq_char_def dual_parse_def bad_line_def LOGERR_tell dual_env_def show_int_def
        show_nat.simps)
  then have "reeact_get_topo_conf dual_parse (dual_env (Some ''broken.conf'')) (clear blank) =
      Return 2 (blank\<lparr>open_files := 1, messages := \<lparr>log_pid = 42,
        errout = ''42 app: reeact_get_topo_conf: Error parsing configure file line: 2 with error 0'' @ nl\<rparr>\<rparr>)"
    by (simp add: reeact_get_topo_conf_def OPEN_FILE_def dual_env_def dual_files_def file_names
        clear_def blank_def tell_def emit_def reeact_print_prefix_def app_log_def log_start_def)
  from topology_fallback [OF dual_homogeneous dual_sysfs _ _ _ this] show ?thesis
    by (simp add: dual_env_def)
qed

text \<open>C15: a configuration file is read back. For the file with the lines
  \<open>s:\<close>, \<open>n:\<close> and \<open>c:\<close> of the three counts, the nodes and the cores, the call gives exactly
  these, provided that the list parser reads what the three lists are written as. Every
  stream is closed and nothing is logged.\<close>

theorem topology_conf_roundtrip:
  assumes "\<forall>x\<in>set counts \<union> set ns \<union> set cs. 0 \<le> x" and "length counts = 3" and "0 \<notin> set counts"
    and "ns \<noteq> []" and "cs \<noteq> []"
    and "parse (show_list counts) = (0, Some counts)" and "parse (show_list ns) = (0, Some ns)"
    and "parse (show_list cs) = (0, Some cs)"
    and "topo_config env = Some f" and "files env f = Some (conf_text counts ns cs)"
  shows "reeact_get_topology parse env True st = Return 0 \<lparr>nodes = Some (map Some ns),
    cores = Some (map Some cs), socket_cnt = counts ! 0, node_cnt = counts ! 1, core_cnt = counts ! 2,
    open_files = open_files st, messages = messages st\<rparr>"
  by (rule conf_result [OF assms(1,2,4,5,3,6-10)])

theorem topology_conf_roundtrip_witness:
  "reeact_get_topology dual_parse (dual_env (Some ''good.conf'')) True blank =
     Return 0 \<lparr>nodes = Some [Some 0, Some 1], cores = Some [Some 0, Some 1], socket_cnt = 2,
       node_cnt = 1, core_cnt = 1, open_files = 0, messages = log_start\<rparr>"
proof -
  have "dual_parse (show_list [2, 1, 1]) = (0, Some [2, 1, 1])"
    and "dual_parse (show_list [0, 1]) = (0, Some [0, 1])"
    by (simp_all add: dual_parse_def show_int_def show_nat.simps)
  from topology_conf_roundtrip [of "[2, 1, 1]" "[0, 1]" "[0, 1]" dual_parse "dual_env (Some ''good.conf'')",
      OF _ _ _ _ _ this(1) this(2) this(2), of "''good.conf''" blank]
  show ?thesis by (simp add: dual_env_def dual_files_def file_names blank_def)
qed

text \<open>C16: the arrays fit their counts, on any machine and for any contents of sysfs. After a
  successful call every index that the counts allow is inside the arrays, every entry of
  \<open>nodes\<close> that was written is the number of a node and every such entry of \<open>cores\<close> the number of a
  context.\<close>

theorem topology_well_formed:
  assumes "topo_config env = None" and "malloc_nodes env"
    and "reeact_get_topology parse env True st = Return 0 st'"
  shows "\<exists>ns cs. nodes st' = Some ns \<and> cores st' = Some cs \<and> length ns = online parse env ONLINE_NODE_LIST \<and>
    0 < socket_cnt st' \<and> 0 \<le> node_cnt st' \<and> 0 \<le> core_cnt st' \<and>
    socket_cnt st' * node_cnt st' \<le> int (length ns) \<and> int (length ns) * core_cnt st' \<le> int (length cs) \<and>
    (\<forall>v. Some v \<in> set ns \<longrightarrow> 0 \<le> v \<and> v < int (length ns)) \<and>
    (\<forall>v. Some v \<in> set cs \<longrightarrow> 0 \<le> v \<and> v < int (online parse env ONLINE_CPU_LIST))"
proof -
  have "reeact_get_topo_sysfs parse env (clear st) = Return 0 st'"
    using assms(1,3) by (simp add: reeact_get_topology_def)
  with wp_sysfs [OF assms(2), of parse "clear st"] obtain k
    where ok: "topo_ok (online parse env ONLINE_NODE_LIST) (online parse env ONLINE_CPU_LIST) k st'"
    by (auto simp: wp_def)
  have fits: "b * (a div b) \<le> a" if "0 \<le> a" "0 < b" for a b :: int
    using that by (metis add.commute le_add_same_cancel2 mult_div_mod_eq pos_mod_sign)
  from ok fits [of "int k" "int (online parse env ONLINE_NODE_LIST)"]
    fits [of "int (online parse env ONLINE_NODE_LIST)" "socket_cnt st'"]
  show ?thesis
    by (auto simp: topo_ok_def counts_ok_def array_of_def pos_imp_zdiv_nonneg_iff)
qed

theorem topology_well_formed_witness:
  "\<exists>st' ns cs. reeact_get_topology dual_parse (dual_env None) True blank = Return 0 st' \<and>
     nodes st' = Some ns \<and> length ns = 2 \<and> cores st' = Some cs \<and> 2 * core_cnt st' \<le> int (length cs)"
proof -
  obtain st' where st': "reeact_get_topology dual_parse (dual_env None) True blank = Return 0 st'"
    using sysfs_result [OF dual_homogeneous dual_sysfs [of None], of "clear blank"]
    by (simp add: reeact_get_topology_def dual_env_def)
  have "online dual_parse (dual_env None) ONLINE_NODE_LIST = 2"
    by (simp add: online_def file_list_def dual_env_def dual_files_def dual_parse_def file_names getline_def
        line_def chomp_def c_string_def)
  with topology_well_formed [OF _ _ st'] st' show ?thesis by (auto simp: dual_env_def)
qed

section \<open>Errors\<close>

text \<open>C17: the error codes are those of the header: 1 exactly for a NULL output parameter
  (and then nothing is touched but the log), otherwise 0, 2 or 3.\<close>

theorem topology_return_codes:
  assumes "reeact_get_topology parse env given st = Return r st'"
  shows "(if given then r \<in> {0, 2, 3} else r = 1 \<and>
    st' = st\<lparr>messages := tell (logging env) (''reeact_get_topology: wrong parameter'' @ nl) (messages st)\<rparr>)"
proof (cases given)
  case True
  have sysfs: "reeact_get_topo_sysfs parse env s = Return x s' \<Longrightarrow> x \<in> {0, 2, 3}" for s x s'
    using returns_sysfs unfolding returns_def by blast
  with True assms show ?thesis
    by (auto simp: reeact_get_topology_def split: if_splits outcome.splits)
qed (use assms in \<open>auto simp: reeact_get_topology_def LOGERR_tell\<close>)

theorem topology_return_codes_witness:
  "\<exists>st'. reeact_get_topology dual_parse (dual_env None) False blank = Return 1 st' \<and>
     errout (messages st') = ''42 app: reeact_get_topology: wrong parameter'' @ nl"
proof -
  obtain st' where r: "reeact_get_topology dual_parse (dual_env None) False blank = Return 1 st'"
    by (simp add: reeact_get_topology_def LOGERR_tell)
  from topology_return_codes [OF r] r show ?thesis
    by (auto simp: tell_errout blank_def log_start_def dual_env_def app_log_def show_int_def show_nat.simps)
qed

text \<open>When the first file of sysfs is missing, the call returns 2 and says why; when it is empty,
  the message itself is undefined behaviour.\<close>

theorem node_list_missing:
  assumes "topo_config env = None" and "files env ONLINE_NODE_LIST = None"
    and "0 \<le> fopen_errno env ONLINE_NODE_LIST" and "fopen_errno env ONLINE_NODE_LIST < int (length (error_list (logging env)))"
  shows "\<exists>st'. reeact_get_topology parse env True st = Return 2 st' \<and>
    errout (messages st') = errout (messages (clear st)) @ show_int (if log_pid (messages st) = 0
      then process_id (logging env) else log_pid (messages st)) @ '' '' @ short_name (logging env) @
      '': reeact_get_topo_sysfs: Unable to open file /sys/devices/system/node/online: '' @
      error_list (logging env) ! nat (fopen_errno env ONLINE_NODE_LIST) @
      ''('' @ show_int (fopen_errno env ONLINE_NODE_LIST) @ '')'' @ nl"
  using assms(2-4)
  by (simp add: reeact_get_topology_def assms(1) reeact_get_topo_sysfs_def read_list_def OPEN_FILE_def Let_def
      LOGERRX_tell tell_errout clear_def ONLINE_NODE_LIST_def)

theorem node_list_empty:
  assumes "topo_config env = None" and "files env ONLINE_NODE_LIST = Some []"
  shows "reeact_get_topology parse env True st = Undef"
  using assms
  by (simp add: reeact_get_topology_def reeact_get_topo_sysfs_def read_list_def OPEN_FILE_def
      GET_LINE_MUST_SUCCEED_def getline_def LOGERRX_undefined)

text \<open>C18: streams are left open. After a successful call on sysfs only the last stream is
  closed: two lists of what is online, one list per core, one list per node, and the package
  of every node once for the count and once more per socket have been opened.\<close>

theorem topology_stream_leak:
  assumes "homogeneous M" and "sysfs_shows parse env M"
    and "topo_config env = None" and "malloc_cores env" and "malloc_nodes env"
    and "reeact_get_topology parse env True st = Return r st'"
  shows "open_files st' + 1 = open_files st + 2 + n_nodes M * cores_per_node M + 2 * n_nodes M +
    sockets M * n_nodes M"
  using sysfs_result [OF assms(1,2,4,5), of "clear st"] assms(3,6)
  by (auto simp: reeact_get_topology_def topology_of_def opened_by_sysfs_def clear_def)

theorem topology_stream_leak_witness:
  "\<exists>st'. reeact_get_topology dual_parse (dual_env None) True blank = Return 0 st' \<and> open_files st' = 11"
proof -
  have "reeact_get_topology dual_parse (dual_env None) True blank =
      Return 0 (topology_of dual (opened_by_sysfs dual - 1) (sysfs_log (dual_env None) dual log_start))"
    using sysfs_result [OF dual_homogeneous dual_sysfs [of None], of "clear blank"]
    by (simp add: reeact_get_topology_def dual_env_def clear_def blank_def)
  with topology_stream_leak [OF dual_homogeneous dual_sysfs [of None] _ _ _ this]
  show ?thesis by (auto simp: dual_env_def blank_def dual_def n_nodes_def)
qed

end
