(* ===== verification/Hooks_Props.thy ===== *)
theory Hooks_Props imports Hooks begin

text \<open>
  What interposing does to a program: once the initialization has found all the original
  functions, a program cannot tell the hooks from the original functions; before it, only
  lock and unlock work. The functions for libgomp let it go on with its own barriers.
\<close>

section \<open>Programs that make calls\<close>

text \<open>The values a list of calls gives: by a provider over its state, which may crash, and
  by the original over the world.\<close>

fun provided :: "('c \<Rightarrow> 's \<Rightarrow> (int \<times> 's) option) \<Rightarrow> 'c list \<Rightarrow> 's \<Rightarrow> (int list \<times> 's) option" where
  "provided call [] s = Some ([], s)"
| "provided call (c # cs) s = (case call c s of None \<Rightarrow> None
     | Some (r, s') \<Rightarrow> (case provided call cs s' of None \<Rightarrow> None | Some (rs, q) \<Rightarrow> Some (r # rs, q)))"

fun answered :: "('c \<Rightarrow> 'w \<Rightarrow> int \<times> 'w) \<Rightarrow> 'c list \<Rightarrow> 'w \<Rightarrow> int list \<times> 'w" where
  "answered original [] w = ([], w)"
| "answered original (c # cs) w = (case original c w of (r, w') \<Rightarrow>
     (case answered original cs w' of (rs, v) \<Rightarrow> (r # rs, v)))"

text \<open>
  A provider that answers one call of a ready state as the original does, and stays ready,
  answers every program as the original does.
\<close>

locale passes_through =
  fixes call :: "'c \<Rightarrow> 's \<Rightarrow> (int \<times> 's) option"
    and original :: "'c \<Rightarrow> 'w \<Rightarrow> int \<times> 'w"
    and inner :: "'s \<Rightarrow> 'w"
    and ready :: "'s \<Rightarrow> bool"
  assumes call_through: "ready s \<Longrightarrow> original c (inner s) = (r, w) \<Longrightarrow>
    \<exists>s'. call c s = Some (r, s') \<and> inner s' = w \<and> ready s'"
begin

lemma program_through:
  "ready s \<Longrightarrow> answered original cs (inner s) = (rs, w) \<Longrightarrow>
   \<exists>s'. provided call cs s = Some (rs, s') \<and> inner s' = w \<and> ready s'"
proof (induction cs arbitrary: s rs)
  case (Cons c cs)
  obtain r v where o1: "original c (inner s) = (r, v)" by fastforce
  obtain qs u where o2: "answered original cs v = (qs, u)" by fastforce
  from call_through [OF Cons.prems(1) o1] obtain s1
    where s1: "call c s = Some (r, s1)" "inner s1 = v" "ready s1" by blast
  with Cons.IH [OF s1(3), of qs] Cons.prems(2) o1 o2 show ?case by auto
qed simp

end

section \<open>The hooks pass through\<close>

definition hook_step :: "'w os \<Rightarrow> hook_call \<Rightarrow> 'w process \<Rightarrow> (int \<times> 'w process) option" where
  "hook_step os c p = (case through_hook os c p of Returned r q \<Rightarrow> Some (r, q) | _ \<Rightarrow> None)"

definition direct_step :: "'w os \<Rightarrow> hook_call \<Rightarrow> 'w \<Rightarrow> int \<times> 'w" where
  "direct_step os c w = (case resolve os (symbol c) of None \<Rightarrow> (0, w)
     | Some a \<Rightarrow> run os a (passed c) w)"

definition loaded :: "'w os \<Rightarrow> 'w process \<Rightarrow> bool" where
  "loaded os p \<longleftrightarrow> default_policy os \<and> (\<forall>c. pointer p c = resolve os (symbol c) \<and> resolve os (symbol c) \<noteq> None)"

lemma symbol_hooked: "symbol c \<in> set hooked_symbols"
  by (cases c) (simp_all add: hooked_symbols_def)

lemma pointer_world [simp]:
  "pointer (p\<lparr>world := w\<rparr>) c = pointer p c" "pointer (p\<lparr>stderr := l\<rparr>) c = pointer p c"
  by (cases c; simp)+

text \<open>The debug build logs the calls of \<open>pthread_create\<close>.\<close>

definition hook_log :: "'w os \<Rightarrow> hook_call \<Rightarrow> log_state \<Rightarrow> log_state" where
  "hook_log os c l = (if symbol c = ''pthread_create'' \<and> debug (logger os)
     then tell (logger os) (''pthread_create: pthread_create called'' @ nl) l else l)"

lemma logged_DPRINTF:
  "formatted fmt args = Some t \<Longrightarrow> logged (DPRINTF env f fmt args) k p =
    k (p\<lparr>stderr := if debug env then tell env (f @ '': '' @ t) (stderr p) else stderr p\<rparr>)"
  by (simp add: logged_def DPRINTF_tell)

text \<open>With its pointer set, a hook is a call of the original function.\<close>

lemmas hook_defs =
  pthread_create_def reeact_policy_pthread_create_def pthread_barrier_init_def
  reeact_policy_pthread_barrier_init_def pthread_barrier_wait_def
  reeact_policy_pthread_barrier_wait_def pthread_barrier_destroy_def
  reeact_policy_pthread_barrier_destroy_def pthread_mutex_init_def
  reeact_policy_pthread_mutex_init_def pthread_mutex_lock_def
  reeact_policy_pthread_mutex_lock_def pthread_mutex_trylock_def
  reeact_policy_pthread_mutex_trylock_def pthread_mutex_timedlock_def
  reeact_policy_pthread_mutex_timedlock_def pthread_mutex_unlock_def
  reeact_policy_pthread_mutex_unlock_def pthread_mutex_consistent_def
  reeact_policy_pthread_mutex_consistent_def pthread_mutex_destroy_def
  reeact_policy_pthread_mutex_destroy_def pthread_cond_init_def
  reeact_policy_pthread_cond_init_def pthread_cond_signal_def
  reeact_policy_pthread_cond_signal_def pthread_cond_broadcast_def
  reeact_policy_pthread_cond_broadcast_def pthread_cond_destroy_def
  reeact_policy_pthread_cond_destroy_def pthread_cond_wait_def
  reeact_policy_pthread_cond_wait_def pthread_cond_timedwait_def
  reeact_policy_pthread_cond_timedwait_def

lemma through_pointer:
  "default_policy os \<Longrightarrow> pointer p c = Some a \<Longrightarrow>
   through_hook os c p = call_real os (Some a) (passed c) (p\<lparr>stderr := hook_log os c (stderr p)\<rparr>)"
  by (cases c) (simp_all add: hook_defs hook_log_def logged_DPRINTF)

lemma hook_through:
  assumes "loaded os p" and "direct_step os c (world p) = (r, w)"
  shows "\<exists>q. hook_step os c p = Some (r, q) \<and> world q = w \<and> loaded os q"
proof -
  from assms(1) obtain a where a: "resolve os (symbol c) = Some a" "pointer p c = Some a" "default_policy os"
    by (auto simp: loaded_def)
  with assms(2) have "run os a (passed c) (world p) = (r, w)" by (simp add: direct_step_def)
  with a have "hook_step os c p = Some (r, p\<lparr>stderr := hook_log os c (stderr p), world := w\<rparr>)"
    by (simp add: hook_step_def through_pointer call_real_def)
  with assms(1) show ?thesis by (simp add: loaded_def)
qed

interpretation hooks: passes_through "hook_step os" "direct_step os" world "loaded os"
  for os :: "'w os"
  by unfold_locales (rule hook_through)

text \<open>One look-up, seen through the fields of the process.\<close>

lemma load_keeps:
  "(\<And>f q. get (assign f q) = get q) \<Longrightarrow> (\<And>q e. get (q\<lparr>dl_error := e\<rparr>) = get q) \<Longrightarrow>
   get (load_original os n assign p) = get p"
  by (simp add: load_original_def dlsym_def)

lemma load_sets:
  "(\<And>f q. get (assign f q) = f) \<Longrightarrow> get (load_original os n assign p) = resolve os n"
  by (simp add: load_original_def dlsym_def)

lemma load_error:
  "(\<And>f q. dl_error (assign f q) = dl_error q) \<Longrightarrow>
   dl_error (load_original os n assign p) = (if resolve os n = None then Some (dl_text os n) else dl_error p)"
  by (simp add: load_original_def dlsym_def)

lemmas load_facts = load_error
  load_keeps [where get = real_pthread_create]
  load_keeps [where get = real_pthread_barrier_init]
  load_keeps [where get = real_pthread_barrier_wait]
  load_keeps [where get = real_pthread_barrier_destroy]
  load_keeps [where get = real_pthread_mutex_init]
  load_keeps [where get = real_pthread_mutex_lock]
  load_keeps [where get = real_pthread_mutex_trylock]
  load_keeps [where get = real_pthread_mutex_timedlock]
  load_keeps [where get = real_pthread_mutex_unlock]
  load_keeps [where get = real_pthread_mutex_consistent]
  load_keeps [where get = real_pthread_mutex_destroy]
  load_keeps [where get = real_pthread_cond_init]
  load_keeps [where get = real_pthread_cond_signal]
  load_keeps [where get = real_pthread_cond_broadcast]
  load_keeps [where get = real_pthread_cond_destroy]
  load_keeps [where get = real_pthread_cond_wait]
  load_keeps [where get = real_pthread_cond_timedwait]
  load_keeps [where get = world]
  load_keeps [where get = stderr]
  load_sets [where get = real_pthread_create]
  load_sets [where get = real_pthread_barrier_init]
  load_sets [where get = real_pthread_barrier_wait]
  load_sets [where get = real_pthread_barrier_destroy]
  load_sets [where get = real_pthread_mutex_init]
  load_sets [where get = real_pthread_mutex_lock]
  load_sets [where get = real_pthread_mutex_trylock]
  load_sets [where get = real_pthread_mutex_timedlock]
  load_sets [where get = real_pthread_mutex_unlock]
  load_sets [where get = real_pthread_mutex_consistent]
  load_sets [where get = real_pthread_mutex_destroy]
  load_sets [where get = real_pthread_cond_init]
  load_sets [where get = real_pthread_cond_signal]
  load_sets [where get = real_pthread_cond_broadcast]
  load_sets [where get = real_pthread_cond_destroy]
  load_sets [where get = real_pthread_cond_wait]
  load_sets [where get = real_pthread_cond_timedwait]

text \<open>What the initialization leaves behind. The message names the last symbol that is missing.\<close>

definition last_missing :: "'w os \<Rightarrow> string option" where
  "last_missing os = find (\<lambda>n. resolve os n = None) (rev hooked_symbols)"

lemma none_resolved: "last_missing os = None \<longleftrightarrow> None \<notin> resolve os ` set hooked_symbols"
proof -
  have "last_missing os = None \<longleftrightarrow> (\<forall>n\<in>set hooked_symbols. resolve os n \<noteq> None)"
    by (auto simp: last_missing_def find_None_iff)
  then show ?thesis by (metis imageE image_eqI)
qed

definition init_log :: "'w os \<Rightarrow> log_state \<Rightarrow> log_state" where
  "init_log os l = (case last_missing os of None \<Rightarrow> l
     | Some n \<Rightarrow> tell (logger os) (''reeact_pthread_hooks_init: Error opening original pthread functions with error :'' @
         dl_text os n @ nl) l)"

lemma logged_LOGERR:
  "formatted fmt args = Some t \<Longrightarrow> logged (LOGERR env f fmt args) k p =
    k (p\<lparr>stderr := tell env (f @ '': '' @ t) (stderr p)\<rparr>)"
  by (simp add: logged_def LOGERR_tell)

lemma load_originals_result:
  "pointer (load_originals os p) c = resolve os (symbol c)"
  "world (load_originals os p) = world p" "stderr (load_originals os p) = stderr p"
proof -
  show "pointer (load_originals os p) c = resolve os (symbol c)"
    by (cases c) (simp_all add: load_originals_def Let_def load_facts)
qed (simp_all add: load_originals_def Let_def load_facts)

lemma load_originals_error:
  "dl_error (load_originals os p) = (case last_missing os of None \<Rightarrow> dl_error p | Some n \<Rightarrow> Some (dl_text os n))"
proof -
  have "dl_error (load_originals os p) =
      foldl (\<lambda>e n. if resolve os n = None then Some (dl_text os n) else e) (dl_error p) hooked_symbols"
    by (simp add: load_originals_def Let_def load_facts hooked_symbols_def cong: if_cong split del: if_split)
  also have "foldl (\<lambda>e n. if resolve os n = None then Some (dl_text os n) else e) e ns =
      (case find (\<lambda>n. resolve os n = None) (rev ns) of None \<Rightarrow> e | Some n \<Rightarrow> Some (dl_text os n))" for e ns
    by (induction ns rule: rev_induct) auto
  finally show ?thesis by (simp add: last_missing_def)
qed

lemma pointer_dl_error [simp]: "pointer (p\<lparr>dl_error := e\<rparr>) c = pointer p c"
  by (cases c) simp_all

lemma hooks_init_result:
  obtains q where "reeact_pthread_hooks_init os p = Returned (if last_missing os = None then 0 else 1) q"
    and "\<And>c. pointer q c = resolve os (symbol c)" and "world q = world p" and "stderr q = init_log os (stderr p)"
proof -
  let ?q = "(load_originals os (p\<lparr>dl_error := None\<rparr>))\<lparr>dl_error := None, stderr := init_log os (stderr p)\<rparr>"
  have "reeact_pthread_hooks_init os p = Returned (if last_missing os = None then 0 else 1) ?q"
    by (simp add: reeact_pthread_hooks_init_def Let_def dlerror_def load_originals_error load_originals_result
        logged_LOGERR init_log_def REEACT_PTHREAD_HOOKS_ERR_LOAD_ORIGINAL_FUNCTION_def split: option.splits)
  then show thesis by (rule that) (simp_all add: load_originals_result)
qed

lemma hooks_init_loaded:
  assumes "reeact_pthread_hooks_init os p = Returned 0 q" and "default_policy os"
  shows "loaded os q" and "world q = world p"
proof -
  obtain q' where q': "reeact_pthread_hooks_init os p = Returned (if last_missing os = None then 0 else 1) q'"
    and "\<And>c. pointer q' c = resolve os (symbol c)" "world q' = world p"
    using hooks_init_result [of os p] by blast
  moreover have "last_missing os = None" using q' assms(1) by (simp split: if_splits)
  then have "resolve os (symbol c) \<noteq> None" for c using symbol_hooked [of c] by (metis none_resolved imageI)
  ultimately show "loaded os q" "world q = world p" using assms by (simp_all add: loaded_def)
qed

section \<open>Claims\<close>

text \<open>C19: the hooks are transparent. Built with the default policy and after an initialization
  that returned 0, every list of calls through the 17 hooks gives the values that calling the
  original functions directly gives, in the same order and with the same arguments, and
  leaves the same world; no call crashes.\<close>

theorem hooks_transparent:
  assumes "default_policy os" and "reeact_pthread_hooks_init os p = Returned 0 q"
    and "answered (direct_step os) cs (world p) = (rs, w)"
  shows "\<exists>q'. provided (hook_step os) cs q = Some (rs, q') \<and> world q' = w"
  using hooks.program_through [OF hooks_init_loaded(1) [OF assms(2,1)]] hooks_init_loaded(2) [OF assms(2,1)] assms(3)
  by simp blast

text \<open>An example: every symbol resolves to its length, and a call returns the number of its
  arguments and is written down.\<close>

definition demo_os :: "(addr \<times> arg list) list os" where
  "demo_os = \<lparr>resolve = (\<lambda>n. Some (length n)), dl_text = id, run = (\<lambda>a xs w. (int (length xs), w @ [(a, xs)])),
     logger = app_log 42, default_policy = True\<rparr>"

definition zero_process :: "'w \<Rightarrow> 'w process" where
  "zero_process w = \<lparr>
     real_pthread_create = None, real_pthread_barrier_init = None, real_pthread_barrier_wait =
     None, real_pthread_barrier_destroy = None, real_pthread_mutex_init = None,
     real_pthread_mutex_lock = None, real_pthread_mutex_trylock = None,
     real_pthread_mutex_timedlock = None, real_pthread_mutex_unlock = None,
     real_pthread_mutex_consistent = None, real_pthread_mutex_destroy = None,
     real_pthread_cond_init = None, real_pthread_cond_signal = None,
     real_pthread_cond_broadcast = None, real_pthread_cond_destroy = None,
     real_pthread_cond_wait = None, real_pthread_cond_timedwait = None,
     dl_error = None, stderr = log_start, world = w\<rparr>"

lemma demo_linker: "None \<notin> resolve demo_os ` set hooked_symbols"
  by (auto simp: demo_os_def)

lemma demo_policy: "default_policy demo_os"
  by (simp add: demo_os_def)

theorem hooks_transparent_witness:
  "\<exists>q q'. reeact_pthread_hooks_init demo_os (zero_process []) = Returned 0 q \<and>
     provided (hook_step demo_os) [Call_mutex_init 7 0, Call_cond_wait 9 7, Call_mutex_destroy 7] q =
       Some ([2, 2, 1], q') \<and>
     world q' = [(18, [7, 0]), (17, [9, 7]), (21, [7])]"
proof -
  let ?cs = "[Call_mutex_init 7 0, Call_cond_wait 9 7, Call_mutex_destroy 7]"
  have "last_missing demo_os = None" by (rule none_resolved [THEN iffD2, OF demo_linker])
  then obtain q where q: "reeact_pthread_hooks_init demo_os (zero_process []) = Returned 0 q"
    using hooks_init_result [of demo_os "zero_process []"] by auto
  have a: "answered (direct_step demo_os) ?cs (world (zero_process [])) =
      ([2, 2, 1], [(18, [7, 0]), (17, [9, 7]), (21, [7])])"
    by (simp add: direct_step_def demo_os_def zero_process_def)
  from hooks_transparent [OF demo_policy q a] q show ?thesis by blast
qed

text \<open>C20: the initialization reports exactly whether it found everything. It returns 0 if
  all 17 symbols resolve and REEACT_PTHREAD_HOOKS_ERR_LOAD_ORIGINAL_FUNCTION otherwise, even
  if only the first look-up failed and all later ones succeeded; then it logs one line, with
  what the dynamic linker says of the last missing symbol. In both cases every pointer is
  what its own symbol resolved to, and the world has not changed.\<close>

theorem hooks_init_complete:
  "\<exists>q. reeact_pthread_hooks_init os p =
     Returned (if None \<in> resolve os ` set hooked_symbols
       then REEACT_PTHREAD_HOOKS_ERR_LOAD_ORIGINAL_FUNCTION else 0) q \<and>
   (\<forall>c. pointer q c = resolve os (symbol c)) \<and> world q = world p \<and>
   stderr q = (case find (\<lambda>n. resolve os n = None) (rev hooked_symbols) of None \<Rightarrow> stderr p
     | Some n \<Rightarrow> tell (logger os) (''reeact_pthread_hooks_init: Error opening original pthread functions with error :'' @
         dl_text os n @ nl) (stderr p))"
proof -
  have "None \<in> resolve os ` set hooked_symbols \<longleftrightarrow> last_missing os \<noteq> None" by (simp only: none_resolved not_not)
  then show ?thesis
    using hooks_init_result [of os p]
    by (metis REEACT_PTHREAD_HOOKS_ERR_LOAD_ORIGINAL_FUNCTION_def init_log_def last_missing_def)
qed

text \<open>Before the initialization (other libraries' constructors may run first) the hooks
  of lock and unlock already work, as they look the original function up themselves; every
  other hook calls through a NULL pointer.\<close>

theorem hooks_before_init:
  assumes "default_policy os" and "\<forall>c. pointer p c = None" and "None \<notin> resolve os ` set hooked_symbols"
  shows "(if symbol c \<in> {''pthread_mutex_lock'', ''pthread_mutex_unlock''}
    then map_option (\<lambda>(r, q). (r, world q)) (hook_step os c p) = Some (direct_step os c (world p))
    else hook_step os c p = None)"
proof -
  have null: "pointer p c = None" by (rule assms(2) [rule_format])
  have "resolve os (symbol c) \<noteq> None" using assms(3) symbol_hooked [of c] by (metis imageI)
  with null assms(1) show ?thesis
    by (cases c) (auto simp: hook_step_def direct_step_def call_real_def dlsym_def Let_def hook_defs logged_DPRINTF
      split: prod.splits)
qed

theorem hooks_before_init_witness:
  "hook_step demo_os (Call_barrier_wait 3) (zero_process []) = None \<and>
   map_option (\<lambda>(r, q). (r, world q)) (hook_step demo_os (Call_mutex_lock 7) (zero_process [])) =
     Some (1, [(18, [7])])"
proof -
  have z: "\<forall>c. pointer (zero_process []) c = None"
  proof
    show "pointer (zero_process []) c = None" for c by (cases c) (simp_all add: zero_process_def)
  qed
  have "direct_step demo_os (Call_mutex_lock 7) (world (zero_process [])) = (1, [(18, [7])])"
    by (simp add: direct_step_def demo_os_def zero_process_def)
  with hooks_before_init [OF demo_policy z demo_linker, of "Call_barrier_wait 3"] hooks_before_init [OF demo_policy z demo_linker, of "Call_mutex_lock 7"]
  show ?thesis by simp
qed

section \<open>OpenMP programs\<close>

text \<open>The answer of each function for libgomp, in both builds.\<close>

definition gomp_log :: "'w os \<Rightarrow> gomp_call \<Rightarrow> log_state \<Rightarrow> log_state" where
  "gomp_log os c l = (if debug (logger os)
     then tell (logger os) (gomp_name c @ '': '' @ gomp_name c @ '' called with '' @ gomp_args c @ nl) l else l)"

lemma gomp_answer:
  "through_gomp os c p =
     (if default_policy os then Returned 1 (p\<lparr>stderr := gomp_log os c (stderr p)\<rparr>)
      else if gomp_name c \<in> {''reeact_gomp_team_barrier_done'', ''reeact_gomp_team_barrier_waiting_for_tasks'', ''reeact_gomp_barrier_last_thread'', ''reeact_gomp_barrier_wait_start''} then Returned 0 p
      else NoValue p)"
  by (cases c)
    (simp_all add: logged_DPRINTF Let_def gomp_log_def
    reeact_gomp_barrier_init_def reeact_gomp_barrier_reinit_def reeact_gomp_barrier_destroy_def
    reeact_gomp_barrier_wait_def reeact_gomp_barrier_wait_last_def
    reeact_gomp_barrier_wait_end_def reeact_gomp_team_barrier_wait_def
    reeact_gomp_team_barrier_wait_end_def reeact_gomp_team_barrier_wake_def
    reeact_gomp_team_barrier_set_task_pending_def
    reeact_gomp_team_barrier_clear_task_pending_def
    reeact_gomp_team_barrier_set_waiting_for_tasks_def reeact_gomp_team_barrier_done_def
    reeact_gomp_team_barrier_waiting_for_tasks_def reeact_gomp_barrier_last_thread_def
    reeact_gomp_barrier_wait_start_def)

text \<open>
  The head of src/hooks/gomp_hooks/gomp_barrier.c says what libgomp is changed to: each of its
  functions first calls the one of REEact; if that returns 0 it stops, otherwise it goes on
  to its own code. That code and the value of a function that stops are parameters.
\<close>

record 'w libgomp =
  own_code :: "gomp_call \<Rightarrow> 'w \<Rightarrow> int \<times> 'w"
  stop_value :: "gomp_call \<Rightarrow> int"

type_synonym omp_call = "hook_call + gomp_call"

fun omp_step :: "'w os \<Rightarrow> 'w libgomp \<Rightarrow> omp_call \<Rightarrow> 'w process \<Rightarrow> (int \<times> 'w process) option" where
  "omp_step os g (Inl c) p = hook_step os c p"
| "omp_step os g (Inr c) p = (case through_gomp os c p of
     Returned r q \<Rightarrow> if r = 0 then Some (stop_value g c, q)
       else (case own_code g c (world q) of (v, w) \<Rightarrow> Some (v, q\<lparr>world := w\<rparr>))
   | _ \<Rightarrow> None)"

text \<open>The same program without REEact, and what REEact writes beside it.\<close>

fun omp_plain :: "'w os \<Rightarrow> 'w libgomp \<Rightarrow> omp_call \<Rightarrow> 'w \<Rightarrow> int \<times> 'w" where
  "omp_plain os g (Inl c) w = direct_step os c w"
| "omp_plain os g (Inr c) w = own_code g c w"

fun omp_log :: "'w os \<Rightarrow> omp_call \<Rightarrow> log_state \<Rightarrow> log_state" where
  "omp_log os (Inl c) l = hook_log os c l"
| "omp_log os (Inr c) l = gomp_log os c l"

definition omp_watched :: "'w os \<Rightarrow> 'w libgomp \<Rightarrow> omp_call \<Rightarrow> 'w \<times> log_state \<Rightarrow> int \<times> 'w \<times> log_state" where
  "omp_watched os g c x = (case omp_plain os g c (fst x) of (r, w) \<Rightarrow> (r, w, omp_log os c (snd x)))"

lemma omp_watched_program:
  "answered (omp_plain os g) cs w = (rs, v) \<Longrightarrow>
   answered (omp_watched os g) cs (w, l) = (rs, v, fold (omp_log os) cs l)"
  by (induction cs arbitrary: w l rs) (auto simp: omp_watched_def split: prod.splits)

lemma omp_through:
  assumes "loaded os p" and "omp_watched os g c (world p, stderr p) = (r, x)"
  shows "\<exists>q. omp_step os g c p = Some (r, q) \<and> (world q, stderr q) = x \<and> loaded os q"
proof (cases c)
  case (Inl h)
  from assms(1) obtain a where a: "resolve os (symbol h) = Some a" "pointer p h = Some a" "default_policy os"
    by (auto simp: loaded_def)
  obtain v w where r: "run os a (passed h) (world p) = (v, w)" by fastforce
  with a have "hook_step os h p = Some (v, p\<lparr>stderr := hook_log os h (stderr p), world := w\<rparr>)"
    by (simp add: hook_step_def through_pointer call_real_def)
  with Inl assms a r show ?thesis by (auto simp: omp_watched_def direct_step_def loaded_def)
next
  case (Inr h)
  with assms show ?thesis by (auto simp: omp_watched_def gomp_answer loaded_def split: prod.splits)
qed

interpretation openmp: passes_through "omp_step os g" "omp_watched os g" "\<lambda>p. (world p, stderr p)" "loaded os"
  for os :: "'w os" and g :: "'w libgomp"
  by unfold_locales (rule omp_through)

text \<open>C21: an OpenMP program under REEact keeps the barriers of libgomp. Take any program of calls
  to the pthread functions and to the 16 functions of a libgomp that asks REEact first. Built
  with the default policy and after an initialization that returned 0, the program gets the
  values and leaves the world that the original pthread functions and libgomp's own code give
  it, and the log gets, in the order of the calls, one line with name and arguments for each
  call of libgomp and one for each thread created in the debug build, and nothing in the
  release build.\<close>

theorem openmp_transparent:
  assumes "default_policy os" and "reeact_pthread_hooks_init os p = Returned 0 q"
    and "answered (omp_plain os g) cs (world p) = (rs, w)"
  shows "\<exists>q'. provided (omp_step os g) cs q = Some (rs, q') \<and> world q' = w \<and>
    stderr q' = fold (omp_log os) cs (stderr p)"
proof -
  have "stderr q = stderr p"
    by (rule hooks_init_result [of os p]) (use assms(2) in \<open>auto simp: init_log_def split: if_splits\<close>)
  with openmp.program_through [OF hooks_init_loaded(1) [OF assms(2,1)] , of g cs rs "(w, fold (omp_log os) cs (stderr p))"]
    hooks_init_loaded(2) [OF assms(2,1)] omp_watched_program [OF assms(3)] show ?thesis by simp blast
qed

text \<open>A libgomp that writes its own calls down as number 0, in the debug build.\<close>

definition demo_gomp :: "(addr \<times> arg list) list libgomp" where
  "demo_gomp = \<lparr>own_code = (\<lambda>c w. (0, w @ [(0, [])])), stop_value = (\<lambda>c. 0)\<rparr>"

theorem openmp_transparent_witness:
  "\<exists>q q'. reeact_pthread_hooks_init demo_os (zero_process []) = Returned 0 q \<and>
     provided (omp_step demo_os demo_gomp) [Inl (Call_mutex_lock 7), Inr (Gomp_barrier_wait 9), Inl (Call_mutex_unlock 7)] q =
       Some ([1, 0, 1], q') \<and>
     world q' = [(18, [7]), (0, []), (20, [7])] \<and>
     stderr q' = gomp_log demo_os (Gomp_barrier_wait 9) log_start"
proof -
  let ?cs = "[Inl (Call_mutex_lock 7), Inr (Gomp_barrier_wait 9), Inl (Call_mutex_unlock 7)]"
  have "last_missing demo_os = None" by (rule none_resolved [THEN iffD2, OF demo_linker])
  then obtain q where q: "reeact_pthread_hooks_init demo_os (zero_process []) = Returned 0 q"
    using hooks_init_result [of demo_os "zero_process []"] by auto
  have a: "answered (omp_plain demo_os demo_gomp) ?cs (world (zero_process [])) = ([1, 0, 1], [(18, [7]), (0, []), (20, [7])])"
    by (simp add: direct_step_def demo_os_def zero_process_def demo_gomp_def)
  have "fold (omp_log demo_os) ?cs (stderr (zero_process [])) = gomp_log demo_os (Gomp_barrier_wait 9) log_start"
    by (simp add: hook_log_def zero_process_def)
  with openmp_transparent [OF demo_policy q a] q show ?thesis by auto
qed

end
