(* ===== verification/Core_Props.thy ===== *)
theory Core_Props imports Core_Print Topology_Props Hooks_Props begin

text \<open>
  The constructor and the log functions: what a program finds after \<open>reeact_init\<close>, on a
  machine that sysfs describes, with a broken dynamic linker or no memory, and with a
  configuration file whose lists are too short; and what the log then says.
\<close>

section \<open>The constructor\<close>

lemma sys_of_simps [simp]:
  "files (sys_of env) = files (system env)" "topo_config (sys_of env) = topo_config (system env)"
  "malloc_cores (sys_of env) = malloc_cores (system env)" "malloc_nodes (sys_of env) = malloc_nodes (system env)"
  "logging (sys_of env) = log_of env"
  by (simp_all add: sys_of_def)

lemma sys_of_shows [simp]: "sysfs_shows parse (sys_of env) M = sysfs_shows parse (system env) M"
  by (simp add: sysfs_shows_def shows_list_def)

text \<open>The topology is read into the zeroed data of the process.\<close>

definition boot_topo :: "nat \<Rightarrow> log_state \<Rightarrow> topo" where
  "boot_topo n l = processor_topo.extend (topology zero_data) (topo.fields n l)"

lemma boot_topo_simps [simp]: "open_files (boot_topo n l) = n" "messages (boot_topo n l) = l"
  by (simp_all add: boot_topo_def processor_topo.defs topo.defs zero_data_def)

definition boot_line :: "'w reeact_env \<Rightarrow> log_state \<Rightarrow> log_state" where
  "boot_line env l = (if debug (log_of env) then tell (log_of env) (''reeact_init: reeact initialization'' @ nl) l else l)"

lemma boot_DPRINTF:
  "DPRINTF (log_of env) ''reeact_init'' (''reeact initialization'' @ nl) [] l = Some (boot_line env l)"
  by (simp add: DPRINTF_tell boot_line_def)

lemma report_simps:
  "report env func what 0 l = Some l"
  "report env func what 1 l = LOGERR (log_of env) func (what @ '' with error %d'' @ nl) [Dec 1] l"
  by (simp_all add: report_def)

text \<open>The constructor once the topology has been read and printed.\<close>

lemma init_after_topology:
  assumes "calloc_ok env"
    and "reeact_get_topology (list_parser env) (sys_of env) True
      (boot_topo (streams s) (boot_line env (stderr (process s)))) = Return ret t"
    and "reeact_log_topology (log_of env) t = Go () t'"
  obtains s' d q l where "reeact_init env s = Some s'" and "reeact_handle s' = Some d"
    and "pid d = process_id (log_of env)" and "proc_name_short d = Some (short_name (log_of env))"
    and "topology d = processor_topo.truncate t'" and "streams s' = open_files t'" and "freed s' = freed s"
    and "process s' = q\<lparr>stderr := l\<rparr>" and "\<forall>c. pointer q c = resolve (linker env) (symbol c)"
    and "world q = world (process s)" and "last_missing (linker env) = None \<longrightarrow> l = messages t'"
proof -
  obtain q where q: "reeact_pthread_hooks_init (linker env) ((process s)\<lparr>stderr := messages t'\<rparr>) =
      Returned (if last_missing (linker env) = None then 0 else 1) q"
    and ptr: "\<And>c. pointer q c = resolve (linker env) (symbol c)" and w: "world q = world (process s)"
    and l: "stderr q = init_log (linker env) (messages t')"
    using hooks_init_result [of "linker env" "(process s)\<lparr>stderr := messages t'\<rparr>"] by auto
  let ?d = "zero_data\<lparr>pid := process_id (log_of env), proc_name_short := Some (short_name (log_of env)),
      proc_name_long := Some (invocation_name env), topology := processor_topo.truncate t'\<rparr>"
  let ?l = "if last_missing (linker env) = None then stderr q
    else tell (log_of env) (''reeact_init: Error initializing pthread hooks with error 1'' @ nl) (stderr q)"
  let ?s = "s\<lparr>reeact_handle := Some ?d, process := q\<lparr>stderr := ?l\<rparr>, streams := open_files t'\<rparr>"
  have rep: "report env ''reeact_init'' ''Error initializing pthread hooks'' (if last_missing (linker env) = None then 0 else 1)
      (stderr q) = Some ?l"
    by (simp add: report_simps LOGERR_tell show_int_def show_nat.simps)
  have pol: "reeact_policy_init flag ?d = (0, ?d)" for flag by (simp add: reeact_policy_init_def zero_data_def)
  have "reeact_init env s = Some ?s"
    unfolding reeact_init_def boot_DPRINTF
    by (simp add: assms q pol rep report_simps reeact_per_proc_init_def boot_topo_def [symmetric] reeact_gomp_hooks_init_def
        split del: if_split)
  from that [OF this] ptr w l show thesis by (simp add: zero_data_def init_log_def)
qed

text \<open>The destructor frees the data of the process; run a second time it would free it again.\<close>

definition cleanup_line :: "'w reeact_env \<Rightarrow> log_state \<Rightarrow> log_state" where
  "cleanup_line env l = (if debug (log_of env) then tell (log_of env) (''reeact_cleanup: reeact cleanup'' @ nl) l else l)"

lemma cleanup_result:
  "reeact_cleanup env s = (if reeact_handle s \<noteq> None \<and> freed s then None
     else Some (s\<lparr>process := (process s)\<lparr>stderr := cleanup_line env (stderr (process s))\<rparr>,
       freed := freed s \<or> reeact_handle s \<noteq> None\<rparr>))"
  by (simp add: reeact_cleanup_def DPRINTF_tell report_def reeact_policy_cleanup_def reeact_pthread_hooks_cleanup_def
      cleanup_line_def Let_def)

lemma cleanup_twice: "reeact_handle s \<noteq> None \<Longrightarrow> Option.bind (reeact_cleanup env s) (reeact_cleanup env) = None"
  by (auto simp: cleanup_result split: if_splits)

section \<open>Claims\<close>

text \<open>C22: the constructor on a homogeneous machine that sysfs describes and the list parser reads,
  with no configuration file named in the environment, when the allocations of memory succeed
  and all 17 symbols resolve: no step fails, the handle holds the process and the machine's topology, and every pointer
  to an original function is what its symbol resolves to. The release build logs nothing;
  the debug build logs its start, what it finds in sysfs, and every socket with its nodes and
  their cores.\<close>

theorem init_machine:
  assumes "homogeneous M" and "sysfs_shows (list_parser env) (system env) M"
    and "topo_config (system env) = None" and "malloc_cores (system env)" and "malloc_nodes (system env)"
    and "calloc_ok env" and "None \<notin> resolve (linker env) ` set hooked_symbols"
  shows "\<exists>s' d. reeact_init env s = Some s' \<and> reeact_handle s' = Some d \<and>
    pid d = process_id (log_of env) \<and> proc_name_short d = Some (short_name (log_of env)) \<and>
    topology d = processor_topo.truncate (topology_of M (streams s') (stderr (process s'))) \<and>
    streams s' = streams s + opened_by_sysfs M - 1 \<and>
    stderr (process s') = (if debug (log_of env)
      then fold (tell (log_of env)) ([''reeact_init: reeact initialization'' @ nl] @
        map (\<lambda>t. ''reeact_get_topo_sysfs: '' @ t) (sysfs_lines M) @ [''reeact_log_topology: '' @ machine_text M])
        (stderr (process s))
      else stderr (process s)) \<and>
    pointer (process s') c = resolve (linker env) (symbol c)"
proof -
  let ?l = "boot_line env (stderr (process s))" and ?f = "streams s + opened_by_sysfs M - 1"
  let ?l' = "topology_log (log_of env) M (sysfs_log (sys_of env) M ?l)"
  have t: "reeact_get_topology (list_parser env) (sys_of env) True (boot_topo (streams s) ?l) =
      Return 0 (topology_of M ?f (sysfs_log (sys_of env) M ?l))"
    using sysfs_result [OF assms(1), of "list_parser env" "sys_of env"] assms(2-5)
    by (simp add: reeact_get_topology_def clear_def)
  have "last_missing (linker env) = None" by (rule none_resolved [THEN iffD2, OF assms(7)])
  moreover obtain s' d q l where s': "reeact_init env s = Some s'" "reeact_handle s' = Some d"
    "pid d = process_id (log_of env)" "proc_name_short d = Some (short_name (log_of env))"
    "topology d = processor_topo.truncate (topology_of M ?f ?l')" "streams s' = open_files (topology_of M ?f ?l')"
    "process s' = q\<lparr>stderr := l\<rparr>" "\<forall>c. pointer q c = resolve (linker env) (symbol c)"
    "world q = world (process s)" and "last_missing (linker env) = None \<longrightarrow> l = messages (topology_of M ?f ?l')"
    by (rule init_after_topology [OF assms(6) t log_topology_machine [OF assms(1)]])
  ultimately have l: "l = ?l'" by (simp add: topology_of_def)
  moreover have "?l' = (if debug (log_of env)
      then fold (tell (log_of env)) ([''reeact_init: reeact initialization'' @ nl] @
        map (\<lambda>t. ''reeact_get_topo_sysfs: '' @ t) (sysfs_lines M) @ [''reeact_log_topology: '' @ machine_text M])
        (stderr (process s))
      else stderr (process s))"
    by (simp add: topology_log_def sysfs_log_text boot_line_def fold_map comp_def)
  ultimately show ?thesis using s' by (intro exI [of _ s'] exI [of _ d]) (simp add: processor_topo.defs topology_of_def)
qed

definition demo_env :: "string option \<Rightarrow> bool \<Rightarrow> (addr \<times> arg list) list reeact_env" where
  "demo_env conf mem = \<lparr>linker = demo_os, list_parser = dual_parse, system = dual_env conf,
     invocation_name = ''./app'', calloc_ok = mem, policy_init_flag = False\<rparr>"

definition demo_start :: "(addr \<times> arg list) list reeact_state" where
  "demo_start = \<lparr>reeact_handle = None, freed = False, process = zero_process [], streams = 0\<rparr>"

lemma demo_env_simps [simp]:
  "linker (demo_env conf mem) = demo_os" "list_parser (demo_env conf mem) = dual_parse"
  "system (demo_env conf mem) = dual_env conf" "calloc_ok (demo_env conf mem) = mem"
  "log_of (demo_env conf mem) = app_log 42"
  by (simp_all add: demo_env_def log_of_def demo_os_def)

lemma dual_env_simps [simp]:
  "topo_config (dual_env conf) = conf" "malloc_cores (dual_env conf)" "malloc_nodes (dual_env conf)"
  by (simp_all add: dual_env_def)

lemma dual_text: "machine_text dual = ''Socket count is 2, node per socket is 1, cores per node is 1'' @ nl @
    ''Socket 0:'' @ nl @ tab @ '' Node 0:'' @ nl @ tab @ tab @ ''0 '' @ nl @
    ''Socket 1:'' @ nl @ tab @ '' Node 1:'' @ nl @ tab @ tab @ ''1 '' @ nl"
  by (simp add: machine_text_def socket_text_def node_text_def core_text_def dual_def socket_nodes_def
      node_socket_def node_cores_def leader_def n_nodes_def show_int_def show_nat.simps)

lemma demo_simps:
  "stderr (process demo_start) = log_start" "streams demo_start = 0" "debug (app_log 42)"
  "process_id (app_log 42) = 42" "opened_by_sysfs dual = 12"
  "resolve demo_os (symbol (Call_barrier_wait 3)) = Some 20"
  by (simp_all add: demo_start_def zero_process_def app_log_def opened_by_sysfs_def dual_def n_nodes_def demo_os_def)

theorem init_machine_witness:
  "\<exists>s' d. reeact_init (demo_env None True) demo_start = Some s' \<and> reeact_handle s' = Some d \<and>
     pid d = 42 \<and> streams s' = 11 \<and> pointer (process s') (Call_barrier_wait 3) = Some 20 \<and>
     errout (stderr (process s')) =
       ''42 app: reeact_init: reeact initialization'' @ nl @
       ''42 app: reeact_get_topo_sysfs: There are 2 nodes: 0,1,'' @ nl @
       ''42 app: reeact_get_topo_sysfs: There are 2 cpu cores: 0,1,'' @ nl @
       ''42 app: reeact_get_topo_sysfs: cores per node: 1'' @ nl @
       ''42 app: reeact_get_topo_sysfs: node 0 core list: 0,'' @ nl @
       ''42 app: reeact_get_topo_sysfs: node 1 core list: 1,'' @ nl @
       ''42 app: reeact_get_topo_sysfs: There are 2 sockets'' @ nl @
       ''42 app: reeact_log_topology: Socket count is 2, node per socket is 1, cores per node is 1'' @ nl @
       ''Socket 0:'' @ nl @ tab @ '' Node 0:'' @ nl @ tab @ tab @ ''0 '' @ nl @
       ''Socket 1:'' @ nl @ tab @ '' Node 1:'' @ nl @ tab @ tab @ ''1 '' @ nl"
proof -
  obtain s' d where s': "reeact_init (demo_env None True) demo_start = Some s'" "reeact_handle s' = Some d"
    "pid d = 42" "streams s' = 0 + 12 - 1" "pointer (process s') (Call_barrier_wait 3) = Some 20"
    and l: "stderr (process s') = (if debug (app_log 42)
      then fold (tell (app_log 42)) ([''reeact_init: reeact initialization'' @ nl] @
        map (\<lambda>t. ''reeact_get_topo_sysfs: '' @ t) (sysfs_lines dual) @ [''reeact_log_topology: '' @ machine_text dual])
        log_start else log_start)"
    using init_machine [of dual "demo_env None True" demo_start "Call_barrier_wait 3", unfolded demo_env_simps
        dual_env_simps(1) demo_simps, OF dual_homogeneous dual_sysfs refl dual_env_simps(2,3) TrueI demo_linker]
    by (elim exE conjE)
  from l have "stderr (process s') = fold (tell (app_log 42)) ([''reeact_init: reeact initialization'' @ nl] @
      map (\<lambda>t. ''reeact_get_topo_sysfs: '' @ t) (sysfs_lines dual) @ [''reeact_log_topology: '' @ machine_text dual])
      log_start" by (simp only: demo_simps if_True)
  then show ?thesis using s'
    by (intro exI [of _ s'] exI [of _ d])
      (simp add: dual_lines dual_text tell_errout log_start_def app_log_def show_int_def show_nat.simps)
qed

text \<open>C23: built with the default policy, once the constructor has run to its end, its calloc has
  succeeded and all 17 symbols have resolved, whatever the topology was, a program that calls
  the hooks sees what the original functions give it. The destructor, when the data of the
  process has not been freed before, frees it and leaves the hooks as they are, so the calls
  that destructors of other libraries make after it see the original functions, too.\<close>

theorem init_transparent:
  assumes "reeact_init env s = Some s'" and "calloc_ok env" and "default_policy (linker env)"
    and "None \<notin> resolve (linker env) ` set hooked_symbols" and "\<not> freed s"
    and "answered (direct_step (linker env)) cs (world (process s)) = (rs, w)"
    and "answered (direct_step (linker env)) ds w = (us, v)"
  shows "\<exists>q s'' q'. provided (hook_step (linker env)) cs (process s') = Some (rs, q) \<and> world q = w \<and>
    reeact_cleanup env (s'\<lparr>process := q\<rparr>) = Some s'' \<and> freed s'' \<and>
    provided (hook_step (linker env)) ds (process s'') = Some (us, q') \<and> world q' = v"
proof -
  obtain ret t t' where "reeact_get_topology (list_parser env) (sys_of env) True
      (boot_topo (streams s) (boot_line env (stderr (process s)))) = Return ret t"
    and "reeact_log_topology (log_of env) t = Go () t'"
    using assms(1,2)
    by (auto simp: reeact_init_def reeact_per_proc_init_def DPRINTF_tell boot_line_def boot_topo_def zero_data_def
        split: outcome.splits if_splits)
  from init_after_topology [OF assms(2) this] obtain s1 q l d where "reeact_init env s = Some s1"
    and q: "process s1 = q\<lparr>stderr := l\<rparr>" "\<forall>c. pointer q c = resolve (linker env) (symbol c)"
      "world q = world (process s)" and d: "reeact_handle s1 = Some d" "freed s1 = freed s" by metis
  then have s1: "s1 = s'" using assms(1) by simp
  have "resolve (linker env) (symbol c) \<noteq> None" for c using assms(4) symbol_hooked [of c] by (metis imageI)
  then have "loaded (linker env) (process s1)" using q assms(3) by (simp add: loaded_def)
  from hooks.program_through [OF this] q(1,3) assms(6) obtain r
    where r: "provided (hook_step (linker env)) cs (process s') = Some (rs, r)" "world r = w" "loaded (linker env) r"
    unfolding s1 by simp blast
  let ?r = "r\<lparr>stderr := cleanup_line env (stderr r)\<rparr>"
  have "loaded (linker env) ?r" "world ?r = w" using r by (simp_all add: loaded_def)
  with hooks.program_through [of "linker env" ?r ds us v] assms(7) r d assms(5) show ?thesis
    unfolding s1 by (auto simp: cleanup_result)
qed

theorem init_transparent_witness:
  "\<exists>s' q. reeact_init (demo_env None True) demo_start = Some s' \<and>
     provided (hook_step demo_os) [Call_barrier_init 5 0 2, Call_barrier_wait 5] (process s') = Some ([3, 1], q) \<and>
     world q = [(20, [5, 0, 2]), (20, [5])] \<and>
     (\<exists>s'' q'. reeact_cleanup (demo_env None True) (s'\<lparr>process := q\<rparr>) = Some s'' \<and>
        provided (hook_step demo_os) [Call_mutex_unlock 7] (process s'') = Some ([1], q'))"
proof -
  let ?e = "demo_env None True"
  let ?l = "boot_line ?e (stderr (process demo_start))"
  have "reeact_get_topology dual_parse (sys_of ?e) True (boot_topo (streams demo_start) ?l) =
      Return 0 (topology_of dual (streams demo_start + opened_by_sysfs dual - 1) (sysfs_log (sys_of ?e) dual ?l))"
    using sysfs_result [OF dual_homogeneous, of dual_parse "sys_of ?e"] dual_sysfs [of None]
    by (simp add: reeact_get_topology_def clear_def)
  note t = this
  obtain s' where s': "reeact_init ?e demo_start = Some s'"
    by (rule init_after_topology [of ?e demo_start, unfolded demo_env_simps, OF TrueI t
        log_topology_machine [OF dual_homogeneous]])
  have a: "answered (direct_step (linker ?e)) [Call_barrier_init 5 0 2, Call_barrier_wait 5] (world (process demo_start)) =
      ([3, 1], [(20, [5, 0, 2]), (20, [5])])"
    by (simp add: demo_os_def direct_step_def demo_start_def zero_process_def)
  have d: "answered (direct_step (linker ?e)) [Call_mutex_unlock 7] [(20, [5, 0, 2]), (20, [5])] =
      ([1], [(20, [5, 0, 2]), (20, [5]), (20, [7])])"
    by (simp add: demo_os_def direct_step_def)
  have f: "\<not> freed demo_start" by (simp add: demo_start_def)
  from init_transparent [OF s' _ _ _ f a d] s' demo_linker demo_policy show ?thesis by auto
qed

text \<open>C24: a failed allocation disables the program. When \<open>calloc\<close> fails, the constructor logs
  it and returns without initializing the hooks: every hooked call except lock and unlock then
  goes through a NULL pointer, although the original functions are there.\<close>

theorem init_no_memory:
  assumes "\<not> calloc_ok env" and "default_policy (linker env)" and "\<forall>c. pointer (process s) c = None"
    and "symbol c \<notin> {''pthread_mutex_lock'', ''pthread_mutex_unlock''}"
    and "12 < length (error_list (log_of env))"
  shows "\<exists>s'. reeact_init env s = Some s' \<and> reeact_handle s' = None \<and>
    (\<exists>l. stderr (process s') = tell (log_of env) (''reeact_init: Unable to allocate memory for REEact data: '' @
      error_list (log_of env) ! 12 @ ''(12)'' @ nl) l) \<and>
    hook_step (linker env) c (process s') = None"
proof -
  let ?l = "boot_line env (stderr (process s))"
  have "reeact_init env s = Some (s\<lparr>reeact_handle := None, process := (process s)\<lparr>stderr :=
      tell (log_of env) (''reeact_init: Unable to allocate memory for REEact data: '' @
      error_list (log_of env) ! 12 @ ''(12)'' @ nl) ?l\<rparr>\<rparr>)" (is "_ = Some ?s")
    using assms(1,5)
    by (simp add: reeact_init_def DPRINTF_tell boot_line_def LOGERRX_tell ENOMEM_def show_int_def show_nat.simps
        tell_def reeact_print_prefix_def Let_def)
  moreover have "pointer (process ?s) c = None" using assms(3) by simp
  then have "hook_step (linker env) c (process ?s) = None"
    using assms(2,4) by (cases c) (simp_all add: hook_step_def call_real_def hook_defs logged_DPRINTF)
  ultimately show ?thesis by (intro exI [of _ ?s]) auto
qed

theorem init_no_memory_witness:
  "\<exists>s'. reeact_init (demo_env None False) demo_start = Some s' \<and>
     hook_step demo_os (Call_create 1 2 3 4) (process s') = None"
proof -
  have z: "\<forall>c. pointer (process demo_start) c = None"
  proof
    show "pointer (process demo_start) c = None" for c
      by (cases c) (simp_all add: demo_start_def zero_process_def)
  qed
  have "12 < length (error_list (log_of (demo_env None False)))" by (simp add: app_log_def error_texts_def)
  from init_no_memory [OF _ _ z _ this, of "Call_create 1 2 3 4"] demo_policy show ?thesis by auto
qed

text \<open>C25: the counts of a configuration file are believed. When the list of nodes it gives is
  shorter than the counts ask for, the call that reads it succeeds and the debug build's
  constructor reads outside the array.\<close>

theorem short_conf_undefined:
  assumes "\<forall>x\<in>{S, N, C} \<union> set ns \<union> set cs. 0 \<le> x" and "0 \<notin> {S, N, C}" and "ns \<noteq> []" and "cs \<noteq> []"
    and "list_parser env (show_list [S, N, C]) = (0, Some [S, N, C])"
    and "list_parser env (show_list ns) = (0, Some ns)" and "list_parser env (show_list cs) = (0, Some cs)"
    and "topo_config (system env) = Some f" and "files (system env) f = Some (conf_text [S, N, C] ns cs)"
    and "int (length ns) < S * N" and "calloc_ok env" and "debug (log_of env)"
  shows "reeact_init env s = None"
proof -
  let ?l = "boot_line env (stderr (process s))"
  let ?t = "\<lparr>nodes = Some (map Some ns), cores = Some (map Some cs), socket_cnt = S, node_cnt = N,
    core_cnt = C, open_files = streams s, messages = ?l\<rparr>"
  have "reeact_get_topology (list_parser env) (sys_of env) True (boot_topo (streams s) ?l) = Return 0 ?t"
    using conf_result [of "[S, N, C]" ns cs "list_parser env" "sys_of env" f "boot_topo (streams s) ?l"] assms(1-9)
    by simp
  moreover have "reeact_log_topology (log_of env) ?t = Undef"
    using assms(1,2,10,12) by (intro log_topology_short [of ?t "map Some ns"]) auto
  ultimately show ?thesis
    using assms(11) unfolding reeact_init_def boot_DPRINTF
    by (simp add: reeact_per_proc_init_def boot_topo_def [symmetric])
qed

theorem short_conf_undefined_witness:
  "reeact_init (demo_env (Some ''short.conf'') True) demo_start = None"
proof -
  have "dual_parse (show_list [2, 2, 1]) = (0, Some [2, 2, 1])"
    and "dual_parse (show_list [0, 1]) = (0, Some [0, 1])"
    by (simp_all add: dual_parse_def show_int_def show_nat.simps)
  moreover have "files (dual_env (Some ''short.conf'')) ''short.conf'' = Some (conf_text [2, 2, 1] [0, 1] [0, 1])"
    by (simp add: dual_env_def dual_files_def file_names)
  ultimately show ?thesis
    using short_conf_undefined [of 2 2 1 "[0, 1]" "[0, 1]" "demo_env (Some ''short.conf'') True" "''short.conf''"]
    by (simp add: app_log_def)
qed

section \<open>The prefix of log messages\<close>

text \<open>Messages logged one after the other, each by its own process: a child that \<open>fork\<close> made
  goes on with a copy of the variables.\<close>

fun log_all :: "(log_env \<times> string \<times> string \<times> parg list) list \<Rightarrow> log_state \<Rightarrow> log_state option" where
  "log_all [] l = Some l"
| "log_all ((env, func, fmt, args) # ms) l = Option.bind (LOGERR env func fmt args l) (log_all ms)"

lemma log_all_text:
  assumes "log_all ms l = Some l'" and "log_pid l \<noteq> 0"
  shows "errout l' = errout l @ concat (map (\<lambda>(env, func, fmt, args). show_int (log_pid l) @ '' '' @
    short_name env @ '': '' @ func @ '': '' @ the (formatted fmt args)) ms)"
  using assms
proof (induction ms arbitrary: l)
  case (Cons m ms)
  obtain env func fmt args where m: "m = (env, func, fmt, args)" by (cases m) auto
  with Cons.prems obtain t where t: "formatted fmt args = Some t"
    by (cases "formatted fmt args") (auto simp: LOGERR_def reeact_log_err_def Let_def)
  with Cons.prems m have "log_all ms (tell env (func @ '': '' @ t) l) = Some l'" by (simp add: LOGERR_tell)
  from Cons.IH [OF this] Cons.prems(2) t m show ?case by (simp add: tell_errout)
qed simp

text \<open>C26: every message begins with the process id of the first one, whichever process logs
  it. After a \<open>fork\<close> the child goes on with the copied variable: its messages carry the id of
  the parent when the parent has logged anything before.\<close>

theorem log_prefix_after_fork:
  assumes "log_all ((parent, m) # ms) log_start = Some l" and "process_id parent \<noteq> 0"
  shows "errout l = concat (map (\<lambda>(env, func, fmt, args). show_int (process_id parent) @ '' '' @
    short_name env @ '': '' @ func @ '': '' @ the (formatted fmt args)) ((parent, m) # ms))"
proof -
  obtain func fmt args where m: "m = (func, fmt, args)" by (cases m) auto
  with assms(1) obtain t where t: "formatted fmt args = Some t"
    by (cases "formatted fmt args") (auto simp: LOGERR_def reeact_log_err_def Let_def)
  with assms(1) m have "log_all ms (tell parent (func @ '': '' @ t) log_start) = Some l" by (simp add: LOGERR_tell)
  from log_all_text [OF this] assms(2) t m show ?thesis by (simp add: tell_errout log_start_def)
qed

theorem log_prefix_after_fork_witness:
  "map_option errout (log_all [(app_log 42, ''f'', ''a%d'' @ nl, [Dec 1]), (app_log 43, ''g'', ''b%s'' @ nl, [Str ''x''])] log_start) =
     Some (''42 app: f: a1'' @ nl @ ''42 app: g: bx'' @ nl)"
proof -
  obtain l where l: "log_all [(app_log 42, ''f'', ''a%d'' @ nl, [Dec 1]), (app_log 43, ''g'', ''b%s'' @ nl, [Str ''x''])] log_start = Some l"
    by (simp add: LOGERR_tell)
  from log_prefix_after_fork [OF l] l show ?thesis
    by (simp add: app_log_def show_int_def show_nat.simps)
qed

end
