(* ===== verification/Sync_Test.thy ===== *)
theory Sync_Test imports Prelude "HOL-Library.Char_ord" begin

text \<open>
  The benchmark src/tests: the worker functions of sync_worker_lib.c, and of sync_v2.c the
  command line, the distribution of the iterations over the threads and the thread function.
  Threads are described by what they do, in order, to the barrier, the mutex, the condition
  variable and the start flag. All arithmetic is that of the code, on 64-bit words. Not
  modelled: the texts of options and output, the clock, the failures of pthread_create and
  pthread_barrier_init.
\<close>

section \<open>Worker functions (sync_worker_lib.c)\<close>

text \<open>\<open>None\<close>: the call never returns. A division by zero ends the program.\<close>

datatype 'a outcome = Crash | Done 'a

type_synonym worker_func = "u64 \<Rightarrow> u64 outcome option"

partial_function (option) add_loop :: "u64 \<Rightarrow> u64 \<Rightarrow> u64 \<Rightarrow> u64 outcome option" where
  "add_loop trials i result =
     (if i < trials then add_loop trials (i + 1) (result + 1) else Some (Done result))"

definition add_worker :: worker_func where
  "add_worker trials = add_loop trials 0 0"

partial_function (option) div_loop :: "u64 \<Rightarrow> u64 \<Rightarrow> u64 \<Rightarrow> u64 outcome option" where
  "div_loop trials i result =
     (if i \<le> trials then (if i = 0 then Some Crash else div_loop trials (i + 1) (result div i + i))
      else Some (Done result))"

definition div_worker :: worker_func where
  "div_worker trials = div_loop trials 1 0"

partial_function (option) mul_loop :: "u64 \<Rightarrow> u64 \<Rightarrow> u64 \<Rightarrow> u64 outcome option" where
  "mul_loop trials i result =
     (if i \<le> trials then mul_loop trials (i + 1) (result * i) else Some (Done result))"

definition mul_worker :: worker_func where
  "mul_worker trials = mul_loop trials 1 1"

section \<open>Parameters (sync_v2.c)\<close>

definition MAX_THREADS :: int where
  "MAX_THREADS = 16384"

text \<open>\<open>all_start\<close> is shared by the threads and appears in what they do; \<open>lib\<close> and \<open>func\<close> are results
  of \<open>open_worker_func\<close>.\<close>

record cmd_params =
  thr_cnt :: int
  core_list :: "int list"
  core_cnt :: int
  total_iters :: u64
  bar_iters :: u64
  lib_name :: "string option"
  func_name :: "string option"
  debug_output :: int
  verbose :: int
  sync_type :: int

definition init_parameters :: cmd_params where
  "init_parameters = \<lparr>thr_cnt = 0, core_list = [], core_cnt = 0, total_iters = 0, bar_iters = 0,
     lib_name = None, func_name = None, debug_output = 0, verbose = 0, sync_type = 0\<rparr>"

text \<open>
  \<open>getopt_long\<close> hands over the options as pairs of a number and an argument. The conversions of
  the C library and the list parser of common_toolx (\<open>Inl\<close> its error) are parameters. What
  \<open>exit\<close> returns, with the message written before the usage, is \<open>Inl\<close>.
\<close>

record text_lib =
  atoi :: "string \<Rightarrow> int"
  strtoull :: "string \<Rightarrow> u64"
  parse_value_list :: "string \<Rightarrow> int + int list"

definition line :: "string \<Rightarrow> string" where
  "line t = t @ [CHR 0x0A]"

definition is_option :: "char \<Rightarrow> int \<Rightarrow> int \<Rightarrow> bool" where
  "is_option c long opt \<longleftrightarrow> opt = of_char c \<or> opt = long"

definition parse_option :: "text_lib \<Rightarrow> int \<Rightarrow> string \<Rightarrow> cmd_params \<Rightarrow> (int \<times> string) + cmd_params" where
  "parse_option lib opt optarg p =
     (if is_option (CHR ''t'') 1001 opt then Inr (p\<lparr>thr_cnt := atoi lib optarg\<rparr>)
      else if is_option (CHR ''c'') 1002 opt then
        (case parse_value_list lib optarg of
           Inl e \<Rightarrow> Inl (- 1, line (''Unable to parse core list: error '' @ show_int e))
         | Inr vs \<Rightarrow> Inr (p\<lparr>core_list := vs, core_cnt := int (length vs)\<rparr>))
      else if is_option (CHR ''m'') 1003 opt then Inr (p\<lparr>total_iters := strtoull lib optarg\<rparr>)
      else if is_option (CHR ''n'') 1004 opt then Inr (p\<lparr>bar_iters := strtoull lib optarg\<rparr>)
      else if is_option (CHR ''l'') 1005 opt then Inr (p\<lparr>lib_name := Some optarg\<rparr>)
      else if is_option (CHR ''f'') 1006 opt then Inr (p\<lparr>func_name := Some optarg\<rparr>)
      else if is_option (CHR ''d'') 1007 opt then Inr (p\<lparr>debug_output := 1\<rparr>)
      else if is_option (CHR ''v'') 1008 opt then Inr (p\<lparr>verbose := 1\<rparr>)
      else if is_option (CHR ''h'') 1009 opt then Inl (0, [])
      else if is_option (CHR ''s'') 1010 opt then Inr (p\<lparr>sync_type := atoi lib optarg\<rparr>)
      else Inl (- 1, []))"

definition check_parameters :: "cmd_params \<Rightarrow> (int \<times> string) + cmd_params" where
  "check_parameters p =
     (if total_iters p = 0 then Inl (- 1, line ''Please specify the total number of iterations.'')
      else if bar_iters p = 0 then
        Inl (- 1, line ''Please specify the number of iterationsbefore waiting for each barrier.'')
      else if thr_cnt p = 0 then Inl (- 1, line ''Please specify the number of threads.'')
      else if thr_cnt p > MAX_THREADS then
        Inl (- 1, line (''The number of threads should be smallerthan '' @ show_int MAX_THREADS @ ''.''))
      else if core_cnt p = 0 then Inl (- 1, line ''Please specify the cores to run.'')
      else if lib_name p = None then
        Inl (- 1, line ''Please specify the library which contains the working function'')
      else if func_name p = None then
        Inl (- 1, line ''Please specify the name of the working function'')
      else Inr p)"

fun parse_parameters :: "text_lib \<Rightarrow> (int \<times> string) list \<Rightarrow> cmd_params \<Rightarrow> (int \<times> string) + cmd_params" where
  "parse_parameters lib [] p = check_parameters p"
| "parse_parameters lib ((opt, optarg) # os) p =
     (case parse_option lib opt optarg p of Inl e \<Rightarrow> Inl e | Inr p' \<Rightarrow> parse_parameters lib os p')"

section \<open>Threads (sync_v2.c)\<close>

text \<open>The members of \<open>thr_params\<close> that differ between the threads.\<close>

record thr_params =
  tidx :: int
  thr_iters :: u64
  extra_trial :: u64

text \<open>
  What a thread does: \<open>BarrierWait\<close> at the synchronization point, \<open>AwaitStart\<close> is the loop that
  spins while \<open>all_start\<close> is 0, \<open>Work k\<close> a call of the worker function with k, \<open>AwaitCond\<close> the
  loop around \<open>pthread_cond_wait\<close> while \<open>all_start\<close> is 0.
\<close>

datatype act = BarrierWait | AwaitStart | Work u64 | LockMutex | CountCritical | UnlockMutex
  | SetStart int | LockCond | UnlockCond | AwaitCond | BroadcastStart

text \<open>The switch at the end of a round: what is done and by how much \<open>sync_called\<close> grows. The
  case 2 has no break.\<close>

definition sync_default :: "act list \<times> u64" where
  "sync_default = ([BarrierWait], 1)"

definition sync_round :: "int \<Rightarrow> int \<Rightarrow> act list \<times> u64" where
  "sync_round ty t =
     (if ty = 1 then ([LockMutex, CountCritical, UnlockMutex, BarrierWait], 1)
      else if ty = 2 then
        ([BarrierWait] @ (if t = 0 then [SetStart 0] else []) @ [BarrierWait] @
         (if t = 0 then [LockCond, SetStart 1, UnlockCond, BroadcastStart] else [LockCond, AwaitCond, UnlockCond]) @
         fst sync_default, 1 + snd sync_default)
      else sync_default)"

record thr_result =
  ret_val :: u64
  sync_called :: u64
  acts :: "act list"

definition trials_to_do :: "cmd_params \<Rightarrow> thr_params \<Rightarrow> u64 \<Rightarrow> u64" where
  "trials_to_do p a trials_done =
     (if thr_iters a - trials_done \<ge> bar_iters p then bar_iters p else thr_iters a - trials_done)"

partial_function (option) thread_loop ::
  "worker_func \<Rightarrow> cmd_params \<Rightarrow> thr_params \<Rightarrow> u64 \<Rightarrow> thr_result \<Rightarrow> thr_result outcome option" where
  "thread_loop func p a trials_done r =
     (if trials_done < thr_iters a then
        (let n = trials_to_do p a trials_done; (what, called) = sync_round (sync_type p) (tidx a) in
         case func n of None \<Rightarrow> None
         | Some Crash \<Rightarrow> Some Crash
         | Some (Done v) \<Rightarrow> thread_loop func p a (trials_done + bar_iters p)
             \<lparr>ret_val = ret_val r + v, sync_called = sync_called r + called, acts = acts r @ Work n # what\<rparr>)
      else Some (Done r))"

definition extra_work :: "worker_func \<Rightarrow> thr_params \<Rightarrow> thr_result \<Rightarrow> thr_result outcome option" where
  "extra_work func a r =
     (if extra_trial a \<noteq> 0 then
        (case func (extra_trial a) of None \<Rightarrow> None
         | Some Crash \<Rightarrow> Some Crash
         | Some (Done v) \<Rightarrow> Some (Done (r\<lparr>ret_val := ret_val r + v, acts := acts r @ [Work (extra_trial a)]\<rparr>)))
      else Some (Done r))"

definition thread_func :: "worker_func \<Rightarrow> cmd_params \<Rightarrow> thr_params \<Rightarrow> thr_result outcome option" where
  "thread_func func p a =
     (case thread_loop func p a 0 \<lparr>ret_val = 0, sync_called = 0, acts = [BarrierWait, AwaitStart]\<rparr> of
        None \<Rightarrow> None
      | Some Crash \<Rightarrow> Some Crash
      | Some (Done r) \<Rightarrow> extra_work func a r)"

section \<open>The library and the threads of main\<close>

text \<open>\<open>dlopen\<close> and \<open>dlsym\<close> are parameters; \<open>Inl\<close> is the status of exit.\<close>

definition open_worker_func ::
  "(string \<Rightarrow> 'h option) \<Rightarrow> ('h \<Rightarrow> string \<Rightarrow> worker_func option) \<Rightarrow> string \<Rightarrow> string \<Rightarrow> int + worker_func" where
  "open_worker_func dlopen dlsym lib func =
     (case dlopen lib of None \<Rightarrow> Inl 4
      | Some h \<Rightarrow> (case dlsym h func of None \<Rightarrow> Inl 5 | Some f \<Rightarrow> Inr f))"

text \<open>The loop of main over the threads that are left to set up: their number is an \<open>int\<close>, in
  the division it becomes an unsigned 64-bit number.\<close>

fun thread_args :: "u64 \<Rightarrow> u64 \<Rightarrow> int list \<Rightarrow> thr_params list" where
  "thread_args thr_trials extra [] = []"
| "thread_args thr_trials extra (t # ts) =
     (if extra > 0 then \<lparr>tidx = t, thr_iters = thr_trials, extra_trial = 1\<rparr> # thread_args thr_trials (extra - 1) ts
      else \<lparr>tidx = t, thr_iters = thr_trials, extra_trial = 0\<rparr> # thread_args thr_trials extra ts)"

definition main_threads :: "cmd_params \<Rightarrow> thr_params list" where
  "main_threads p =
     (let n = word_of_int (thr_cnt p) in
      thread_args (total_iters p div n) (total_iters p mod n) (map int [0..<nat (thr_cnt p)]))"

text \<open>What the worker threads of a started benchmark do.\<close>

definition benchmark :: "worker_func \<Rightarrow> cmd_params \<Rightarrow> thr_result outcome option list" where
  "benchmark func p = map (thread_func func p) (main_threads p)"

end
