(* ===== verification/Sync_Test_Props.thy ===== *)
theory Sync_Test_Props imports Sync_Test begin

text \<open>
  What the benchmark does: how the iterations are distributed and run, that all threads meet at
  the barrier equally often, when a thread comes to its end, and what the workers compute.
\<close>

section \<open>The rounds of a thread\<close>

text \<open>The iterations of a thread in portions of \<open>b\<close>, the last one may be smaller.\<close>

fun portions :: "nat \<Rightarrow> nat \<Rightarrow> nat list" where
  "portions b n = (if n = 0 \<or> b = 0 then [] else min b n # portions b (n - b))"

declare portions.simps [simp del]

lemma portions_0 [simp]: "portions b 0 = []"
  by (simp add: portions.simps)

lemma portions_step: "0 < n \<Longrightarrow> 0 < b \<Longrightarrow> portions b n = min b n # portions b (n - b)"
  by (simp add: portions.simps [of b n])

lemma portions_sum: "0 < b \<Longrightarrow> sum_list (portions b n) = n"
proof (induction n rule: less_induct)
  case (less n)
  then show ?case by (cases "n = 0") (simp_all add: portions_step)
qed

lemma portions_length: "0 < b \<Longrightarrow> length (portions b n) = (n + b - 1) div b"
proof (induction n rule: less_induct)
  case (less n)
  show ?case
  proof (cases "n = 0")
    case False
    have "(n + b - 1) div b = Suc ((n - b + b - 1) div b)"
    proof (cases "b \<le> n")
      case True
      then have "n + b - 1 = (n - 1) + b" "n - b + b - 1 = n - 1" using False by auto
      then show ?thesis using less.prems by (simp only: div_add_self2)
    next
      case small: False
      then have "n + b - 1 = (n - 1) + b" "n - 1 < b" "n - b + b - 1 = b - 1" using False by auto
      then show ?thesis using less.prems by (simp only: div_add_self2 div_less)
    qed
    moreover have "length (portions b (n - b)) = (n - b + b - 1) div b"
      using False less.prems by (intro less.IH) auto
    ultimately show ?thesis using False less.prems by (simp add: portions_step)
  qed (use less.prems in simp)
qed

lemma portions_bound: "0 < b \<Longrightarrow> k \<in> set (portions b n) \<Longrightarrow> k \<le> b \<and> k \<le> n"
proof (induction n rule: less_induct)
  case (less n)
  show ?case
  proof (cases "n = 0")
    case False
    with less.prems have "k = min b n \<or> k \<in> set (portions b (n - b))" by (simp add: portions_step)
    moreover have "k \<in> set (portions b (n - b)) \<Longrightarrow> k \<le> b \<and> k \<le> n - b"
      using False less.prems(1) by (intro less.IH) auto
    ultimately show ?thesis by auto
  qed (use less.prems in simp)
qed

definition rounds :: "int \<Rightarrow> int \<Rightarrow> nat list \<Rightarrow> act list" where
  "rounds ty t ns = concat (map (\<lambda>n. Work (of_nat n) # fst (sync_round ty t)) ns)"

definition total_worker :: "worker_func \<Rightarrow> bool" where
  "total_worker func \<longleftrightarrow> (\<forall>n. \<exists>v. func n = Some (Done v))"

lemma loop_result:
  assumes func: "total_worker func" and b: "bar_iters p \<noteq> 0"
    and wrap: "unat (thr_iters a) + unat (bar_iters p) \<le> 2 ^ 64"
  shows "m = unat (thr_iters a) - unat d \<Longrightarrow> \<exists>v. thread_loop func p a d r = Some (Done
    \<lparr>ret_val = v, sync_called = sync_called r + of_nat (length (portions (unat (bar_iters p)) m)) * snd (sync_round (sync_type p) (tidx a)),
     acts = acts r @ rounds (sync_type p) (tidx a) (portions (unat (bar_iters p)) m)\<rparr>)"
proof (induction m arbitrary: d r rule: less_induct)
  case (less m)
  let ?b = "unat (bar_iters p)"
  have b0: "0 < ?b" using b by (simp add: unat_gt_0)
  show ?case
  proof (cases "d < thr_iters a")
    case False
    then have "m = 0" using less.prems by (simp add: word_less_nat_alt)
    with False show ?thesis
      by (intro exI [of _ "ret_val r"]) (simp add: thread_loop.simps rounds_def)
  next
    case True
    then have m: "m = unat (thr_iters a) - unat d" "unat d < unat (thr_iters a)"
      using less.prems by (simp_all add: word_less_nat_alt)
    then have "unat d + ?b < 2 ^ 64" using wrap by linarith
    then have next_d: "unat (d + bar_iters p) = unat d + ?b" using unat_add_lem [of d "bar_iters p"] by simp
    have sub: "unat (thr_iters a - d) = m" using m by (simp add: unat_sub word_le_nat_alt)
    have diff: "thr_iters a - d = of_nat m" using sub by auto
    have to_do: "trials_to_do p a d = of_nat (min ?b m)"
      using sub diff by (cases "?b \<le> m") (simp_all add: trials_to_do_def word_le_nat_alt min_def)
    obtain v where v: "func (trials_to_do p a d) = Some (Done v)" using func by (auto simp: total_worker_def)
    obtain what called where sy: "sync_round (sync_type p) (tidx a) = (what, called)" by fastforce
    let ?r = "\<lparr>ret_val = ret_val r + v, sync_called = sync_called r + called, acts = acts r @ Work (trials_to_do p a d) # what\<rparr>"
    have "m - ?b < m" "m - ?b = unat (thr_iters a) - unat (d + bar_iters p)" using m b0 next_d by auto
    from less.IH [OF this, of ?r] obtain w where "thread_loop func p a (d + bar_iters p) ?r = Some (Done
      \<lparr>ret_val = w, sync_called = sync_called r + called + of_nat (length (portions ?b (m - ?b))) * called,
       acts = acts r @ Work (trials_to_do p a d) # what @ rounds (sync_type p) (tidx a) (portions ?b (m - ?b))\<rparr>)"
      using sy by auto
    then show ?thesis using True v sy m b0 to_do
      by (subst thread_loop.simps) (simp add: portions_step rounds_def Let_def algebra_simps)
  qed
qed

text \<open>A thread function that returns: the whole list of what it has done.\<close>

definition thread_acts :: "cmd_params \<Rightarrow> thr_params \<Rightarrow> act list" where
  "thread_acts p a = [BarrierWait, AwaitStart] @
     rounds (sync_type p) (tidx a) (portions (unat (bar_iters p)) (unat (thr_iters a))) @
     (if extra_trial a \<noteq> 0 then [Work (extra_trial a)] else [])"

lemma thread_result:
  assumes "total_worker func" and "bar_iters p \<noteq> 0" and "unat (thr_iters a) + unat (bar_iters p) \<le> 2 ^ 64"
  shows "\<exists>r. thread_func func p a = Some (Done r) \<and> acts r = thread_acts p a \<and> sync_called r =
    of_nat (length (portions (unat (bar_iters p)) (unat (thr_iters a)))) * snd (sync_round (sync_type p) (tidx a))"
proof -
  obtain w where w: "func (extra_trial a) = Some (Done w)" using assms(1) by (auto simp: total_worker_def)
  from loop_result [OF assms, of "unat (thr_iters a)" 0 "\<lparr>ret_val = 0, sync_called = 0, acts = [BarrierWait, AwaitStart]\<rparr>"] w
  show ?thesis by (auto simp: thread_func_def extra_work_def thread_acts_def)
qed

section \<open>When a thread comes to its end\<close>

lemma thread_loop_ends:
  assumes "total_worker func" and "thr_iters a \<le> of_nat k * bar_iters p + d"
  shows "\<exists>r'. thread_loop func p a d r = Some (Done r')"
  using assms(2)
proof (induction k arbitrary: d r)
  case 0
  then have "\<not> d < thr_iters a" by (simp add: not_less)
  then show ?case by (simp add: thread_loop.simps)
next
  case (Suc k)
  obtain v where "func (trials_to_do p a d) = Some (Done v)" using assms(1) by (auto simp: total_worker_def)
  moreover from Suc.prems have "thr_iters a \<le> of_nat k * bar_iters p + (d + bar_iters p)"
    by (simp add: algebra_simps)
  ultimately show ?case using Suc.IH by (subst thread_loop.simps) (auto simp: Let_def split: prod.splits)
qed

lemma thread_loop_reaches:
  assumes "thread_loop func p a d r = Some x" and "total_worker func"
  shows "\<exists>k. thr_iters a \<le> of_nat k * bar_iters p + d"
proof -
  note start = thread_loop.raw_induct [where P = "\<lambda>func p a d r x. total_worker func \<longrightarrow> (\<exists>k. thr_iters a \<le> of_nat k * bar_iters p + d)"]
  have "total_worker func \<longrightarrow> (\<exists>k. thr_iters a \<le> of_nat k * bar_iters p + d)"
  proof (rule start [OF _ assms(1)])
    fix loop func p a d r x
    assume IH: "\<And>func p a d r x. loop func p a d r = Some x \<Longrightarrow> total_worker func \<longrightarrow> (\<exists>k. thr_iters a \<le> of_nat k * bar_iters p + d)"
      and run: "(if d < thr_iters a then
        (let n = trials_to_do p a d; (what, called) = sync_round (sync_type p) (tidx a) in
         case func n of None \<Rightarrow> None
         | Some Crash \<Rightarrow> Some Crash
         | Some (Done v) \<Rightarrow> loop func p a (d + bar_iters p)
             \<lparr>ret_val = ret_val r + v, sync_called = sync_called r + called, acts = acts r @ Work n # what\<rparr>)
      else Some (Done r)) = Some x"
    show "total_worker func \<longrightarrow> (\<exists>k. thr_iters a \<le> of_nat k * bar_iters p + d)"
    proof
      assume tot: "total_worker func"
      show "\<exists>k. thr_iters a \<le> of_nat k * bar_iters p + d"
      proof (cases "d < thr_iters a")
        case True
        obtain v where "func (trials_to_do p a d) = Some (Done v)" using tot by (auto simp: total_worker_def)
        with run True obtain r' where "loop func p a (d + bar_iters p) r' = Some x"
          by (auto simp: Let_def split: prod.splits)
        from IH [OF this] tot obtain k where "thr_iters a \<le> of_nat k * bar_iters p + (d + bar_iters p)" by blast
        then show ?thesis by (intro exI [of _ "Suc k"]) (simp add: algebra_simps)
      qed (auto intro!: exI [of _ 0] simp: not_less)
    qed
  qed
  with assms(2) show ?thesis by blast
qed

text \<open>C40: with a worker function that returns for every number of trials a thread of the benchmark
  returns from its loop exactly if the 64-bit multiples of the
  number of iterations between two barriers reach its number of iterations; otherwise the
  counter wraps around below it for ever.\<close>

theorem sync_thread_returns:
  assumes "total_worker func"
  shows "thread_func func p a \<noteq> None \<longleftrightarrow> (\<exists>k. thr_iters a \<le> of_nat k * bar_iters p)"
proof -
  let ?start = "\<lparr>ret_val = 0, sync_called = 0, acts = [BarrierWait, AwaitStart]\<rparr>"
  obtain v where "func (extra_trial a) = Some (Done v)" using assms by (auto simp: total_worker_def)
  then have "extra_work func a r \<noteq> None" for r by (simp add: extra_work_def)
  then have "thread_func func p a \<noteq> None \<longleftrightarrow> (\<exists>x. thread_loop func p a 0 ?start = Some x)"
    by (auto simp: thread_func_def split: option.splits outcome.splits)
  moreover have "(\<exists>x. thread_loop func p a 0 ?start = Some x) \<longleftrightarrow> (\<exists>k. thr_iters a \<le> of_nat k * bar_iters p + 0)"
    using thread_loop_ends [OF assms] thread_loop_reaches [OF _ assms] by blast
  ultimately show ?thesis by simp
qed

text \<open>With 2^63 iterations between two barriers the counter is 0 and 2^63 in turn.\<close>

definition big_params :: cmd_params where
  "big_params = init_parameters\<lparr>thr_cnt := 1, core_cnt := 1, total_iters := - 1, bar_iters := 2 ^ 63,
     lib_name := Some ''libsyncworker.so'', func_name := Some ''add_worker''\<rparr>"

theorem sync_thread_returns_witness:
  "check_parameters big_params = Inr big_params \<and> benchmark (\<lambda>n. Some (Done n)) big_params = [None]"
proof -
  have m: "main_threads big_params = [\<lparr>tidx = 0, thr_iters = - 1, extra_trial = 0\<rparr>]" (is "_ = [?a]")
    by (simp add: main_threads_def big_params_def init_parameters_def)
  have "of_nat k * (2 ^ 63 :: u64) < - 1" for k
  proof -
    have "of_nat k * (2 ^ 63 :: u64) = (if even k then 0 else 2 ^ 63)"
    proof (induction k)
      case (Suc k)
      have "of_nat (Suc k) * (2 ^ 63 :: u64) = 2 ^ 63 + (if even k then 0 else 2 ^ 63)"
        by (simp only: of_nat_Suc distrib_right mult_1 Suc.IH)
      moreover have "(2 ^ 63 + 2 ^ 63 :: u64) = 0" by simp
      ultimately show ?case by (cases "even k") simp_all
    qed simp
    moreover have "(0 :: u64) < - 1" "(2 ^ 63 :: u64) < - 1" by (simp_all add: word_gt_0)
    ultimately show ?thesis by (cases "even k") simp_all
  qed
  then have "\<not> (\<exists>k. thr_iters ?a \<le> of_nat k * bar_iters big_params)"
    by (simp add: big_params_def not_le)
  moreover have "total_worker (\<lambda>n. Some (Done n))" by (simp add: total_worker_def)
  ultimately have "thread_func (\<lambda>n. Some (Done n)) big_params ?a = None"
    using sync_thread_returns [of "\<lambda>n. Some (Done n)" big_params ?a] by blast
  then have "benchmark (\<lambda>n. Some (Done n)) big_params = [None]" by (simp add: benchmark_def m)
  moreover have "check_parameters big_params = Inr big_params"
    by (simp add: check_parameters_def big_params_def init_parameters_def MAX_THREADS_def)
  ultimately show ?thesis by blast
qed

section \<open>The workers\<close>

text \<open>A counter that is not the greatest word moves on without wrapping around.\<close>

lemma word_next:
  fixes i :: u64
  assumes "i \<noteq> - 1"
  shows "unat (i + 1) = Suc (unat i)"
proof -
  from assms have "i + 1 \<noteq> 0" by (metis add_eq_0_iff2 eq_neg_iff_add_eq_0)
  then show ?thesis by (metis add.commute unatSuc)
qed

lemma add_worker_result: "add_worker n = Some (Done n)"
proof -
  have "add_loop n i r = Some (Done (r + (n - i)))" if "i \<le> n" for i r
    using that
  proof (induction "unat n - unat i" arbitrary: i r rule: less_induct)
    case less
    show ?case
    proof (cases "i < n")
      case True
      then have lt: "unat i < unat n" by (simp add: word_less_nat_alt)
      have "i \<noteq> - 1" using True by (metis word_order.extremum_strict)
      from word_next [OF this] have "i + 1 \<le> n" "unat n - unat (i + 1) < unat n - unat i" using lt by (auto simp: word_le_nat_alt)
      from less.hyps [OF this(2,1), of "r + 1"] True show ?thesis by (subst add_loop.simps) simp
    next
      case False
      with less.prems have "i = n" by simp
      then show ?thesis by (subst add_loop.simps) simp
    qed
  qed
  from this [of 0 0] show ?thesis by (simp add: add_worker_def)
qed

lemma mul_worker_result:
  assumes "n \<noteq> - 1"
  shows "mul_worker n = Some (Done (of_nat (fact (unat n))))"
proof -
  have "mul_loop n i (of_nat (fact k)) = Some (Done (of_nat (fact (unat n))))"
    if "unat i = Suc k" "k \<le> unat n" for i k
    using that
  proof (induction "unat n - k" arbitrary: i k rule: less_induct)
    case less
    show ?case
    proof (cases "i \<le> n")
      case True
      have "i \<noteq> - 1" using True assms by (metis word_order.extremum_unique)
      note u = word_next [OF this]
      have "Suc k \<le> unat n" using True less.prems by (simp add: word_le_nat_alt)
      moreover have "of_nat (fact k) * i = (of_nat (fact (Suc k)) :: u64)"
      proof -
        have "i = of_nat (unat i)" by simp
        then have "i = of_nat (Suc k)" by (simp only: less.prems(1))
        then show ?thesis by (simp add: algebra_simps)
      qed
      ultimately show ?thesis using True less.hyps [of "Suc k" "i + 1"] u less.prems(1)
        by (subst mul_loop.simps) simp
    next
      case False
      with less.prems have "k = unat n" by (simp add: word_le_nat_alt)
      with False show ?thesis by (subst mul_loop.simps) simp
    qed
  qed
  from this [of 1 0] show ?thesis by (simp add: mul_worker_def)
qed

text \<open>With the greatest number of trials the multiplication never ends, and the division comes,
  after the counter has wrapped around, to a division by zero.\<close>

lemma mul_worker_endless: "mul_worker (- 1) = None"
proof -
  have "False" if "mul_loop n i r = Some x" "n = - 1" for n i r x
    using mul_loop.raw_induct [where P = "\<lambda>n i r x. n \<noteq> - 1", OF _ that(1)] that(2)
    by (metis (no_types, lifting) word_order.extremum)
  then show ?thesis by (cases "mul_worker (- 1)") (auto simp: mul_worker_def)
qed

lemma div_worker_crash: "div_worker (- 1) = Some Crash"
proof -
  have "div_loop (- 1) i r = Some Crash" for i r
  proof (induction "2 ^ 64 - unat i" arbitrary: i r rule: less_induct)
    case less
    show ?case
    proof (cases "i = 0")
      case True
      then show ?thesis by (subst div_loop.simps) simp
    next
      case False
      show ?thesis
      proof (cases "i + 1 = 0")
        case True
        with False show ?thesis by (subst div_loop.simps) (simp, subst div_loop.simps, simp)
      next
        case nz: False
        then have "i \<noteq> - 1" by auto
        from word_next [OF this] have "2 ^ 64 - unat (i + 1) < 2 ^ 64 - unat i"
          using unsigned_less [of i, where 'a = nat] by simp
        from less.hyps [OF this] False show ?thesis by (subst div_loop.simps) simp
      qed
    qed
  qed
  then show ?thesis by (simp add: div_worker_def)
qed

section \<open>The whole benchmark\<close>

fun work_of :: "act \<Rightarrow> nat" where
  "work_of (Work k) = unat k"
| "work_of x = 0"

definition work_done :: "act list \<Rightarrow> nat" where
  "work_done xs = sum_list (map work_of xs)"

definition barrier_waits :: "act list \<Rightarrow> nat" where
  "barrier_waits xs = length (filter (\<lambda>x. x = BarrierWait) xs)"

lemma count_simps [simp]:
  "work_done [] = 0" "work_done (x # xs) = work_of x + work_done xs" "work_done (xs @ ys) = work_done xs + work_done ys"
  "barrier_waits [] = 0" "barrier_waits (x # xs) = (if x = BarrierWait then 1 else 0) + barrier_waits xs"
  "barrier_waits (xs @ ys) = barrier_waits xs + barrier_waits ys"
  by (simp_all add: work_done_def barrier_waits_def)

lemma round_counts: "work_done (fst (sync_round ty t)) = 0" "barrier_waits (fst (sync_round ty t)) = (if ty = 2 then 3 else 1)"
  by (simp_all add: sync_round_def sync_default_def)

lemma rounds_counts:
  assumes "\<forall>n\<in>set ns. n < 2 ^ 64"
  shows "work_done (rounds ty t ns) = sum_list ns" and "barrier_waits (rounds ty t ns) = length ns * (if ty = 2 then 3 else 1)"
  using assms by (induction ns) (simp_all add: rounds_def round_counts unat_of_nat)

lemma thread_counts:
  assumes "bar_iters p \<noteq> 0"
  shows "work_done (thread_acts p a) = unat (thr_iters a) + unat (extra_trial a)"
    and "barrier_waits (thread_acts p a) =
      1 + (unat (thr_iters a) + unat (bar_iters p) - 1) div unat (bar_iters p) * (if sync_type p = 2 then 3 else 1)"
proof -
  have b: "0 < unat (bar_iters p)" using assms by (simp add: unat_gt_0)
  have "\<forall>n\<in>set (portions (unat (bar_iters p)) (unat (thr_iters a))). n < 2 ^ 64"
    using portions_bound [OF b] unsigned_less [of "thr_iters a"] by (auto intro: le_less_trans)
  note c = rounds_counts [OF this, of "sync_type p" "tidx a"]
  show "work_done (thread_acts p a) = unat (thr_iters a) + unat (extra_trial a)"
    using c(1) by (auto simp: thread_acts_def portions_sum [OF b])
  show "barrier_waits (thread_acts p a) =
      1 + (unat (thr_iters a) + unat (bar_iters p) - 1) div unat (bar_iters p) * (if sync_type p = 2 then 3 else 1)"
    using c(2) by (simp add: thread_acts_def portions_length [OF b])
qed

lemma thread_args_facts:
  assumes "unat e \<le> length ts"
  shows "length (thread_args q e ts) = length ts"
    and "(\<Sum>a\<leftarrow>thread_args q e ts. unat (thr_iters a) + unat (extra_trial a)) = length ts * unat q + unat e"
    and "\<forall>a\<in>set (thread_args q e ts). thr_iters a = q"
proof -
  have "length (thread_args q e ts) = length ts \<and>
      (\<Sum>a\<leftarrow>thread_args q e ts. unat (thr_iters a) + unat (extra_trial a)) = length ts * unat q + unat e \<and>
      (\<forall>a\<in>set (thread_args q e ts). thr_iters a = q)"
    using assms
  proof (induction ts arbitrary: e)
    case (Cons t ts)
    show ?case
    proof (cases "0 < e")
      case True
      then have "unat (e - 1) = unat e - 1" "0 < unat e" by (simp_all add: unat_minus_one unat_gt_0)
      with Cons.IH [of "e - 1"] Cons.prems True show ?thesis by auto
    next
      case False
      with Cons.IH [of 0] show ?thesis by (auto simp: word_gt_0)
    qed
  qed simp
  then show "length (thread_args q e ts) = length ts"
    and "(\<Sum>a\<leftarrow>thread_args q e ts. unat (thr_iters a) + unat (extra_trial a)) = length ts * unat q + unat e"
    and "\<forall>a\<in>set (thread_args q e ts). thr_iters a = q" by blast+
qed

lemma main_threads_facts:
  assumes "0 < thr_cnt p" and "thr_cnt p \<le> MAX_THREADS"
  shows "length (main_threads p) = nat (thr_cnt p)"
    and "(\<Sum>a\<leftarrow>main_threads p. unat (thr_iters a) + unat (extra_trial a)) = unat (total_iters p)"
    and "\<forall>a\<in>set (main_threads p). unat (thr_iters a) = unat (total_iters p) div nat (thr_cnt p)"
proof -
  let ?c = "nat (thr_cnt p)" and ?n = "word_of_int (thr_cnt p) :: u64"
  have n: "unat ?n = ?c"
    using assms by (simp add: MAX_THREADS_def unsigned_of_int take_bit_int_eq_self)
  have q: "unat (total_iters p div ?n) = unat (total_iters p) div ?c" "unat (total_iters p mod ?n) = unat (total_iters p) mod ?c"
    using n by (simp_all add: unat_div unat_mod)
  have "unat (total_iters p mod ?n) \<le> length (map int [0..<?c])"
    using q(2) assms(1) by (simp add: less_imp_le)
  note t = thread_args_facts [OF this, of "total_iters p div ?n"]
  show "length (main_threads p) = ?c" using t(1) by (simp add: main_threads_def Let_def)
  show "(\<Sum>a\<leftarrow>main_threads p. unat (thr_iters a) + unat (extra_trial a)) = unat (total_iters p)"
    using t(2) q by (simp add: main_threads_def Let_def)
  show "\<forall>a\<in>set (main_threads p). unat (thr_iters a) = unat (total_iters p) div ?c"
    using t(3) q(1) by (simp add: main_threads_def Let_def)
qed

lemma benchmark_results:
  assumes "check_parameters p = Inr p" and "0 < thr_cnt p" and "total_worker func"
    and "unat (total_iters p) div nat (thr_cnt p) + unat (bar_iters p) \<le> 2 ^ 64"
  shows "\<exists>res. \<forall>a\<in>set (main_threads p). thread_func func p a = Some (Done (res a)) \<and> acts (res a) = thread_acts p a"
proof -
  have ok: "bar_iters p \<noteq> 0" "thr_cnt p \<le> MAX_THREADS"
    using assms(1) by (auto simp: check_parameters_def split: if_splits)
  note m = main_threads_facts [OF assms(2) ok(2)]
  have "\<exists>r. thread_func func p a = Some (Done r) \<and> acts r = thread_acts p a" if "a \<in> set (main_threads p)" for a
  proof -
    have "unat (thr_iters a) + unat (bar_iters p) \<le> 2 ^ 64" using m(3) that assms(4) by simp
    from thread_result [OF assms(3) ok(1) this] show ?thesis by blast
  qed
  then show ?thesis by metis
qed

text \<open>C38: a benchmark with accepted parameters, a positive number of threads, a worker function that
  returns for every number of trials and counters that do not wrap around (the iterations of a
  thread and those between two barriers are together at most 2^64) runs to its end in every
  thread: together the threads have called the worker function
  for exactly the given number of iterations, and every thread has waited at the barrier
  equally often, once at the start and once for every round, or three times with the
  synchronization type 2.\<close>

theorem sync_benchmark_complete:
  assumes "check_parameters p = Inr p" and "0 < thr_cnt p" and "total_worker func"
    and "unat (total_iters p) div nat (thr_cnt p) + unat (bar_iters p) \<le> 2 ^ 64"
  shows "\<exists>rs. benchmark func p = map (\<lambda>r. Some (Done r)) rs \<and>
    (\<Sum>r\<leftarrow>rs. work_done (acts r)) = unat (total_iters p) \<and>
    map (\<lambda>r. barrier_waits (acts r)) rs = replicate (nat (thr_cnt p))
      (1 + (unat (total_iters p) div nat (thr_cnt p) + unat (bar_iters p) - 1) div unat (bar_iters p) *
        (if sync_type p = 2 then 3 else 1))"
proof -
  have ok: "bar_iters p \<noteq> 0" "thr_cnt p \<le> MAX_THREADS"
    using assms(1) by (auto simp: check_parameters_def split: if_splits)
  note m = main_threads_facts [OF assms(2) ok(2)]
  from benchmark_results [OF assms] obtain res where
    res: "\<forall>a\<in>set (main_threads p). thread_func func p a = Some (Done (res a)) \<and> acts (res a) = thread_acts p a" by blast
  show ?thesis
  proof (intro exI [of _ "map res (main_threads p)"] conjI)
    show "benchmark func p = map (\<lambda>r. Some (Done r)) (map res (main_threads p))"
      using res by (simp add: benchmark_def)
    have "(\<Sum>r\<leftarrow>map res (main_threads p). work_done (acts r)) = (\<Sum>a\<leftarrow>main_threads p. unat (thr_iters a) + unat (extra_trial a))"
      using res thread_counts(1) [OF ok(1)] by (simp add: comp_def cong: map_cong)
    then show "(\<Sum>r\<leftarrow>map res (main_threads p). work_done (acts r)) = unat (total_iters p)" using m(2) by simp
    show "map (\<lambda>r. barrier_waits (acts r)) (map res (main_threads p)) = replicate (nat (thr_cnt p))
      (1 + (unat (total_iters p) div nat (thr_cnt p) + unat (bar_iters p) - 1) div unat (bar_iters p) *
        (if sync_type p = 2 then 3 else 1))"
      using res thread_counts(2) [OF ok(1)] m(1,3)
      by (intro replicate_eqI) (auto simp: comp_def)
  qed
qed

text \<open>Ten iterations by three threads, two between two barriers, with the condition variable.\<close>

definition small_params :: cmd_params where
  "small_params = init_parameters\<lparr>thr_cnt := 3, core_cnt := 1, total_iters := 10, bar_iters := 2,
     lib_name := Some ''libsyncworker.so'', func_name := Some ''add_worker'', sync_type := 2\<rparr>"

theorem sync_benchmark_complete_witness:
  "check_parameters small_params = Inr small_params \<and>
   (\<exists>rs. benchmark add_worker small_params = map (\<lambda>r. Some (Done r)) rs \<and>
      (\<Sum>r\<leftarrow>rs. work_done (acts r)) = 10 \<and> map (\<lambda>r. barrier_waits (acts r)) rs = [7, 7, 7])"
proof -
  have c: "check_parameters small_params = Inr small_params"
    by (simp add: check_parameters_def small_params_def init_parameters_def MAX_THREADS_def)
  have t: "total_worker add_worker" by (simp add: total_worker_def add_worker_result)
  have v: "thr_cnt small_params = 3" "total_iters small_params = 10" "bar_iters small_params = 2" "sync_type small_params = 2"
    by (simp_all add: small_params_def init_parameters_def)
  have n: "1 + (10 div 3 + 2 - 1) div 2 * 3 = (7 :: nat)" "replicate 3 (7 :: nat) = [7, 7, 7]" by (simp, simp add: numeral_eq_Suc)
  from sync_benchmark_complete [OF c _ t] c show ?thesis by (simp add: v n)
qed

end
