(* ===== verification/Sync_System.thy ===== *)
theory Sync_System imports Sync_Test_Props Barrier_Spec Cond_Spec begin

text \<open>
  The threads of the benchmark together. What each of them does is the list of Sync_Test; the
  barrier, the mutexes and the condition variable they share are the abstract barrier and the
  abstract monitor, which the objects of src/fastsync refine and POSIX describes. The invariant
  says where each thread stands in its list, for every synchronization type.
\<close>

section \<open>The system\<close>

text \<open>
  Mutex 0 is \<open>mtx\<close>, mutex 1 \<open>cond_mtx\<close>, condition variable 0 \<open>all_start\<close> and \<open>start_flag\<close> the
  member \<open>all_start\<close> of the parameters, which main sets when all threads are created
  (\<open>started\<close>). \<open>telling t\<close>: thread t is inside its broadcast, between the announcement and the
  wake-up of the sleepers. The increment of \<open>critical_counter\<close> is not atomic: a thread loads the
  value (\<open>loaded\<close>) and then stores its successor.
\<close>

record bench =
  width :: nat
  todo :: "tid \<Rightarrow> act list"
  point :: meeting
  objects :: monitor
  start_flag :: int
  started :: bool
  telling :: "tid \<Rightarrow> bool"
  counter :: u64
  loaded :: "tid \<Rightarrow> u64 option"

definition bench_init :: "worker_func \<Rightarrow> cmd_params \<Rightarrow> bench \<Rightarrow> bool" where
  "bench_init func p s \<longleftrightarrow> width s = length (main_threads p) \<and>
     (\<forall>t. if t < width s then \<exists>r. thread_func func p (main_threads p ! t) = Some (Done r) \<and> todo s t = acts r
          else todo s t = []) \<and>
     meeting_init (point s) \<and> (\<forall>t u. meets (point s) t u \<longleftrightarrow> t < width s \<and> u < width s) \<and>
     monitor_init (objects s) \<and> start_flag s = 0 \<and> \<not> started s \<and> (\<forall>t. \<not> telling s t) \<and>
     counter s = 0 \<and> (\<forall>t. loaded s t = None)"

definition next_act :: "tid \<Rightarrow> act list \<Rightarrow> bench \<Rightarrow> bench" where
  "next_act t xs s = s\<lparr>todo := (todo s)(t := xs)\<rparr>"

text \<open>The mutex operations; the steps of \<open>AwaitCond\<close>, which tests the flag, waits while it is 0
  and comes back to the test.\<close>

fun mutex_act :: "tid \<Rightarrow> act \<Rightarrow> monitor_act option" where
  "mutex_act t LockMutex = Some (Takes t 0)"
| "mutex_act t UnlockMutex = Some (Gives t 0)"
| "mutex_act t LockCond = Some (Takes t 1)"
| "mutex_act t UnlockCond = Some (Gives t 1)"
| "mutex_act t x = None"

definition wait_acts :: "bench \<Rightarrow> tid \<Rightarrow> monitor_act set" where
  "wait_acts s t = (if waiters (objects s) t = None then (if start_flag s = 0 then {Joins t 0 1} else {})
     else {Gives t 1, Sleeps t, Stays t, Comes t 1})"

text \<open>\<open>Disturb\<close> is a wait that returns although nobody has signalled.\<close>

datatype bench_event = Start | By tid | Disturb tid

inductive bench_step :: "bench \<Rightarrow> bench_event \<Rightarrow> bench \<Rightarrow> bool" where
  start: "\<not> started s \<Longrightarrow> bench_step s Start (s\<lparr>start_flag := 1, started := True\<rparr>)"
| arrive: "todo s t = BarrierWait # xs \<Longrightarrow> meeting_step (point s) (Arrive t) a \<Longrightarrow>
     bench_step s (By t) (s\<lparr>point := a\<rparr>)"
| leave: "todo s t = BarrierWait # xs \<Longrightarrow> meeting_step (point s) (Leave t) a \<Longrightarrow>
     bench_step s (By t) (next_act t xs (s\<lparr>point := a\<rparr>))"
| await_start: "todo s t = AwaitStart # xs \<Longrightarrow> start_flag s \<noteq> 0 \<Longrightarrow> bench_step s (By t) (next_act t xs s)"
| work: "todo s t = Work k # xs \<Longrightarrow> bench_step s (By t) (next_act t xs s)"
| count_load: "todo s t = CountCritical # xs \<Longrightarrow> loaded s t = None \<Longrightarrow>
     bench_step s (By t) (s\<lparr>loaded := (loaded s)(t := Some (counter s))\<rparr>)"
| count_store: "todo s t = CountCritical # xs \<Longrightarrow> loaded s t = Some v \<Longrightarrow>
     bench_step s (By t) (next_act t xs (s\<lparr>counter := v + 1, loaded := (loaded s)(t := None)\<rparr>))"
| set_start: "todo s t = SetStart v # xs \<Longrightarrow> bench_step s (By t) (next_act t xs (s\<lparr>start_flag := v\<rparr>))"
| mutex: "todo s t = x # xs \<Longrightarrow> mutex_act t x = Some e \<Longrightarrow> monitor_step (objects s) e b \<Longrightarrow>
     bench_step s (By t) (next_act t xs (s\<lparr>objects := b\<rparr>))"
| flag_set: "todo s t = AwaitCond # xs \<Longrightarrow> waiters (objects s) t = None \<Longrightarrow> start_flag s \<noteq> 0 \<Longrightarrow>
     bench_step s (By t) (next_act t xs s)"
| flag_wait: "todo s t = AwaitCond # xs \<Longrightarrow> e \<in> wait_acts s t \<Longrightarrow> monitor_step (objects s) e b \<Longrightarrow>
     bench_step s (By t) (s\<lparr>objects := b\<rparr>)"
| announce: "todo s t = BroadcastStart # xs \<Longrightarrow> \<not> telling s t \<Longrightarrow> monitor_step (objects s) (Announces 0) b \<Longrightarrow>
     bench_step s (By t) (s\<lparr>objects := b, telling := (telling s)(t := True)\<rparr>)"
| notify: "todo s t = BroadcastStart # xs \<Longrightarrow> telling s t \<Longrightarrow> monitor_step (objects s) (NotifiesAll 0) b \<Longrightarrow>
     bench_step s (By t) (next_act t xs (s\<lparr>objects := b, telling := (telling s)(t := False)\<rparr>))"
| disturb: "monitor_step (objects s) (Interrupts u) b \<Longrightarrow> bench_step s (Disturb u) (s\<lparr>objects := b\<rparr>)"

section \<open>The plan of a thread\<close>

text \<open>
  The list of a thread is cut at the barriers; before the first one there is nothing. With the
  synchronization type 1 every part but the last ends with the counting, with the type 2 the
  part after the i-th barrier is work, the reset of the flag (\<open>i mod 3 = 2\<close>) or its setting and
  the waits for it (\<open>i mod 3 = 0\<close>).
\<close>

definition count_part :: "act list" where
  "count_part = [LockMutex, CountCritical, UnlockMutex]"

definition reset_part :: "tid \<Rightarrow> act list" where
  "reset_part t = (if t = 0 then [SetStart 0] else [])"

definition wait_part :: "tid \<Rightarrow> act list" where
  "wait_part t = (if t = 0 then [LockCond, SetStart 1, UnlockCond, BroadcastStart] else [LockCond, AwaitCond, UnlockCond])"

fun plan :: "int \<Rightarrow> tid \<Rightarrow> act list \<Rightarrow> nat list \<Rightarrow> act list \<Rightarrow> act list list" where
  "plan ty t pre [] e = [pre @ e]"
| "plan ty t pre (n # ns) e =
     (if ty = 2 then (pre @ [Work (of_nat n)]) # reset_part t # wait_part t # plan ty t [] ns e
      else (pre @ [Work (of_nat n)] @ (if ty = 1 then count_part else [])) # plan ty t [] ns e)"

definition join_parts :: "act list \<Rightarrow> act list list \<Rightarrow> act list" where
  "join_parts cur qs = cur @ concat (map (Cons BarrierWait) qs)"

lemma join_simps [simp]:
  "join_parts (x # cur) qs = x # join_parts cur qs"
  "join_parts [] (q # qs) = BarrierWait # join_parts q qs" "join_parts [] [] = []"
  by (simp_all add: join_parts_def)

lemma sync_round_parts:
  "fst (sync_round ty (int t)) = (if ty = 2 then BarrierWait # reset_part t @ BarrierWait # wait_part t @ [BarrierWait]
     else (if ty = 1 then count_part else []) @ [BarrierWait])"
  by (simp add: sync_round_def sync_default_def reset_part_def wait_part_def count_part_def)

lemma plan_not_Nil [simp]: "plan ty t pre ns e \<noteq> []"
  by (cases ns) simp_all

lemma plan_join: "join_parts (hd (plan ty t pre ns e)) (tl (plan ty t pre ns e)) = pre @ rounds ty (int t) ns @ e"
proof (induction ns arbitrary: pre)
  case (Cons n ns)
  have "concat (map (Cons BarrierWait) (plan ty t [] ns e)) = BarrierWait # rounds ty (int t) ns @ e"
    using Cons.IH [of "[]"] by (cases "plan ty t [] ns e") (simp_all add: join_parts_def)
  then show ?case by (cases "ty = 2") (simp_all add: join_parts_def rounds_def sync_round_parts)
qed (simp add: join_parts_def rounds_def)

definition segments :: "int \<Rightarrow> tid \<Rightarrow> nat list \<Rightarrow> act list \<Rightarrow> act list list" where
  "segments ty t ns e = [] # plan ty t [AwaitStart] ns e"

lemma segments_join:
  "join_parts [] (plan ty t [AwaitStart] ns e) = [BarrierWait, AwaitStart] @ rounds ty (int t) ns @ e"
  using plan_join [of ty t "[AwaitStart]" ns e] by (cases "plan ty t [AwaitStart] ns e") simp_all

lemma plan_length: "length (plan ty t pre ns e) = Suc ((if ty = 2 then 3 else 1) * length ns)"
  by (induction ns arbitrary: pre; cases "ty = 2") simp_all

text \<open>Where a thread may stand after i barriers.\<close>

fun suffixes_of :: "'a list \<Rightarrow> 'a list set" where
  "suffixes_of [] = {[]}"
| "suffixes_of (x # xs) = insert (x # xs) (suffixes_of xs)"

fun works :: "nat \<Rightarrow> act \<Rightarrow> bool" where
  "works i (Work k) \<longleftrightarrow> True"
| "works i AwaitStart \<longleftrightarrow> i = 1"
| "works i x \<longleftrightarrow> False"

fun work_part :: "act list set \<Rightarrow> nat \<Rightarrow> act list \<Rightarrow> bool" where
  "work_part cs i [] \<longleftrightarrow> [] \<in> cs"
| "work_part cs i (x # xs) \<longleftrightarrow> x # xs \<in> cs \<or> works i x \<and> work_part cs i xs"

definition reset_at :: "int \<Rightarrow> nat \<Rightarrow> bool" where
  "reset_at ty i \<longleftrightarrow> ty = 2 \<and> i mod 3 = 2"

definition wait_at :: "int \<Rightarrow> nat \<Rightarrow> bool" where
  "wait_at ty i \<longleftrightarrow> ty = 2 \<and> i \<noteq> 0 \<and> i mod 3 = 0"

definition in_work :: "nat \<Rightarrow> act list \<Rightarrow> bool" where
  "in_work i xs \<longleftrightarrow> xs \<in> suffixes_of count_part \<or> work_part {[], count_part} i xs"

definition stands :: "int \<Rightarrow> tid \<Rightarrow> nat \<Rightarrow> act list \<Rightarrow> bool" where
  "stands ty t i xs \<longleftrightarrow> (if reset_at ty i then xs \<in> suffixes_of (reset_part t)
     else if wait_at ty i then xs \<in> suffixes_of (wait_part t) else in_work i xs)"

definition full_part :: "int \<Rightarrow> tid \<Rightarrow> nat \<Rightarrow> act list \<Rightarrow> bool" where
  "full_part ty t i xs \<longleftrightarrow> (if reset_at ty i then xs = reset_part t else if wait_at ty i then xs = wait_part t
     else work_part {[], count_part} i xs)"

lemma suffixes_self [simp]: "xs \<in> suffixes_of xs" "[] \<in> suffixes_of xs"
  by (cases xs, simp_all, induction xs, simp_all)

lemma work_part_append: "(\<forall>x\<in>set ws. works i x) \<Longrightarrow> c \<in> cs \<Longrightarrow> work_part cs i (ws @ c)"
proof (induction ws)
  case Nil
  then show ?case by (cases c) simp_all
qed simp

lemma full_stands: "full_part ty t i xs \<Longrightarrow> stands ty t i xs"
  by (auto simp: full_part_def stands_def in_work_def)

lemma suffixes_tl: "x # xs \<in> suffixes_of ys \<Longrightarrow> xs \<in> suffixes_of ys"
  by (induction ys) auto

lemma stands_tl: "stands ty t i (x # xs) \<Longrightarrow> stands ty t i xs"
  using suffixes_tl [of x xs count_part] by (auto simp: stands_def in_work_def dest: suffixes_tl split: if_splits)

lemma plan_full:
  assumes "\<forall>x\<in>set e. works 0 x" and "i < length (plan ty t pre ns e)" and "\<forall>x\<in>set pre. works (Suc k) x" and "ty = 2 \<longrightarrow> 3 dvd k"
  shows "full_part ty t (Suc k + i) (plan ty t pre ns e ! i)"
  using assms(2-4)
proof (induction ns arbitrary: i pre k)
  case Nil
  have "\<not> reset_at ty (Suc k)" "\<not> wait_at ty (Suc k)"
    using Nil.prems(3) by (auto simp: reset_at_def wait_at_def dvd_def mod_Suc)
  moreover have "works i x" if "works 0 x" for x i using that by (cases x) simp_all
  ultimately show ?case using Nil.prems assms(1) work_part_append [of "pre @ e" "Suc k" "[]" "{[], count_part}"]
    by (auto simp: full_part_def)
next
  case (Cons n ns)
  have here: "full_part ty t (Suc k) (pre @ Work (of_nat n) # c)" if "\<not> reset_at ty (Suc k)" "\<not> wait_at ty (Suc k)" "c \<in> {[], count_part}" for c
    using that Cons.prems(2) work_part_append [of "pre @ [Work (of_nat n)]" "Suc k" c "{[], count_part}"]
    by (auto simp: full_part_def)
  show ?case
  proof (cases "ty = 2")
    case True
    then have k: "\<not> reset_at ty (Suc k)" "\<not> wait_at ty (Suc k)" "reset_at ty (Suc (Suc k))" "wait_at ty (Suc (Suc (Suc k)))"
      "\<not> reset_at ty (Suc (Suc (Suc k)))"
      using Cons.prems(3) by (auto simp: reset_at_def wait_at_def dvd_def mod_Suc)
    consider "i = 0" | "i = 1" | "i = 2" | j where "i = Suc (Suc (Suc j))"
      by (metis One_nat_def Suc_1 not0_implies_Suc)
    then show ?thesis
    proof cases
      case 1
      with True here [OF k(1,2), of "[]"] show ?thesis by simp
    next
      case 4
      have "3 dvd Suc (Suc (Suc k))" using Cons.prems(3) True by presburger
      with 4 True Cons.prems Cons.IH [of j "[]" "Suc (Suc (Suc k))"] show ?thesis by simp
    qed (use k True in \<open>simp_all add: full_part_def\<close>)
  next
    case False
    then have k: "\<not> reset_at ty (Suc k)" "\<not> wait_at ty (Suc k)" by (simp_all add: reset_at_def wait_at_def)
    show ?thesis
    proof (cases i)
      case 0
      with False here [OF k, of "if ty = 1 then count_part else []"] show ?thesis by simp
    next
      case (Suc j)
      with False Cons.prems Cons.IH [of j "[]" "Suc k"] show ?thesis by simp
    qed
  qed
qed

lemma segments_full:
  assumes "\<forall>x\<in>set e. works 0 x" and "i < length (segments ty t ns e)"
  shows "full_part ty t i (segments ty t ns e ! i)"
proof (cases i)
  case 0
  then show ?thesis by (simp add: segments_def full_part_def reset_at_def wait_at_def)
next
  case (Suc j)
  with plan_full [OF assms(1), of j ty t "[AwaitStart]" ns 0] assms(2) show ?thesis by (simp add: segments_def)
qed

section \<open>The invariant\<close>

text \<open>
  \<open>cur t\<close> is what thread t still has to do before its next barrier. A waiter that sleeps, or
  will go to sleep, has the broadcast of thread 0 ahead; the flag is 0 before main has set it
  and between the two settings of thread 0.
\<close>

abbreviation passed :: "bench \<Rightarrow> tid \<Rightarrow> nat" where "passed s t \<equiv> left (point s) t"

definition plan_ok :: "int \<Rightarrow> nat \<Rightarrow> (tid \<Rightarrow> act list list) \<Rightarrow> nat \<Rightarrow> bool" where
  "plan_ok ty N SF n \<longleftrightarrow> \<not> wait_at ty N \<and> 0 < n \<and> (\<forall>t<n. length (SF t) = Suc N \<and> (\<forall>i\<le>N. full_part ty t i (SF t ! i)) \<and>
     SF t ! 0 = [] \<and> (\<exists>xs. SF t ! 1 = AwaitStart # xs))"

definition placed :: "int \<Rightarrow> nat \<Rightarrow> (tid \<Rightarrow> act list list) \<Rightarrow> (tid \<Rightarrow> act list) \<Rightarrow> bench \<Rightarrow> tid \<Rightarrow> bool" where
  "placed ty N SF cur s t \<longleftrightarrow> (if t < width s then
     todo s t = join_parts (cur t) (drop (Suc (passed s t)) (SF t)) \<and> passed s t \<le> N \<and> stands ty t (passed s t) (cur t) \<and>
     (arrived (point s) t = passed s t \<or> arrived (point s) t = Suc (passed s t) \<and> cur t = [] \<and> passed s t < N)
     else todo s t = [] \<and> cur t = [])"

definition together :: "bench \<Rightarrow> bool" where
  "together s \<longleftrightarrow> (\<forall>t u. meets (point s) t u \<longleftrightarrow> t < width s \<and> u < width s) \<and>
     (\<forall>t u. t < width s \<longrightarrow> u < width s \<longrightarrow> passed s t \<le> arrived (point s) u)"

fun critical :: "act list \<Rightarrow> waiter option \<Rightarrow> bool" where
  "critical (SetStart v # xs) w \<longleftrightarrow> v = 1"
| "critical (UnlockCond # xs) w \<longleftrightarrow> True"
| "critical (AwaitCond # xs) w \<longleftrightarrow> w = None"
| "critical xs w \<longleftrightarrow> False"

fun leaving :: "act list \<Rightarrow> waiter option \<Rightarrow> bool" where
  "leaving (AwaitCond # xs) (Some (Leaving c m k)) \<longleftrightarrow> True"
| "leaving xs w \<longleftrightarrow> False"

fun counting :: "act list \<Rightarrow> bool" where
  "counting (CountCritical # xs) \<longleftrightarrow> True"
| "counting (UnlockMutex # xs) \<longleftrightarrow> True"
| "counting xs \<longleftrightarrow> False"

definition lock_ok :: "(tid \<Rightarrow> act list) \<Rightarrow> bench \<Rightarrow> tid \<Rightarrow> bool" where
  "lock_ok cur s t \<longleftrightarrow> (critical (cur t) (waiters (objects s) t) \<longrightarrow> owner (objects s) 1 = Some t) \<and>
     (owner (objects s) 1 = Some t \<longrightarrow> t < width s \<and>
       (critical (cur t) (waiters (objects s) t) \<or> leaving (cur t) (waiters (objects s) t)))"

definition count_ok :: "(tid \<Rightarrow> act list) \<Rightarrow> bench \<Rightarrow> tid \<Rightarrow> bool" where
  "count_ok cur s t \<longleftrightarrow> (owner (objects s) 0 = Some t \<longleftrightarrow> counting (cur t)) \<and>
     (\<forall>v. loaded s t = Some v \<longrightarrow> v = counter s \<and> (\<exists>xs. cur t = CountCritical # xs))"

definition ahead :: "(tid \<Rightarrow> act list) \<Rightarrow> bench \<Rightarrow> tid \<Rightarrow> bool" where
  "ahead cur s t \<longleftrightarrow> passed s 0 < passed s t \<or> passed s 0 = passed s t \<and> BroadcastStart \<in> set (cur 0)"

fun waiter_ok :: "(tid \<Rightarrow> act list) \<Rightarrow> bench \<Rightarrow> tid \<Rightarrow> waiter \<Rightarrow> bool" where
  "waiter_ok cur s t (Leaving c m k) \<longleftrightarrow> c = 0 \<and> m = 1 \<and>
     (k = 0 \<and> ahead cur s t \<and> \<not> (passed s 0 = passed s t \<and> telling s 0) \<or>
      k = 1 \<and> passed s 0 = passed s t \<and> (telling s 0 \<or> BroadcastStart \<notin> set (cur 0)))"
| "waiter_ok cur s t (Sleeping c m) \<longleftrightarrow> c = 0 \<and> m = 1 \<and> ahead cur s t \<and> owner (objects s) 1 \<noteq> Some t"
| "waiter_ok cur s t (Woken m) \<longleftrightarrow> m = 1 \<and> owner (objects s) 1 \<noteq> Some t"

definition waits_ok :: "(tid \<Rightarrow> act list) \<Rightarrow> bench \<Rightarrow> tid \<Rightarrow> bool" where
  "waits_ok cur s t \<longleftrightarrow> (\<forall>w. waiters (objects s) t = Some w \<longrightarrow>
     t < width s \<and> t \<noteq> 0 \<and> cur t = [AwaitCond, UnlockCond] \<and> waiter_ok cur s t w)"

definition zero_window :: "int \<Rightarrow> (tid \<Rightarrow> act list) \<Rightarrow> bench \<Rightarrow> bool" where
  "zero_window ty cur s \<longleftrightarrow> reset_at ty (passed s 0) \<and> cur 0 = [] \<or> wait_at ty (passed s 0) \<and> SetStart 1 \<in> set (cur 0)"

definition flag_ok :: "int \<Rightarrow> (tid \<Rightarrow> act list) \<Rightarrow> bench \<Rightarrow> bool" where
  "flag_ok ty cur s \<longleftrightarrow> (start_flag s = 0 \<longleftrightarrow> \<not> started s \<or> zero_window ty cur s) \<and>
     (\<not> started s \<longrightarrow> (\<forall>t < width s. passed s t = 0 \<and> cur t = [] \<or> passed s t = 1 \<and> (\<exists>xs. cur t = AwaitStart # xs)))"

definition tell_ok :: "(tid \<Rightarrow> act list) \<Rightarrow> bench \<Rightarrow> bool" where
  "tell_ok cur s \<longleftrightarrow> (\<forall>t. telling s t \<longrightarrow> t = 0 \<and> cur 0 = [BroadcastStart])"

definition bench_ok :: "int \<Rightarrow> nat \<Rightarrow> (tid \<Rightarrow> act list list) \<Rightarrow> (tid \<Rightarrow> act list) \<Rightarrow> bench \<Rightarrow> bool" where
  "bench_ok ty N SF cur s \<longleftrightarrow> plan_ok ty N SF (width s) \<and> together s \<and> flag_ok ty cur s \<and> tell_ok cur s \<and>
     (\<forall>t. placed ty N SF cur s t \<and> lock_ok cur s t \<and> count_ok cur s t \<and> waits_ok cur s t)"

lemma bench_okD:
  assumes "bench_ok ty N SF cur s"
  shows "plan_ok ty N SF (width s)" "together s" "flag_ok ty cur s" "tell_ok cur s"
    "placed ty N SF cur s t" "lock_ok cur s t" "waits_ok cur s t" "count_ok cur s t"
  using assms by (simp_all add: bench_ok_def)

text \<open>The place of a thread in its plan.\<close>

lemma count_suffixes: "suffixes_of count_part = {count_part, [CountCritical, UnlockMutex], [UnlockMutex], []}"
  by (auto simp: count_part_def)

lemma work_part_set: "work_part {[], count_part} i xs \<Longrightarrow> x \<in> set xs \<Longrightarrow> works i x \<or> x \<in> {LockMutex, CountCritical, UnlockMutex}"
  by (induction xs) (auto simp: count_part_def)

lemma in_work_set: "in_work i xs \<Longrightarrow> x \<in> set xs \<Longrightarrow> works i x \<or> x \<in> {LockMutex, CountCritical, UnlockMutex}"
proof -
  assume "in_work i xs" "x \<in> set xs"
  then have "xs \<in> suffixes_of count_part \<or> (works i x \<or> x \<in> {LockMutex, CountCritical, UnlockMutex})"
    using work_part_set by (auto simp: in_work_def)
  with \<open>x \<in> set xs\<close> show ?thesis by (auto simp: count_suffixes count_part_def)
qed

lemma head_place:
  assumes "placed ty N SF cur s t" and "todo s t = x # xs" and "plan_ok ty N SF (width s)"
  shows "t < width s" and "x = BarrierWait \<Longrightarrow> cur t = [] \<and> passed s t < N \<and>
      xs = join_parts (SF t ! Suc (passed s t)) (drop (Suc (Suc (passed s t))) (SF t))"
    and "x \<noteq> BarrierWait \<Longrightarrow> \<exists>ys. cur t = x # ys \<and> xs = join_parts ys (drop (Suc (passed s t)) (SF t)) \<and>
      stands ty t (passed s t) (x # ys) \<and> arrived (point s) t = passed s t"
proof -
  show t: "t < width s" using assms(1,2) by (auto simp: placed_def split: if_splits)
  then have p: "todo s t = join_parts (cur t) (drop (Suc (passed s t)) (SF t))" "passed s t \<le> N"
      "stands ty t (passed s t) (cur t)" "length (SF t) = Suc N"
    using assms(1,3) by (auto simp: placed_def plan_ok_def)
  have no: "BarrierWait \<notin> set (cur t)"
    using p(3) in_work_set [of _ _ BarrierWait] by (auto simp: stands_def reset_part_def wait_part_def split: if_splits)
  show "cur t = [] \<and> passed s t < N \<and> xs = join_parts (SF t ! Suc (passed s t)) (drop (Suc (Suc (passed s t))) (SF t))"
    if "x = BarrierWait"
  proof -
    have nil: "cur t = []" using p(1) assms(2) no that by (cases "cur t") auto
    with p(1) assms(2) have "drop (Suc (passed s t)) (SF t) \<noteq> []" by auto
    then have "Suc (passed s t) < length (SF t)" by simp
    from Cons_nth_drop_Suc [OF this] p nil assms(2) this show ?thesis by (metis Suc_less_eq join_simps(2) list.inject)
  qed
  show "\<exists>ys. cur t = x # ys \<and> xs = join_parts ys (drop (Suc (passed s t)) (SF t)) \<and>
      stands ty t (passed s t) (x # ys) \<and> arrived (point s) t = passed s t" if "x \<noteq> BarrierWait"
  proof (cases "cur t")
    case Nil
    with p(1) assms(2) that show ?thesis by (cases "drop (Suc (passed s t)) (SF t)") simp_all
  next
    case (Cons y ys)
    with p assms(1,2) t show ?thesis by (auto simp: placed_def)
  qed
qed

end
