(* ===== verification/Sync_Work.thy ===== *)
theory Sync_Work imports Sync_System begin

text \<open>
  Steps of the benchmark within the parts without the condition variable: work, the start, and
  the critical section around the counter. They keep the invariant of Sync_System.
\<close>

lemma next_act_simps [simp]:
  "width (next_act t xs s) = width s" "todo (next_act t xs s) = (todo s)(t := xs)" "point (next_act t xs s) = point s"
  "objects (next_act t xs s) = objects s" "start_flag (next_act t xs s) = start_flag s"
  "started (next_act t xs s) = started s" "telling (next_act t xs s) = telling s"
  "counter (next_act t xs s) = counter s" "loaded (next_act t xs s) = loaded s"
  by (simp_all add: next_act_def)

lemma work_facts:
  assumes "in_work i xs"
  shows "\<not> critical xs w" "\<not> leaving xs w" "BroadcastStart \<notin> set xs" "SetStart v \<notin> set xs" "AwaitCond \<notin> set xs"
  using in_work_set [OF assms] by (fastforce elim!: critical.elims leaving.elims)+

definition working :: "act \<Rightarrow> bool" where
  "working x \<longleftrightarrow> (\<exists>k. x = Work k) \<or> x \<in> {AwaitStart, LockMutex, CountCritical, UnlockMutex}"

lemma stands_work:
  assumes "stands ty t i (x # xs)" and "working x"
  shows "\<not> reset_at ty i" "\<not> wait_at ty i" "in_work i (x # xs)" "in_work i xs"
    "x = LockMutex \<Longrightarrow> xs = [CountCritical, UnlockMutex]" "x = CountCritical \<Longrightarrow> xs = [UnlockMutex]"
    "x = UnlockMutex \<Longrightarrow> xs = []" "works i x \<Longrightarrow> \<not> counting xs"
  using assms stands_tl [OF assms(1)]
  by (auto simp: working_def stands_def reset_part_def wait_part_def in_work_def count_suffixes count_part_def
      elim!: counting.elims split: if_splits)

lemma started_work:
  assumes "flag_ok ty cur s" and "t < width s" and "cur t = x # ys" and "x = AwaitStart \<longrightarrow> start_flag s \<noteq> 0"
  shows "started s"
  using assms by (auto simp: flag_ok_def)

text \<open>A step within a work part. What it does to the counter and its mutex comes first.\<close>

lemma bench_work:
  assumes ok: "bench_ok ty N SF cur s" and td: "todo s t = x # xs" and x: "working x"
    and st: "x = AwaitStart \<longrightarrow> start_flag s \<noteq> 0"
    and s1: "width s1 = width s" "todo s1 = todo s" "point s1 = point s" "start_flag s1 = start_flag s"
      "started s1 = started s" "telling s1 = telling s" "waiters (objects s1) = waiters (objects s)"
      "owner (objects s1) 1 = owner (objects s) 1"
    and cnt: "\<And>ys u. cur t = x # ys \<Longrightarrow> stands ty t (passed s t) (x # ys) \<Longrightarrow>
      count_ok (cur(t := ys)) (next_act t xs s1) u"
  shows "\<exists>cur'. bench_ok ty N SF cur' (next_act t xs s1)"
proof -
  let ?s = "next_act t xs s1"
  note b = bench_okD [OF ok]
  note hp = head_place [OF b(5) td b(1)]
  have "x \<noteq> BarrierWait" using x by (auto simp: working_def)
  with hp(3) obtain ys where ys: "cur t = x # ys" "xs = join_parts ys (drop (Suc (passed s t)) (SF t))"
    "stands ty t (passed s t) (x # ys)" "arrived (point s) t = passed s t" by auto
  note w = stands_work [OF ys(3) x]
  note wf = work_facts [OF w(3)] work_facts [OF w(4)]
  have st': "started s" using started_work [OF b(3) hp(1) ys(1)] st by auto
  let ?cur = "cur(t := ys)"
  have "placed ty N SF ?cur ?s u" for u
    using b(5) [of u] ys(2,4) stands_tl [OF ys(3)] hp(1) s1 by (auto simp: placed_def)
  moreover have "lock_ok ?cur ?s u" for u
    using b(6) [of u] wf ys(1) s1 by (auto simp: lock_ok_def)
  moreover have ahead: "ahead ?cur ?s u = ahead cur s u" for u
    using wf ys(1) s1 by (auto simp: ahead_def)
  have "waits_ok ?cur ?s u" for u
  proof -
    have "waiter_ok ?cur ?s u w = waiter_ok cur s u w" for w
      using ahead wf ys(1) s1 by (cases w) auto
    with b(7) [of u] ys(1) wf(5) s1 show ?thesis by (auto simp: waits_ok_def)
  qed
  moreover have "flag_ok ty ?cur ?s" using b(3) st' w(1,2) wf ys(1) s1 by (auto simp: flag_ok_def zero_window_def)
  moreover have "tell_ok ?cur ?s" using b(4) ys(1) x s1 by (auto simp: tell_ok_def working_def)
  moreover have "together ?s" using b(2) s1 by (simp add: together_def)
  ultimately have "bench_ok ty N SF ?cur ?s" using b(1) s1 cnt [OF ys(1,3)] by (simp add: bench_ok_def)
  then show ?thesis by blast
qed

lemma bench_local:
  assumes ok: "bench_ok ty N SF cur s" and td: "todo s t = x # xs"
    and x: "x = Work k \<or> x = AwaitStart \<and> start_flag s \<noteq> 0"
  shows "\<exists>cur'. bench_ok ty N SF cur' (next_act t xs s)"
proof (rule bench_work [OF ok td])
  show x': "working x" using x by (auto simp: working_def)
  fix ys u assume ys: "cur t = x # ys" "stands ty t (passed s t) (x # ys)"
  have "works (passed s t) x"
    using x in_work_set [OF stands_work(3) [OF ys(2) x'], of x] by auto
  from stands_work(8) [OF ys(2) x' this] bench_okD(8) [OF ok, of u] bench_okD(8) [OF ok, of t] ys(1) x
  show "count_ok (cur(t := ys)) (next_act t xs s) u" by (auto simp: count_ok_def)
qed (use x in auto)

lemma bench_store:
  assumes ok: "bench_ok ty N SF cur s" and td: "todo s t = CountCritical # xs" and v: "loaded s t = Some v"
  shows "\<exists>cur'. bench_ok ty N SF cur' (next_act t xs (s\<lparr>counter := v + 1, loaded := (loaded s)(t := None)\<rparr>))"
proof (rule bench_work [OF ok td])
  show w: "working CountCritical" by (simp add: working_def)
  fix ys u assume ys: "cur t = CountCritical # ys" "stands ty t (passed s t) (CountCritical # ys)"
  from stands_work(6) [OF ys(2) w] have "ys = [UnlockMutex]" by simp
  moreover have "loaded s u = None" if "u \<noteq> t"
    using bench_okD(8) [OF ok, of u] bench_okD(8) [OF ok, of t] ys(1) that
    by (cases "loaded s u") (auto simp: count_ok_def)
  ultimately show "count_ok (cur(t := ys)) (next_act t xs (s\<lparr>counter := v + 1, loaded := (loaded s)(t := None)\<rparr>)) u"
    using bench_okD(8) [OF ok, of u] ys(1) by (auto simp: count_ok_def)
qed simp_all

lemma bench_load:
  assumes ok: "bench_ok ty N SF cur s" and td: "todo s t = CountCritical # xs"
  shows "bench_ok ty N SF cur (s\<lparr>loaded := (loaded s)(t := Some (counter s))\<rparr>)"
proof -
  let ?s = "s\<lparr>loaded := (loaded s)(t := Some (counter s))\<rparr>"
  note b = bench_okD [OF ok]
  from head_place(3) [OF b(5) td b(1)] obtain ys where ys: "cur t = CountCritical # ys" by auto
  have "waiter_ok cur ?s u w = waiter_ok cur s u w" for u w by (cases w) (auto simp: ahead_def)
  then have "waits_ok cur ?s u" for u using b(7) [of u] by (simp add: waits_ok_def)
  moreover have "count_ok cur ?s u" for u using b(8) [of u] ys by (auto simp: count_ok_def)
  moreover have "placed ty N SF cur ?s u" "lock_ok cur ?s u" for u
    using b(5) [of u] b(6) [of u] by (simp_all add: placed_def lock_ok_def)
  moreover have "together ?s" "tell_ok cur ?s" "flag_ok ty cur ?s"
    using b(2-4) by (simp_all add: together_def tell_ok_def flag_ok_def zero_window_def)
  ultimately show ?thesis using b(1) by (simp add: bench_ok_def)
qed

text \<open>Steps that leave the counter and its mutex alone.\<close>

lemma count_ok_same:
  assumes "count_ok cur s u" and "owner (objects s') 0 = owner (objects s) 0" and "loaded s' = loaded s"
    and "counter s' = counter s" and "cur' u = cur u \<or> \<not> counting (cur u) \<and> \<not> counting (cur' u)"
  shows "count_ok cur' s' u"
  using assms by (auto simp: count_ok_def)

text \<open>The mutex of the counter.\<close>

lemma bench_mutex:
  assumes ok: "bench_ok ty N SF cur s" and td: "todo s t = x # xs" and x: "mutex_act t x = Some e"
    and x0: "x = LockMutex \<or> x = UnlockMutex" and st: "monitor_step (objects s) e m"
  shows "\<exists>cur'. bench_ok ty N SF cur' (next_act t xs (s\<lparr>objects := m\<rparr>))"
proof (rule bench_work [OF ok td])
  show w: "working x" using x0 by (auto simp: working_def)
  show "waiters (objects (s\<lparr>objects := m\<rparr>)) = waiters (objects s)" "owner (objects (s\<lparr>objects := m\<rparr>)) 1 = owner (objects s) 1"
    using x x0 st by auto
  fix ys u assume ys: "cur t = x # ys" "stands ty t (passed s t) (x # ys)"
  show "count_ok (cur(t := ys)) (next_act t xs (s\<lparr>objects := m\<rparr>)) u"
    using stands_work(5,7) [OF ys(2) w] bench_okD(8) [OF ok, of u] bench_okD(8) [OF ok, of t] ys(1) x x0 st
    by (auto simp: count_ok_def)
qed (use x0 in auto)

end
