(* ===== verification/Sync_Steps.thy ===== *)
theory Sync_Steps imports Sync_Work begin

text \<open>
  The steps at the barrier, of the start flag, of the mutex of the condition variable and of a
  thread in its loop around the wait keep the invariant. A thread that finds the flag 0 has the
  broadcast of thread 0 ahead (\<open>zero_ahead\<close>).
\<close>

text \<open>The barrier.\<close>

lemma bench_arrive:
  assumes ok: "bench_ok ty N SF cur s" and td: "todo s t = BarrierWait # xs" and st: "meeting_step (point s) (Arrive t) a"
  shows "bench_ok ty N SF cur (s\<lparr>point := a\<rparr>)"
proof -
  note b = bench_okD [OF ok] and hp = head_place [OF bench_okD(5) [OF ok] td bench_okD(1) [OF ok]]
  from st have a: "left a = left (point s)" "meets a = meets (point s)" "arrived (point s) t = passed s t"
    "arrived a = (arrived (point s))(t := Suc (passed s t))" by auto
  have "placed ty N SF cur (s\<lparr>point := a\<rparr>) u" for u
    using b(5) [of u] a hp by (auto simp: placed_def)
  moreover have "together (s\<lparr>point := a\<rparr>)" using b(2) a by (auto simp: together_def) (metis le_SucI)
  moreover have "lock_ok cur (s\<lparr>point := a\<rparr>) u" "waits_ok cur (s\<lparr>point := a\<rparr>) u" for u
  proof -
    show "lock_ok cur (s\<lparr>point := a\<rparr>) u" using b(6) [of u] by (simp add: lock_ok_def)
    have "waiter_ok cur (s\<lparr>point := a\<rparr>) u w = waiter_ok cur s u w" for w using a by (cases w) (auto simp: ahead_def)
    with b(7) [of u] show "waits_ok cur (s\<lparr>point := a\<rparr>) u" by (simp add: waits_ok_def)
  qed
  moreover have "flag_ok ty cur (s\<lparr>point := a\<rparr>)" using b(3) a by (simp add: flag_ok_def zero_window_def)
  moreover have "tell_ok cur (s\<lparr>point := a\<rparr>)" using b(4) by (simp add: tell_ok_def)
  moreover have "count_ok cur (s\<lparr>point := a\<rparr>) u" for u by (rule count_ok_same [OF b(8)]) simp_all
  ultimately show ?thesis using b(1) by (simp add: bench_ok_def)
qed

lemma full_facts:
  assumes "full_part ty t i xs"
  shows "\<not> critical xs w" "\<not> leaving xs w" "wait_at ty i \<Longrightarrow> xs = wait_part t" "reset_at ty i \<Longrightarrow> xs = reset_part t"
    "\<not> wait_at ty i \<Longrightarrow> BroadcastStart \<notin> set xs \<and> SetStart 1 \<notin> set xs" "\<not> counting xs"
proof -
  have ex: "\<not> (reset_at ty i \<and> wait_at ty i)" by (simp add: reset_at_def wait_at_def)
  consider "xs = reset_part t" "reset_at ty i" | "xs = wait_part t" "wait_at ty i" | "work_part {[], count_part} i xs" "\<not> wait_at ty i"
    using assms by (auto simp: full_part_def split: if_splits)
  then have "\<not> critical xs w \<and> \<not> leaving xs w \<and> \<not> counting xs \<and> (\<not> wait_at ty i \<longrightarrow> BroadcastStart \<notin> set xs \<and> SetStart 1 \<notin> set xs)"
  proof cases
    case 3
    then have "in_work i xs" "\<not> counting xs" by (auto simp: in_work_def count_part_def elim!: counting.elims)
    with work_facts [OF this(1)] show ?thesis by blast
  qed (simp_all add: reset_part_def wait_part_def)
  then show "\<not> critical xs w" "\<not> leaving xs w" "\<not> counting xs"
    "\<not> wait_at ty i \<Longrightarrow> BroadcastStart \<notin> set xs \<and> SetStart 1 \<notin> set xs" by blast+
  show "wait_at ty i \<Longrightarrow> xs = wait_part t" "reset_at ty i \<Longrightarrow> xs = reset_part t"
    using assms ex by (auto simp: full_part_def split: if_splits)
qed

lemma next_part: "reset_at ty i \<Longrightarrow> wait_at ty (Suc i)" "wait_at ty (Suc i) \<Longrightarrow> reset_at ty i" "reset_at ty (Suc i) \<Longrightarrow> i \<noteq> 0"
  by (auto simp: reset_at_def wait_at_def mod_Suc split: if_splits)

lemma bench_leave:
  assumes ok: "bench_ok ty N SF cur s" and td: "todo s t = BarrierWait # xs" and st: "meeting_step (point s) (Leave t) a"
  shows "\<exists>cur'. bench_ok ty N SF cur' (next_act t xs (s\<lparr>point := a\<rparr>))"
proof -
  note b = bench_okD [OF ok] and hp = head_place [OF bench_okD(5) [OF ok] td bench_okD(1) [OF ok]]
  let ?l = "passed s t" and ?s = "next_act t xs (s\<lparr>point := a\<rparr>)"
  let ?q = "SF t ! Suc ?l" and ?cur = "cur(t := SF t ! Suc ?l)"
  from hp(2) have h: "cur t = []" "?l < N" "xs = join_parts ?q (drop (Suc (Suc ?l)) (SF t))" by simp_all
  have a: "left a = (left (point s))(t := Suc ?l)" "meets a = meets (point s)" "arrived a = arrived (point s)"
    "?l < arrived (point s) t" "\<And>u. u < width s \<Longrightarrow> ?l < arrived (point s) u"
    using st b(2) hp(1) by (auto simp: together_def)
  have arr: "arrived (point s) t = Suc ?l" using b(5) [of t] a(4) hp(1) by (auto simp: placed_def)
  have full: "full_part ty t (Suc ?l) ?q" using b(1) h(2) hp(1) by (auto simp: plan_ok_def)
  note ff = full_facts [OF full]
  have n0: "0 < width s" using hp(1) by simp
  have first: "?l = 0 \<Longrightarrow> \<exists>ys. ?q = AwaitStart # ys" using b(1) hp(1) by (auto simp: plan_ok_def)
  have pl: "placed ty N SF ?cur ?s u" for u
    using b(5) [of u] h full_stands [OF full] a arr hp(1) by (auto simp: placed_def)
  have tog: "together ?s" using b(2) a by (auto simp: together_def Suc_le_eq)
  have lk: "lock_ok ?cur ?s u" for u using b(6) [of u] ff(1,2) h(1) by (auto simp: lock_ok_def)
  have cur0: "u < width s \<Longrightarrow> cur u \<noteq> [] \<Longrightarrow> arrived (point s) u = passed s u" for u
    using b(5) [of u] by (auto simp: placed_def)
  have wt: "waits_ok ?cur ?s u" for u
    unfolding waits_ok_def
  proof (intro allI impI)
    fix w assume "waiters (objects ?s) u = Some w"
    with b(7) [of u] h(1) have w: "u < width s" "u \<noteq> 0" "cur u = [AwaitCond, UnlockCond]" "waiter_ok cur s u w" "u \<noteq> t"
      by (auto simp: waits_ok_def)
    then have au: "arrived (point s) u = passed s u" using cur0 by simp
    have "waiter_ok ?cur ?s u w"
    proof (cases "t = 0")
      case False
      have "ahead ?cur ?s u = ahead cur s u" using False w(5) a(1) by (simp add: ahead_def)
      with False w(4,5) a(1) show ?thesis by (cases w) auto
    next
      case True
      have lt: "passed s 0 < passed s u" using a(5) [OF w(1)] au True by simp
      have "wait_at ty (passed s u)"
        using b(5) [of u] w(1,3) by (auto simp: placed_def stands_def reset_part_def dest: work_facts(5) split: if_splits)
      then have bc: "Suc (passed s 0) = passed s u \<longrightarrow> BroadcastStart \<in> set ?q"
        using ff(3) True by (auto simp: wait_part_def)
      have tl: "\<not> telling s 0" using b(4) h(1) True by (auto simp: tell_ok_def)
      have "ahead ?cur ?s u" using lt bc True a(1) w(2)
        by (cases "Suc (passed s 0) = passed s u") (auto simp: ahead_def)
      with w(2,4) lt tl True a(1) show ?thesis by (cases w) auto
    qed
    with w show "u < width ?s \<and> u \<noteq> 0 \<and> ?cur u = [AwaitCond, UnlockCond] \<and> waiter_ok ?cur ?s u w" by simp
  qed
  have zw: "zero_window ty ?cur ?s \<longleftrightarrow> zero_window ty cur s"
  proof (cases "t = 0")
    case True
    have r: "reset_at ty (Suc ?l) \<Longrightarrow> ?q \<noteq> []" using ff(4) True by (simp add: reset_part_def)
    have wq: "wait_at ty (Suc ?l) \<Longrightarrow> SetStart 1 \<in> set ?q" using ff(3) True by (simp add: wait_part_def)
    have "zero_window ty ?cur ?s \<longleftrightarrow> wait_at ty (Suc ?l)"
      using True a(1) r wq ff(5) by (auto simp: zero_window_def)
    also have "\<dots> \<longleftrightarrow> zero_window ty cur s" using True h(1) next_part [of ty ?l] by (auto simp: zero_window_def)
    finally show ?thesis .
  qed (simp add: zero_window_def a(1))
  have fl: "flag_ok ty ?cur ?s"
  proof -
    have "\<not> started s \<Longrightarrow> ?l = 0" using b(3) h(1) hp(1) by (auto simp: flag_ok_def)
    with b(3) first zw a(1) show ?thesis by (auto simp: flag_ok_def)
  qed
  have tl: "tell_ok ?cur ?s" using b(4) h(1) by (auto simp: tell_ok_def)
  have ct: "count_ok ?cur ?s u" for u
    using h(1) ff(6) by (intro count_ok_same [OF b(8) [of u]]) auto
  from pl tog lk wt fl tl ct b(1) show ?thesis by (auto simp: bench_ok_def)
qed

text \<open>The parts with the flag and the condition variable.\<close>

lemma stands_head:
  "stands ty t i (SetStart v # ys) \<Longrightarrow> t = 0 \<and> (reset_at ty i \<and> v = 0 \<and> ys = [] \<or>
     wait_at ty i \<and> v = 1 \<and> ys = [UnlockCond, BroadcastStart])"
  "stands ty t i (LockCond # ys) \<Longrightarrow> wait_at ty i \<and> LockCond # ys = wait_part t"
  "stands ty t i (UnlockCond # ys) \<Longrightarrow> wait_at ty i \<and> ys = (if t = 0 then [BroadcastStart] else [])"
  "stands ty t i (AwaitCond # ys) \<Longrightarrow> wait_at ty i \<and> t \<noteq> 0 \<and> ys = [UnlockCond]"
  "stands ty t i (BroadcastStart # ys) \<Longrightarrow> wait_at ty i \<and> t = 0 \<and> ys = []"
  using in_work_set [of i "SetStart v # ys" "SetStart v"] in_work_set [of i "LockCond # ys" LockCond]
    in_work_set [of i "UnlockCond # ys" UnlockCond] in_work_set [of i "AwaitCond # ys" AwaitCond]
    in_work_set [of i "BroadcastStart # ys" BroadcastStart]
  by (auto simp: stands_def reset_part_def wait_part_def split: if_splits)

lemma wait_not_reset: "wait_at ty i \<Longrightarrow> \<not> reset_at ty i"
  by (simp add: wait_at_def reset_at_def)

lemma next_placed:
  assumes ok: "bench_ok ty N SF cur s" and td: "todo s t = x # xs" and x: "x \<noteq> BarrierWait"
    and s1: "width s1 = width s" "todo s1 = todo s" "point s1 = point s"
  shows "\<exists>ys. cur t = x # ys \<and> stands ty t (passed s t) (x # ys) \<and> t < width s \<and> arrived (point s) t = passed s t \<and>
    (\<forall>u. placed ty N SF (cur(t := ys)) (next_act t xs s1) u)"
proof -
  note b = bench_okD [OF ok] and hp = head_place [OF bench_okD(5) [OF ok] td bench_okD(1) [OF ok]]
  from hp(3) [OF x] obtain ys where ys: "cur t = x # ys" "xs = join_parts ys (drop (Suc (passed s t)) (SF t))"
    "stands ty t (passed s t) (x # ys)" "arrived (point s) t = passed s t" by auto
  have "placed ty N SF (cur(t := ys)) (next_act t xs s1) u" for u
    using b(5) [of u] ys(2,4) stands_tl [OF ys(3)] hp(1) s1 by (auto simp: placed_def)
  with ys hp(1) show ?thesis by blast
qed

lemma together_same: "together s \<Longrightarrow> width s1 = width s \<Longrightarrow> point s1 = point s \<Longrightarrow> together s1"
  by (simp add: together_def)

lemma bench_set:
  assumes ok: "bench_ok ty N SF cur s" and td: "todo s t = SetStart v # xs"
  shows "\<exists>cur'. bench_ok ty N SF cur' (next_act t xs (s\<lparr>start_flag := v\<rparr>))"
proof -
  let ?s = "next_act t xs (s\<lparr>start_flag := v\<rparr>)"
  note b = bench_okD [OF ok]
  from next_placed [OF ok td, of "s\<lparr>start_flag := v\<rparr>"] obtain ys where ys: "cur t = SetStart v # ys"
    "stands ty t (passed s t) (SetStart v # ys)" "t < width s" "\<And>u. placed ty N SF (cur(t := ys)) ?s u" by auto
  from stands_head(1) [OF ys(2)] have t: "t = 0"
    and v: "reset_at ty (passed s 0) \<and> v = 0 \<and> ys = [] \<or> wait_at ty (passed s 0) \<and> v = 1 \<and> ys = [UnlockCond, BroadcastStart]"
    by auto
  let ?cur = "cur(t := ys)"
  have st: "started s" using started_work [OF b(3) ys(3,1)] by simp
  have lk: "lock_ok ?cur ?s u" for u using b(6) [of u] ys(1) t v by (auto simp: lock_ok_def)
  have "waiter_ok ?cur ?s u w = waiter_ok cur s u w" for u w using ys(1) t v by (cases w) (auto simp: ahead_def)
  then have wt: "waits_ok ?cur ?s u" for u using b(7) [of u] ys(1) by (auto simp: waits_ok_def)
  have fl: "flag_ok ty ?cur ?s" using v st t wait_not_reset by (auto simp: flag_ok_def zero_window_def)
  have tl: "tell_ok ?cur ?s" using b(4) ys(1) t by (auto simp: tell_ok_def)
  have ct: "count_ok ?cur ?s u" for u using ys(1) v by (intro count_ok_same [OF b(8) [of u]]) auto
  have "together ?s" using together_same [OF b(2), of ?s] by simp
  with ys(4) lk wt fl tl ct b(1) show ?thesis by (auto simp: bench_ok_def)
qed

lemma bench_cond_mutex:
  assumes ok: "bench_ok ty N SF cur s" and td: "todo s t = x # xs" and x: "mutex_act t x = Some e"
    and x0: "x \<noteq> LockMutex" "x \<noteq> UnlockMutex" and st: "monitor_step (objects s) e m"
  shows "\<exists>cur'. bench_ok ty N SF cur' (next_act t xs (s\<lparr>objects := m\<rparr>))"
proof -
  let ?s = "next_act t xs (s\<lparr>objects := m\<rparr>)"
  note b = bench_okD [OF ok]
  have "x \<noteq> BarrierWait" using x by auto
  from next_placed [OF ok td this, of "s\<lparr>objects := m\<rparr>"] obtain ys where ys: "cur t = x # ys"
    "stands ty t (passed s t) (x # ys)" "t < width s" "\<And>u. placed ty N SF (cur(t := ys)) ?s u" by auto
  let ?cur = "cur(t := ys)"
  from x x0 have xs: "x = LockCond \<and> e = Takes t 1 \<or> x = UnlockCond \<and> e = Gives t 1" by (cases x) auto
  have st': "started s" using started_work [OF b(3) ys(3,1)] xs by auto
  have none: "waiters (objects s) t = None" using b(7) [of t] ys(1) xs by (auto simp: waits_ok_def)
  have tl: "tell_ok ?cur ?s" using b(4) ys(1) xs by (auto simp: tell_ok_def)
  have tog: "together ?s" using together_same [OF b(2), of ?s] by simp
  have m: "waiters m = waiters (objects s)" using xs st by auto
  have BC: "t = 0 \<Longrightarrow> BroadcastStart \<in> set ys \<longleftrightarrow> BroadcastStart \<in> set (cur 0)"
    and S1: "t = 0 \<Longrightarrow> SetStart 1 \<in> set ys \<longleftrightarrow> SetStart 1 \<in> set (cur 0)" "t = 0 \<Longrightarrow> cur 0 \<noteq> [] \<and> ys \<noteq> []"
    using ys(1,2) xs stands_head(2,3) [of ty t "passed s t" ys] by (auto simp: wait_part_def split: if_splits)
  have fl: "flag_ok ty ?cur ?s" using b(3) st' S1 by (auto simp: flag_ok_def zero_window_def)
  have ow: "owner m 1 = (if x = LockCond then Some t else None)" "x = LockCond \<Longrightarrow> owner (objects s) 1 = None"
    "x = UnlockCond \<Longrightarrow> owner (objects s) 1 = Some t" using xs st by auto
  have crit: "x = LockCond \<Longrightarrow> critical ys None" "x = UnlockCond \<Longrightarrow> \<not> critical ys w \<and> \<not> leaving ys w" for w
    using ys(2) stands_head(2,3) [of ty t "passed s t" ys] by (auto simp: wait_part_def split: if_splits)
  have lk: "lock_ok ?cur ?s u" for u
    using b(6) [of u] ow crit none ys(3) xs m by (auto simp: lock_ok_def)
  have wt: "waits_ok ?cur ?s u" for u
  proof -
    have "waiter_ok cur s u w \<Longrightarrow> u \<noteq> t \<Longrightarrow> waiter_ok ?cur ?s u w" for w
      using ow xs BC by (cases w; cases "t = 0") (auto simp: ahead_def)
    with b(7) [of u] none m show ?thesis by (cases "u = t") (auto simp: waits_ok_def)
  qed
  have "owner m 0 = owner (objects s) 0" "\<not> counting ys"
    using xs st ys(2) stands_head(2,3) [of ty t "passed s t" ys] by (auto simp: wait_part_def split: if_splits)
  then have ct: "count_ok ?cur ?s u" for u using ys(1) xs by (intro count_ok_same [OF b(8) [of u]]) auto
  from ys(4) lk wt fl tl tog ct b(1) show ?thesis by (auto simp: bench_ok_def)
qed

lemma bench_lock:
  "bench_ok ty N SF cur s \<Longrightarrow> todo s t = x # xs \<Longrightarrow> mutex_act t x = Some e \<Longrightarrow> monitor_step (objects s) e m \<Longrightarrow>
   \<exists>cur'. bench_ok ty N SF cur' (next_act t xs (s\<lparr>objects := m\<rparr>))"
  by (metis bench_mutex bench_cond_mutex)


lemma bench_flag_set:
  assumes ok: "bench_ok ty N SF cur s" and td: "todo s t = AwaitCond # xs" and none: "waiters (objects s) t = None"
  shows "\<exists>cur'. bench_ok ty N SF cur' (next_act t xs s)"
proof -
  let ?s = "next_act t xs s"
  note b = bench_okD [OF ok]
  from next_placed [OF ok td, of s] obtain ys where ys: "cur t = AwaitCond # ys"
    "stands ty t (passed s t) (AwaitCond # ys)" "t < width s" "\<And>u. placed ty N SF (cur(t := ys)) ?s u" by auto
  from stands_head(4) [OF ys(2)] have t: "t \<noteq> 0" "ys = [UnlockCond]" by simp_all
  let ?cur = "cur(t := ys)"
  have st: "started s" using started_work [OF b(3) ys(3,1)] by simp
  have lk: "lock_ok ?cur ?s u" for u using b(6) [of u] ys(1,3) t none by (auto simp: lock_ok_def)
  have "waiter_ok ?cur ?s u w = waiter_ok cur s u w" for u w using t by (cases w) (auto simp: ahead_def)
  then have wt: "waits_ok ?cur ?s u" for u using b(7) [of u] none by (auto simp: waits_ok_def)
  have fl: "flag_ok ty ?cur ?s" using b(3) st t by (simp add: flag_ok_def zero_window_def)
  have tl: "tell_ok ?cur ?s" using b(4) t by (auto simp: tell_ok_def)
  have ct: "count_ok ?cur ?s u" for u using ys(1) t by (intro count_ok_same [OF b(8) [of u]]) auto
  have "together ?s" using together_same [OF b(2), of ?s] by simp
  with ys(4) lk wt fl tl ct b(1) show ?thesis by (auto simp: bench_ok_def)
qed

text \<open>A step of the monitor alone.\<close>

lemma bench_objects:
  assumes ok: "bench_ok ty N SF cur s" and "owner m 0 = owner (objects s) 0"
    and "\<And>u. lock_ok cur (s\<lparr>objects := m\<rparr>) u" and "\<And>u. waits_ok cur (s\<lparr>objects := m\<rparr>) u"
  shows "bench_ok ty N SF cur (s\<lparr>objects := m\<rparr>)"
proof -
  let ?s = "s\<lparr>objects := m\<rparr>"
  note b = bench_okD [OF ok]
  have "placed ty N SF cur ?s u" "count_ok cur ?s u" for u
    using b(5) [of u] count_ok_same [OF b(8) [of u], of ?s] assms(2) by (simp_all add: placed_def)
  moreover have "together ?s" "tell_ok cur ?s" "flag_ok ty cur ?s"
    using b(2-4) by (simp_all add: together_def tell_ok_def flag_ok_def zero_window_def)
  ultimately show ?thesis using b(1) assms(3,4) by (simp add: bench_ok_def)
qed

lemma waiter_ok_keep:
  "waiter_ok cur s u w \<Longrightarrow> owner m 1 = Some u \<longrightarrow> owner (objects s) 1 = Some u \<Longrightarrow> waiter_ok cur (s\<lparr>objects := m\<rparr>) u w"
  by (cases w) (auto simp: ahead_def)

text \<open>The loop around the wait. A thread that finds the flag 0 has the broadcast ahead.\<close>

lemma zero_ahead:
  assumes ok: "bench_ok ty N SF cur s" and t: "t < width s" "t \<noteq> 0" "cur t = AwaitCond # ys" and zero: "start_flag s = 0"
  shows "ahead cur s t" and "\<not> (passed s 0 = passed s t \<and> telling s 0)"
proof -
  note b = bench_okD [OF ok]
  have at: "arrived (point s) t = passed s t" "stands ty t (passed s t) (AwaitCond # ys)" using b(5) [of t] t by (auto simp: placed_def)
  have w: "wait_at ty (passed s t)" using stands_head(4) [OF at(2)] by simp
  have n0: "0 < width s" using t by simp
  have le: "passed s 0 \<le> passed s t" using b(2) t(1) n0 at(1) by (metis together_def)
  have "started s" using started_work [OF b(3) t(1,3)] by simp
  then have zw: "zero_window ty cur s" using b(3) zero by (simp add: flag_ok_def)
  show "ahead cur s t"
  proof (cases "passed s 0 = passed s t")
    case True
    with zw wait_not_reset [OF w] have "SetStart 1 \<in> set (cur 0)" by (simp add: zero_window_def)
    moreover have "stands ty 0 (passed s t) (cur 0)" using b(5) [of 0] n0 True by (simp add: placed_def)
    ultimately have "BroadcastStart \<in> set (cur 0)"
      using w wait_not_reset [OF w] by (auto simp: stands_def wait_part_def)
    with True show ?thesis by (simp add: ahead_def)
  qed (use le in \<open>simp add: ahead_def\<close>)
  show "\<not> (passed s 0 = passed s t \<and> telling s 0)"
    using zw wait_not_reset [OF w] b(4) by (auto simp: zero_window_def tell_ok_def)
qed

lemma bench_flag_wait:
  assumes ok: "bench_ok ty N SF cur s" and td: "todo s t = AwaitCond # xs" and e: "e \<in> wait_acts s t"
    and st: "monitor_step (objects s) e m"
  shows "bench_ok ty N SF cur (s\<lparr>objects := m\<rparr>)"
proof -
  note b = bench_okD [OF ok]
  from next_placed [OF ok td, of s] obtain ys where ys: "cur t = AwaitCond # ys"
    "stands ty t (passed s t) (AwaitCond # ys)" "t < width s" by auto
  from stands_head(4) [OF ys(2)] have t: "t \<noteq> 0" "cur t = [AwaitCond, UnlockCond]" using ys(1) by simp_all
  let ?s = "s\<lparr>objects := m\<rparr>" and ?w = "waiters (objects s) t"
  have other: "u \<noteq> t \<Longrightarrow> waiters m u = waiters (objects s) u \<and> (owner m 1 = Some u \<longleftrightarrow> owner (objects s) 1 = Some u)" for u
    using e st by (auto simp: wait_acts_def split: if_splits option.splits waiter.splits)
  have o0: "owner m 0 = owner (objects s) 0"
    using e st by (auto simp: wait_acts_def split: if_splits option.splits waiter.splits)
  have u: "lock_ok cur ?s u" "waits_ok cur ?s u" if "u \<noteq> t" for u
    using b(6) [of u] b(7) [of u] other [OF that] by (auto simp: lock_ok_def waits_ok_def intro: waiter_ok_keep)
  have wok: "?w = Some w \<Longrightarrow> waiter_ok cur s t w" for w using b(7) [of t] by (simp add: waits_ok_def)
  have crit: "?w = None \<longrightarrow> owner (objects s) 1 = Some t"
    "owner (objects s) 1 = Some t \<longrightarrow> ?w = None \<or> (\<exists>c k n. ?w = Some (Leaving c k n))"
    using b(6) [of t] t(2) by (auto simp: lock_ok_def elim!: leaving.elims)
  consider (joins) "?w = None" "start_flag s = 0" "e = Joins t 0 1" | (wait) w where "?w = Some w"
    "e \<in> {Gives t 1, Sleeps t, Stays t, Comes t 1}"
    using e by (auto simp: wait_acts_def split: if_splits)
  then have "lock_ok cur ?s t \<and> waits_ok cur ?s t"
  proof cases
    case joins
    have "waiter_ok cur ?s t (Leaving 0 1 0)"
      using zero_ahead [OF ok ys(3) t(1) ys(1) joins(2)] by (auto simp: ahead_def)
    with joins st ys(3) t show ?thesis by (auto simp: lock_ok_def waits_ok_def)
  next
    case wait
    note w = wok [OF wait(1)]
    show ?thesis
    proof (cases w)
      case (Leaving c k n)
      with w wait st ys(3) t show ?thesis
        by (auto simp: lock_ok_def waits_ok_def ahead_def split: if_splits)
    next
      case (Sleeping c k)
      with wait st show ?thesis by auto
    next
      case (Woken k)
      with w wait st ys(3) t show ?thesis by (auto simp: lock_ok_def waits_ok_def)
    qed
  qed
  with u have "lock_ok cur ?s v" "waits_ok cur ?s v" for v by (cases "v = t"; simp)+
  from bench_objects [OF ok _ this] o0 show ?thesis by blast
qed

end
