(* ===== verification/Sync_Signals.thy ===== *)
theory Sync_Signals imports Sync_Steps begin

text \<open>
  The broadcast of thread 0, a disturbed wait and the start by main keep the invariant; with
  Sync_Work and Sync_Steps all steps do (\<open>bench_ok_step\<close>).
\<close>

lemma telling_facts:
  assumes ok: "bench_ok ty N SF cur s" and td: "todo s t = BroadcastStart # xs"
  shows "t = 0" "cur 0 = [BroadcastStart]" "wait_at ty (passed s 0)" "0 < width s" "arrived (point s) 0 = passed s 0" "started s"
    "u < width s \<Longrightarrow> passed s u \<le> passed s 0"
proof -
  note b = bench_okD [OF ok]
  from next_placed [OF ok td, of s] obtain ys where ys: "cur t = BroadcastStart # ys"
    "stands ty t (passed s t) (BroadcastStart # ys)" "t < width s" "arrived (point s) t = passed s t" by auto
  with stands_head(5) [OF ys(2)] show t: "t = 0" "cur 0 = [BroadcastStart]" "wait_at ty (passed s 0)" "0 < width s"
      "arrived (point s) 0 = passed s 0" by auto
  show "started s" using started_work [OF b(3) ys(3,1)] by simp
  show "u < width s \<Longrightarrow> passed s u \<le> passed s 0" using b(2) t(4,5) by (metis together_def)
qed

lemma bench_announce:
  assumes ok: "bench_ok ty N SF cur s" and td: "todo s t = BroadcastStart # xs" and tell: "\<not> telling s t"
    and st: "monitor_step (objects s) (Announces 0) m"
  shows "bench_ok ty N SF cur (s\<lparr>objects := m, telling := (telling s)(t := True)\<rparr>)"
proof -
  let ?s = "s\<lparr>objects := m, telling := (telling s)(t := True)\<rparr>"
  note b = bench_okD [OF ok] and f = telling_facts [OF ok td]
  have m: "owner m = owner (objects s)" "waiters m u = changed 0 1 (waiters (objects s) u)" for u using st by simp_all
  have lk: "lock_ok cur ?s u" for u
  proof -
    have "critical xs (changed 0 1 w) = critical xs w" "leaving xs (changed 0 1 w) = leaving xs w" for xs w
      by (cases "(0 :: cid, 1 :: u32, w)" rule: changed.cases; cases "(xs, w)" rule: leaving.cases; auto elim!: critical.elims)+
    with b(6) [of u] m show ?thesis by (simp add: lock_ok_def)
  qed
  have wt: "waits_ok cur ?s u" for u
    unfolding waits_ok_def
  proof (intro allI impI)
    fix w' assume w': "waiters (objects ?s) u = Some w'"
    then obtain w where w: "waiters (objects s) u = Some w" "Some w' = changed 0 1 (Some w)"
      using m(2) [of u] by (cases "waiters (objects s) u") auto
    have u: "u < width s" "u \<noteq> 0" "cur u = [AwaitCond, UnlockCond]" "waiter_ok cur s u w"
      using b(7) [of u] w(1) by (auto simp: waits_ok_def)
    have "waiter_ok cur ?s u w'"
    proof (cases w)
      case (Leaving c k n)
      with u(4) f(1,2) tell f(7) [OF u(1)] have "c = 0" "k = 1" "n = 0" "passed s 0 = passed s u"
        by (auto simp: ahead_def)
      with w(2) Leaving f(1) show ?thesis by auto
    qed (use u(4) w(2) m(1) in \<open>auto simp: ahead_def\<close>)
    with u show "u < width ?s \<and> u \<noteq> 0 \<and> cur u = [AwaitCond, UnlockCond] \<and> waiter_ok cur ?s u w'" by simp
  qed
  have "placed ty N SF cur ?s u" "count_ok cur ?s u" for u
    using b(5) [of u] count_ok_same [OF b(8) [of u], of ?s] m(1) by (simp_all add: placed_def)
  moreover have "together ?s" "tell_ok cur ?s" "flag_ok ty cur ?s"
    using b(2-4) f(1,2) by (simp_all add: together_def tell_ok_def flag_ok_def zero_window_def)
  ultimately show ?thesis using lk wt b(1) by (simp add: bench_ok_def)
qed

lemma bench_notify:
  assumes ok: "bench_ok ty N SF cur s" and td: "todo s t = BroadcastStart # xs" and tell: "telling s t"
    and st: "monitor_step (objects s) (NotifiesAll 0) m"
  shows "\<exists>cur'. bench_ok ty N SF cur' (next_act t xs (s\<lparr>objects := m, telling := (telling s)(t := False)\<rparr>))"
proof -
  let ?s1 = "s\<lparr>objects := m, telling := (telling s)(t := False)\<rparr>" and ?cur = "cur(t := [])"
  let ?s = "next_act t xs ?s1"
  note b = bench_okD [OF ok] and f = telling_facts [OF ok td]
  have pl: "placed ty N SF ?cur ?s u" for u
    using next_placed [OF ok td, of ?s1] f(1,2) by auto
  have m: "owner m = owner (objects s)"
    "waiters m u = (if sleeps_at 0 (waiters (objects s) u) then notified (waiters (objects s) u) else waiters (objects s) u)" for u
    using st by simp_all
  have none: "waiters (objects s) 0 = None" "waiters m 0 = None"
    using b(7) [of 0] m(2) [of 0] by (auto simp: waits_ok_def)
  have lk: "lock_ok ?cur ?s u" for u
  proof (cases "u = 0")
    case True
    with b(6) [of 0] f m none show ?thesis by (auto simp: lock_ok_def)
  next
    case False
    have "critical xs (notified w) = critical xs w" "sleeps_at 0 w \<Longrightarrow> \<not> leaving xs w \<and> \<not> leaving xs (notified w)" for xs w
      by (cases w rule: notified.cases; cases "(xs, w)" rule: leaving.cases; auto elim!: critical.elims)+
    with False b(6) [of u] f(1) m show ?thesis by (auto simp: lock_ok_def)
  qed
  have wt: "waits_ok ?cur ?s u" for u
    unfolding waits_ok_def
  proof (intro allI impI)
    fix w' assume w': "waiters (objects ?s) u = Some w'"
    then obtain w where w1: "waiters (objects s) u = Some w" using m(2) [of u] by (cases "waiters (objects s) u") auto
    have w: "waiters (objects s) u = Some w" "Some w' = (if sleeps_at 0 (Some w) then notified (Some w) else Some w)"
      using w1 w' m(2) [of u] by (simp_all split: if_splits)
    have u: "u < width s" "u \<noteq> 0" "cur u = [AwaitCond, UnlockCond]" "waiter_ok cur s u w"
      using b(7) [of u] w(1) by (auto simp: waits_ok_def)
    have "waiter_ok ?cur ?s u w'"
    proof (cases w)
      case (Leaving c k n)
      with u(4) f(1,2) tell f(7) [OF u(1)] have "c = 0" "k = 1" "n = 1" "passed s 0 = passed s u"
        by (auto simp: ahead_def)
      with w(2) Leaving f(1) show ?thesis by auto
    qed (use u(4) w(2) m(1) in auto)
    with u f(1) show "u < width ?s \<and> u \<noteq> 0 \<and> ?cur u = [AwaitCond, UnlockCond] \<and> waiter_ok ?cur ?s u w'" by simp
  qed
  have "flag_ok ty ?cur ?s" using b(3) f wait_not_reset [OF f(3)] by (auto simp: flag_ok_def zero_window_def)
  moreover have "tell_ok ?cur ?s" using b(4) f(1) by (auto simp: tell_ok_def)
  moreover have "together ?s" using together_same [OF b(2), of ?s] by simp
  moreover have "count_ok ?cur ?s u" for u
    using f(1,2) m(1) by (intro count_ok_same [OF b(8) [of u]]) auto
  ultimately have "bench_ok ty N SF ?cur ?s" using pl lk wt b(1) by (simp add: bench_ok_def)
  then show ?thesis by blast
qed

lemma bench_disturb:
  assumes ok: "bench_ok ty N SF cur s" and st: "monitor_step (objects s) (Interrupts u) m"
  shows "bench_ok ty N SF cur (s\<lparr>objects := m\<rparr>)"
proof (rule bench_objects [OF ok])
  note b = bench_okD [OF ok]
  from st obtain c k where w: "waiters (objects s) u = Some (Sleeping c k)"
    "m = (objects s)\<lparr>waiters := (waiters (objects s))(u := Some (Woken k))\<rparr>"
    by (auto elim!: sleeps_at.elims)
  show "owner m 0 = owner (objects s) 0" using w by simp
  show "lock_ok cur (s\<lparr>objects := m\<rparr>) v" for v
  proof (cases "v = u")
    case True
    with b(6) [of u] b(7) [of u] w show ?thesis by (auto simp: lock_ok_def waits_ok_def)
  next
    case False
    with b(6) [of v] w show ?thesis by (simp add: lock_ok_def)
  qed
  show "waits_ok cur (s\<lparr>objects := m\<rparr>) v" for v
    using b(7) [of v] w waiter_ok_keep [of cur s v _ m] by (cases "v = u") (auto simp: waits_ok_def)
qed

lemma bench_start:
  assumes ok: "bench_ok ty N SF cur s" and "\<not> started s"
  shows "bench_ok ty N SF cur (s\<lparr>start_flag := 1, started := True\<rparr>)"
proof -
  let ?s = "s\<lparr>start_flag := 1, started := True\<rparr>"
  note b = bench_okD [OF ok]
  have "0 < width s" using b(1) by (simp add: plan_ok_def)
  with assms(2) b(3) have "passed s 0 = 0 \<or> passed s 0 = 1" by (auto simp: flag_ok_def)
  then have "\<not> zero_window ty cur ?s" by (auto simp: zero_window_def reset_at_def wait_at_def)
  then have fl: "flag_ok ty cur ?s" by (simp add: flag_ok_def)
  have "waiter_ok cur ?s u w = waiter_ok cur s u w" for u w by (cases w) (auto simp: ahead_def)
  then have "waits_ok cur ?s u" for u using b(7) [of u] by (simp add: waits_ok_def)
  moreover have "placed ty N SF cur ?s u" "lock_ok cur ?s u" for u
    using b(5) [of u] b(6) [of u] by (simp_all add: placed_def lock_ok_def)
  moreover have "together ?s" "tell_ok cur ?s" using b(2,4) by (simp_all add: together_def tell_ok_def)
  moreover have "count_ok cur ?s u" for u by (rule count_ok_same [OF b(8)]) simp_all
  ultimately show ?thesis using fl b(1) by (simp add: bench_ok_def)
qed

text \<open>All steps keep the invariant.\<close>

theorem bench_ok_step:
  assumes ok: "bench_ok ty N SF cur s" and "bench_step s e s'"
  shows "\<exists>cur'. bench_ok ty N SF cur' s'"
  using assms(2)
proof cases
  case start
  then show ?thesis using bench_start [OF ok] by blast
next
  case (arrive t xs a)
  then show ?thesis using bench_arrive [OF ok] by blast
next
  case (leave t xs a)
  then show ?thesis using bench_leave [OF ok] by blast
next
  case (await_start t xs)
  then show ?thesis using bench_local [OF ok] by blast
next
  case (work t k xs)
  then show ?thesis using bench_local [OF ok] by blast
next
  case (count_load t xs)
  then show ?thesis using bench_load [OF ok] by blast
next
  case (count_store t xs v)
  then show ?thesis using bench_store [OF ok] by blast
next
  case (set_start t v xs)
  then show ?thesis using bench_set [OF ok] by blast
next
  case (mutex t x xs e b)
  then show ?thesis using bench_lock [OF ok] by blast
next
  case (flag_set t xs)
  then show ?thesis using bench_flag_set [OF ok] by blast
next
  case (flag_wait t xs e b)
  then show ?thesis using bench_flag_wait [OF ok] by blast
next
  case (announce t xs b)
  then show ?thesis using bench_announce [OF ok] by blast
next
  case (notify t xs b)
  then show ?thesis using bench_notify [OF ok] by blast
next
  case (disturb b u)
  then show ?thesis using bench_disturb [OF ok] by blast
qed

end
