(* ===== verification/Sync_Deadlock.thy ===== *)
theory Sync_Deadlock imports Sync_Signals begin

text \<open>
  Where no thread of the benchmark can go on, all of them have come to their end: an owner of a
  mutex can always go on, a sleeper has thread 0 before it, and of the threads at the barrier
  the one that has arrived least often can leave.
\<close>

section \<open>No deadlock\<close>

lemma cur_head:
  assumes ok: "bench_ok ty N SF cur s" and "cur t = x # ys"
  shows "\<exists>xs. todo s t = x # xs" "t < width s" "stands ty t (passed s t) (x # ys)" "arrived (point s) t = passed s t" "passed s t \<le> N"
  using bench_okD(5) [OF ok, of t] assms(2) by (auto simp: placed_def split: if_splits)

lemma wait_moves:
  "todo s t = AwaitCond # xs \<Longrightarrow> e \<in> wait_acts s t \<Longrightarrow> \<exists>m. monitor_step (objects s) e m \<Longrightarrow> \<exists>s'. bench_step s (By t) s'"
  by (blast intro: bench_step.flag_wait)

text \<open>The owner of a mutex can go on.\<close>

lemma owner_moves:
  assumes ok: "bench_ok ty N SF cur s" and ow: "owner (objects s) 1 = Some t"
  shows "\<exists>s'. bench_step s (By t) s'"
proof -
  note b = bench_okD [OF ok]
  have c: "critical (cur t) (waiters (objects s) t) \<or> leaving (cur t) (waiters (objects s) t)"
    using b(6) [of t] ow by (simp add: lock_ok_def)
  then obtain x ys where x: "cur t = x # ys" by (cases "cur t") auto
  from cur_head(1) [OF ok x] obtain xs where td: "todo s t = x # xs" by blast
  have gives: "monitor_step (objects s) (Gives t 1) ((objects s)\<lparr>owner := (owner (objects s))(1 := None)\<rparr>)"
    if "may_give 1 (waiters (objects s) t)" using ow that by simp
  consider v where "x = SetStart v" | "x = UnlockCond" | "x = AwaitCond" "waiters (objects s) t = None"
    | c m k where "x = AwaitCond" "waiters (objects s) t = Some (Leaving c m k)"
    using c x by (cases x; auto elim!: leaving.elims)
  then show ?thesis
  proof cases
    case 1
    with td show ?thesis by (blast intro: bench_step.set_start)
  next
    case 2
    then have "waiters (objects s) t = None" using b(7) [of t] x by (auto simp: waits_ok_def)
    with gives 2 td show ?thesis by (auto intro!: exI bench_step.mutex)
  next
    case 3
    show ?thesis
    proof (cases "start_flag s = 0")
      case True
      with 3 td ow show ?thesis
        by (intro wait_moves [where e = "Joins t 0 1"]) (auto simp: wait_acts_def)
    next
      case False
      with 3 td show ?thesis by (blast intro: bench_step.flag_set)
    qed
  next
    case 4
    then have "m = 1" using b(7) [of t] by (auto simp: waits_ok_def)
    with gives 4 td show ?thesis
      by (intro wait_moves [where e = "Gives t 1"]) (auto simp: wait_acts_def)
  qed
qed

lemma counter_moves:
  assumes ok: "bench_ok ty N SF cur s" and ow: "owner (objects s) 0 = Some t"
  shows "\<exists>s'. bench_step s (By t) s'"
proof -
  note b = bench_okD [OF ok]
  have c: "counting (cur t)" using b(8) [of t] ow by (simp add: count_ok_def)
  then obtain x ys where x: "cur t = x # ys" by (cases "cur t") auto
  from cur_head(1) [OF ok x] obtain xs where td: "todo s t = x # xs" by blast
  consider "x = CountCritical" | "x = UnlockMutex" using c x by (auto elim: counting.elims)
  then show ?thesis
  proof cases
    case 1
    with td show ?thesis by (cases "loaded s t") (blast intro: bench_step.count_load bench_step.count_store)+
  next
    case 2
    then have "waiters (objects s) t = None" using b(7) [of t] x by (auto simp: waits_ok_def)
    with ow 2 td show ?thesis by (auto intro!: exI bench_step.mutex)
  qed
qed

text \<open>When nobody owns a mutex only a sleeper is held within a part.\<close>

lemma waiter_moves:
  assumes ok: "bench_ok ty N SF cur s" and ow: "owner (objects s) 1 = None" and td: "todo s t = AwaitCond # xs"
    and w: "waiters (objects s) t = Some w" and "\<And>c m. w \<noteq> Sleeping c m"
  shows "\<exists>s'. bench_step s (By t) s'"
proof (cases w)
  case (Leaving c m k)
  then have "m = 1" using bench_okD(7) [OF ok, of t] w by (auto simp: waits_ok_def)
  with ow w td Leaving show ?thesis
    by (intro wait_moves [where e = "if k = 0 then Sleeps t else Stays t"]) (auto simp: wait_acts_def)
next
  case (Woken m)
  then have "m = 1" using bench_okD(7) [OF ok, of t] w by (auto simp: waits_ok_def)
  with ow w td Woken show ?thesis
    by (intro wait_moves [where e = "Comes t 1"]) (auto simp: wait_acts_def)
qed (use assms(5) in blast)

lemma part_moves:
  assumes ok: "bench_ok ty N SF cur s" and x: "cur t = x # ys" and st: "started s"
    and ow: "owner (objects s) 0 = None" "owner (objects s) 1 = None"
  shows "(\<exists>s'. bench_step s (By t) s') \<or> (\<exists>m c. waiters (objects s) t = Some (Sleeping c m))"
proof -
  note b = bench_okD [OF ok] and h = cur_head [OF ok x]
  from h(1) obtain xs where td: "todo s t = x # xs" by blast
  have none: "x \<noteq> AwaitCond \<Longrightarrow> waiters (objects s) t = None" using b(7) [of t] x by (auto simp: waits_ok_def)
  show ?thesis
  proof (cases x)
    case BarrierWait
    with h(3) in_work_set [of "passed s t" "x # ys" x] have False
      by (auto simp: stands_def reset_part_def wait_part_def split: if_splits)
    then show ?thesis ..
  next
    case AwaitStart
    with h(3) in_work_set [of "passed s t" "x # ys" x] have "passed s t = 1"
      by (auto simp: stands_def reset_part_def wait_part_def split: if_splits)
    moreover have "passed s 0 \<le> arrived (point s) t" using b(2) h(2) by (auto simp: together_def)
    ultimately have "passed s 0 = 0 \<or> passed s 0 = 1" using h(4) by auto
    then have "\<not> zero_window ty cur s" by (auto simp: zero_window_def reset_at_def wait_at_def)
    then have "start_flag s \<noteq> 0" using b(3) st by (simp add: flag_ok_def)
    with td AwaitStart show ?thesis by (blast intro: bench_step.await_start)
  next
    case (Work k)
    with td show ?thesis by (blast intro: bench_step.work)
  next
    case LockMutex
    with td ow none show ?thesis by (auto intro!: exI bench_step.mutex)
  next
    case CountCritical
    with b(8) [of t] x ow show ?thesis by (simp add: count_ok_def)
  next
    case UnlockMutex
    with b(8) [of t] x ow show ?thesis by (simp add: count_ok_def)
  next
    case (SetStart v)
    with td show ?thesis by (blast intro: bench_step.set_start)
  next
    case LockCond
    with td ow none show ?thesis by (auto intro!: exI bench_step.mutex)
  next
    case UnlockCond
    with b(6) [of t] x ow show ?thesis by (simp add: lock_ok_def)
  next
    case AwaitCond
    show ?thesis
    proof (cases "waiters (objects s) t")
      case None
      with AwaitCond b(6) [of t] x ow show ?thesis by (simp add: lock_ok_def)
    next
      case (Some w)
      with waiter_moves [OF ok ow(2)] td AwaitCond show ?thesis by blast
    qed
  next
    case BroadcastStart
    show ?thesis
    proof (cases "telling s t")
      case True
      with td BroadcastStart show ?thesis by (auto intro!: exI bench_step.notify)
    next
      case False
      with td BroadcastStart show ?thesis by (auto intro!: exI bench_step.announce)
    qed
  qed
qed

text \<open>Where no thread can go on, all are done.\<close>

lemma barrier_held:
  assumes ok: "bench_ok ty N SF cur s" and td: "todo s t = BarrierWait # xs" and stuck: "\<And>s'. \<not> bench_step s (By t) s'"
  shows "arrived (point s) t = Suc (passed s t)" "\<exists>u<width s. arrived (point s) u \<le> passed s t" "passed s t < N" "t < width s"
proof -
  note b = bench_okD [OF ok] and hp = head_place [OF bench_okD(5) [OF ok] td bench_okD(1) [OF ok]]
  show "passed s t < N" "t < width s" using hp by auto
  have "arrived (point s) t \<noteq> passed s t"
    using stuck td by (auto dest: bench_step.arrive)
  with b(5) [of t] hp(1) show a: "arrived (point s) t = Suc (passed s t)" by (auto simp: placed_def)
  show "\<exists>u<width s. arrived (point s) u \<le> passed s t"
  proof (rule ccontr)
    assume "\<not> ?thesis"
    then have "\<forall>u. meets (point s) t u \<longrightarrow> passed s t < arrived (point s) u" using b(2) by (auto simp: together_def)
    with a have "meeting_step (point s) (Leave t) ((point s)\<lparr>left := (left (point s))(t := Suc (passed s t))\<rparr>)" by simp
    with stuck td show False by (blast dest: bench_step.leave)
  qed
qed

lemma stuck_done:
  assumes ok: "bench_ok ty N SF cur s" and stuck: "\<And>t s'. \<not> bench_step s (By t) s'" and st: "started s"
  shows "todo s t = []"
proof -
  note b = bench_okD [OF ok] and held = barrier_held [OF ok _ stuck]
  have n0: "0 < width s" using b(1) by (simp add: plan_ok_def)
  have ow: "owner (objects s) 0 = None" "owner (objects s) 1 = None"
    using owner_moves [OF ok] counter_moves [OF ok] stuck by (metis not_Some_eq)+
  have cur0: "cur 0 = []"
  proof (cases "cur 0")
    case (Cons x ys)
    with part_moves [OF ok Cons st ow] stuck b(7) [of 0] show ?thesis by (auto simp: waits_ok_def)
  qed
  have sleeper: "passed s 0 < passed s t \<and> arrived (point s) t = passed s t \<and> passed s t < N" if c: "cur t = x # ys" for t x ys
  proof -
    from part_moves [OF ok c st ow] stuck obtain d m where "waiters (objects s) t = Some (Sleeping d m)" by blast
    with b(7) [of t] cur0 have "passed s 0 < passed s t" "x = AwaitCond" using c by (auto simp: waits_ok_def ahead_def)
    moreover have "passed s t \<noteq> N" using stands_head(4) cur_head(3) [OF ok c] calculation(2) b(1) by (auto simp: plan_ok_def)
    ultimately show ?thesis using cur_head(4,5) [OF ok c] by simp
  qed
  have done0: "passed s t = N \<and> N \<le> arrived (point s) t" if "todo s t = []" "t < width s" for t
    using b(1) b(5) [of t] that by (auto simp: placed_def plan_ok_def join_parts_def)
  have at: "todo s t = BarrierWait # xs \<or> (\<exists>ys. cur t = x # ys)" if "todo s t = x # xs" for t x xs
    using head_place [OF b(5) that b(1)] that by blast
  obtain u where u: "u < width s" "\<And>v. v < width s \<Longrightarrow> arrived (point s) u \<le> arrived (point s) v"
    using ex_has_least_nat [where P = "\<lambda>v. v < width s" and m = "arrived (point s)"] n0 by blast
  have "todo s u = []"
  proof (cases "todo s u")
    case (Cons x xs)
    from at [OF Cons] show ?thesis
    proof
      assume "todo s u = BarrierWait # xs"
      from held [OF this] u(2) show ?thesis by (metis Suc_n_not_le_n le_trans)
    next
      assume "\<exists>ys. cur u = x # ys"
      then have su: "passed s 0 < passed s u" "arrived (point s) u = passed s u" "passed s u < N" using sleeper by blast+
      then have "todo s 0 \<noteq> []" using done0 n0 by fastforce
      then obtain y zs where y: "todo s 0 = y # zs" by (cases "todo s 0") auto
      with at [OF y] cur0 have "todo s 0 = BarrierWait # zs" by simp
      from held(2) [OF this] su u(2) show ?thesis by (metis leD le_trans)
    qed
  qed
  from done0 [OF this u(1)] u(2) have all: "v < width s \<Longrightarrow> N \<le> arrived (point s) v" for v using le_trans by blast
  show ?thesis
  proof (cases "todo s t")
    case (Cons x xs)
    from at [OF Cons] show ?thesis
    proof
      assume "todo s t = BarrierWait # xs"
      from held [OF this] all show ?thesis by (metis leD le_trans)
    next
      assume "\<exists>ys. cur t = x # ys"
      with sleeper cur_head(2) [OF ok] all show ?thesis by (metis leD)
    qed
  qed simp
qed

end
