(* ===== verification/Sync_Run.thy ===== *)
theory Sync_Run imports Sync_Deadlock begin

text \<open>
  From the start of the benchmark to its end: the initial states satisfy the invariant, the
  counter with the increments to come is constant, and a measure falls with every step that is
  not a disturbed wait.
\<close>

section \<open>The start\<close>

lemma main_threads_idx:
  assumes "t < nat (thr_cnt p)"
  shows "tidx (main_threads p ! t) = int t"
proof -
  have "map tidx (thread_args q e ts) = ts" for q e ts
    by (induction ts arbitrary: e) simp_all
  then have "map tidx (main_threads p) = map int [0..<nat (thr_cnt p)]" by (simp add: main_threads_def Let_def)
  then have "map tidx (main_threads p) ! t = map int [0..<nat (thr_cnt p)] ! t" "length (main_threads p) = nat (thr_cnt p)"
    by (simp, metis length_map length_upt diff_zero)
  with assms show ?thesis by simp
qed

text \<open>Accepted parameters, a worker that returns and counters that do not wrap around.\<close>

definition accepted :: "worker_func \<Rightarrow> cmd_params \<Rightarrow> bool" where
  "accepted func p \<longleftrightarrow> check_parameters p = Inr p \<and> 0 < thr_cnt p \<and> total_worker func \<and>
     unat (total_iters p) div nat (thr_cnt p) + unat (bar_iters p) \<le> 2 ^ 64"

definition portions_of :: "cmd_params \<Rightarrow> nat list" where
  "portions_of p = portions (unat (bar_iters p)) (unat (total_iters p) div nat (thr_cnt p))"

definition extra_of :: "cmd_params \<Rightarrow> tid \<Rightarrow> act list" where
  "extra_of p t = (if extra_trial (main_threads p ! t) \<noteq> 0 then [Work (extra_trial (main_threads p ! t))] else [])"

lemma bench_start_todo:
  assumes acc: "accepted func p" and init: "bench_init func p s"
  shows "width s = nat (thr_cnt p)"
    and "t < width s \<Longrightarrow> todo s t = [BarrierWait, AwaitStart] @ rounds (sync_type p) (int t) (portions_of p) @ extra_of p t"
proof -
  have ok: "thr_cnt p \<le> MAX_THREADS" "0 < thr_cnt p"
    using acc by (auto simp: accepted_def check_parameters_def split: if_splits)
  note m = main_threads_facts [OF ok(2,1)]
  show w: "width s = nat (thr_cnt p)" using init m(1) by (simp add: bench_init_def)
  assume t: "t < width s"
  let ?a = "main_threads p ! t"
  have a: "?a \<in> set (main_threads p)" using t w m(1) by simp
  with m(3) have it: "unat (thr_iters ?a) = unat (total_iters p) div nat (thr_cnt p)" by blast
  have "\<exists>res. \<forall>a\<in>set (main_threads p). thread_func func p a = Some (Done (res a)) \<and> acts (res a) = thread_acts p a"
    using acc by (intro benchmark_results) (simp_all add: accepted_def)
  with a obtain r where r: "thread_func func p ?a = Some (Done r)" "acts r = thread_acts p ?a" by blast
  from init have "if t < width s then \<exists>r. thread_func func p ?a = Some (Done r) \<and> todo s t = acts r else todo s t = []"
    unfolding bench_init_def by blast
  with t obtain r' where "thread_func func p ?a = Some (Done r')" "todo s t = acts r'" by auto
  with r have "todo s t = thread_acts p ?a" by simp
  then show "todo s t = [BarrierWait, AwaitStart] @ rounds (sync_type p) (int t) (portions_of p) @ extra_of p t"
    using t w main_threads_idx it by (simp add: thread_acts_def extra_of_def portions_of_def)
qed

lemma bench_start_ok:
  assumes acc: "accepted func p" and init: "bench_init func p s"
  shows "\<exists>N SF cur. bench_ok (sync_type p) N SF cur s"
proof -
  let ?ty = "sync_type p"
  let ?N = "Suc ((if ?ty = 2 then 3 else 1) * length (portions_of p))" and ?SF = "\<lambda>t. segments ?ty t (portions_of p) (extra_of p t)"
  have e: "\<forall>x\<in>set (extra_of p t). works 0 x" for t by (simp add: extra_of_def)
  have len: "length (?SF t) = Suc ?N" for t by (simp add: segments_def plan_length)
  note td = bench_start_todo [OF assms]
  have n0: "0 < width s" using td(1) acc by (simp add: accepted_def)
  have "\<not> wait_at ?ty ?N" by (auto simp: wait_at_def mod_Suc)
  moreover have "\<exists>xs. plan ty t [AwaitStart] ns e ! 0 = AwaitStart # xs" for ty t ns e
    by (cases ns) simp_all
  then have "\<exists>xs. ?SF t ! 1 = AwaitStart # xs" "?SF t ! 0 = []" for t by (simp_all add: segments_def)
  ultimately have pl: "plan_ok ?ty ?N ?SF (width s)"
    using len n0 segments_full [OF e] unfolding plan_ok_def by (metis less_Suc_eq_le)
  have p0: "passed s t = 0" "arrived (point s) t = 0" "owner (objects s) m = None" "waiters (objects s) t = None" for t m
    using init by (simp_all add: bench_init_def meeting_init_def monitor_init_def)
  have "todo s t = join_parts [] (drop 1 (?SF t))" if "t < width s" for t
    using td(2) [OF that] segments_join [of ?ty t "portions_of p" "extra_of p t"] by (simp add: segments_def)
  then have "placed ?ty ?N ?SF (\<lambda>t. []) s t" for t
    using init p0 by (auto simp: placed_def bench_init_def stands_def reset_at_def wait_at_def in_work_def)
  moreover have "together s" using init p0 by (auto simp: together_def bench_init_def)
  moreover have "flag_ok ?ty (\<lambda>t. []) s" using init p0 by (auto simp: flag_ok_def bench_init_def)
  moreover have "tell_ok (\<lambda>t. []) s" using init by (simp add: tell_ok_def bench_init_def)
  moreover have "lock_ok (\<lambda>t. []) s t" "waits_ok (\<lambda>t. []) s t" "count_ok (\<lambda>t. []) s t" for t
    using init p0 by (simp_all add: lock_ok_def waits_ok_def count_ok_def bench_init_def)
  ultimately have "bench_ok ?ty ?N ?SF (\<lambda>t. []) s" using pl by (simp add: bench_ok_def)
  then show ?thesis by blast
qed

section \<open>The counter\<close>

text \<open>No increment is lost: the counter and the increments still to come are constant together.\<close>

definition counted :: "bench \<Rightarrow> u64" where
  "counted s = counter s + of_nat (\<Sum>t<width s. count_list (todo s t) CountCritical)"

lemma sum_at:
  fixes f g :: "nat \<Rightarrow> nat"
  assumes "t < n" and "\<And>u. u \<noteq> t \<Longrightarrow> f u = g u"
  shows "sum f {..<n} + g t = sum g {..<n} + f t"
proof -
  have "sum f ({..<n} - {t}) = sum g ({..<n} - {t})" using assms(2) by (intro sum.cong) auto
  with assms(1) show ?thesis by (simp add: sum.remove [of "{..<n}" t])
qed

lemma counted_next:
  assumes "t < width s" and "todo s t = x # xs" and "width s' = width s" and "todo s' = (todo s)(t := xs)"
    and "counter s' = counter s + (if x = CountCritical then 1 else 0)"
  shows "counted s' = counted s"
proof -
  let ?f = "\<lambda>s t. count_list (todo s t) CountCritical"
  have "sum (?f s') {..<width s} + ?f s t = sum (?f s) {..<width s} + ?f s' t"
    by (rule sum_at [OF assms(1)]) (simp add: assms(4))
  then have "sum (?f s) {..<width s} = sum (?f s') {..<width s} + (if x = CountCritical then 1 else 0)"
    using assms(2,4) by (auto split: if_splits)
  then show ?thesis using assms(3,5) by (simp add: counted_def)
qed

lemma step_todo:
  assumes "bench_step s e s'"
  shows "width s' = width s \<and> (todo s' = todo s \<and> counter s' = counter s \<or>
    (\<exists>t x xs. todo s t = x # xs \<and> todo s' = (todo s)(t := xs) \<and>
      (if x = CountCritical then \<exists>v. loaded s t = Some v \<and> counter s' = v + 1 else counter s' = counter s)))"
  using assms
proof cases
  case (mutex t x xs e b)
  then have "x \<noteq> CountCritical" by auto
  with mutex show ?thesis by auto
qed auto

lemma counted_step:
  assumes ok: "bench_ok ty N SF cur s" and st: "bench_step s e s'"
  shows "counted s' = counted s"
proof -
  note b = bench_okD [OF ok]
  from step_todo [OF st] consider "width s' = width s" "todo s' = todo s" "counter s' = counter s"
    | t x xs where "width s' = width s" "todo s t = x # xs" "todo s' = (todo s)(t := xs)"
      "if x = CountCritical then \<exists>v. loaded s t = Some v \<and> counter s' = v + 1 else counter s' = counter s" by blast
  then show ?thesis
  proof cases
    case 1
    then show ?thesis by (simp add: counted_def)
  next
    case (2 t x xs)
    have "t < width s" using head_place(1) [OF b(5) 2(2) b(1)] .
    moreover have "counter s' = counter s + (if x = CountCritical then 1 else 0)"
      using 2(4) b(8) [of t] by (auto simp: count_ok_def split: if_splits)
    ultimately show ?thesis using 2 by (intro counted_next) auto
  qed
qed

lemma rounds_count: "count_list (rounds ty t ns) CountCritical = (if ty = 1 then length ns else 0)"
proof (induction ns)
  case (Cons n ns)
  have "count_list (fst (sync_round ty t)) CountCritical = (if ty = 1 then 1 else 0)"
    by (simp add: sync_round_def sync_default_def)
  with Cons show ?case by (simp add: rounds_def)
qed (simp add: rounds_def)

definition calls_of :: "cmd_params \<Rightarrow> nat" where
  "calls_of p = (if sync_type p = 1 then nat (thr_cnt p) *
     ((unat (total_iters p) div nat (thr_cnt p) + unat (bar_iters p) - 1) div unat (bar_iters p)) else 0)"

lemma counted_start:
  assumes acc: "accepted func p" and init: "bench_init func p s"
  shows "counted s = of_nat (calls_of p)"
proof -
  note td = bench_start_todo [OF assms]
  have b: "0 < unat (bar_iters p)"
    using acc by (auto simp: accepted_def check_parameters_def unat_gt_0 split: if_splits)
  have "count_list (todo s t) CountCritical = (if sync_type p = 1 then length (portions_of p) else 0)" if "t < width s" for t
    using td(2) [OF that] by (simp add: rounds_count extra_of_def)
  then have "(\<Sum>t<width s. count_list (todo s t) CountCritical) = width s * (if sync_type p = 1 then length (portions_of p) else 0)"
    by simp
  moreover have "counter s = 0" using init by (simp add: bench_init_def)
  ultimately show ?thesis using td(1) b by (simp add: counted_def calls_of_def portions_of_def portions_length)
qed

section \<open>Termination\<close>

definition stage :: "bench \<Rightarrow> tid \<Rightarrow> nat" where
  "stage s t = (case waiters (objects s) t of
     None \<Rightarrow> if start_flag s = 0 then 4 else 0
   | Some (Leaving c m k) \<Rightarrow> (if k = 0 then 2 else 6) + (if owner (objects s) 1 = Some t then 1 else 0)
   | Some (Sleeping c m) \<Rightarrow> 1
   | Some (Woken m) \<Rightarrow> 5)"

definition pending :: "bench \<Rightarrow> tid \<Rightarrow> nat" where
  "pending s t = (if arrived (point s) t = passed s t then 1 else 0) + (if telling s t then 0 else 1) +
     (if loaded s t = None then 1 else 0) + (if started s then 0 else 1)"

definition bench_rank :: "bench \<Rightarrow> nat \<times> nat \<times> nat" where
  "bench_rank s = (\<Sum>t<width s. length (todo s t), \<Sum>t<width s. pending s t, \<Sum>t<width s. stage s t)"

abbreviation rank_less :: "((nat \<times> nat \<times> nat) \<times> (nat \<times> nat \<times> nat)) set" where
  "rank_less \<equiv> less_than <*lex*> less_than <*lex*> less_than"

lemma sum_falls:
  fixes f g :: "nat \<Rightarrow> nat"
  assumes "t < n" and "f t < g t" and "\<And>u. u \<noteq> t \<Longrightarrow> f u = g u"
  shows "sum f {..<n} < sum g {..<n}"
proof -
  from sum_at [OF assms(1), of f g] assms(3) have "sum f {..<n} + g t = sum g {..<n} + f t" by blast
  with assms(2) show ?thesis by linarith
qed

lemma rank_next:
  assumes "t < width s" and "todo s t = x # xs" and "width s' = width s" and "todo s' = (todo s)(t := xs)"
  shows "(bench_rank s', bench_rank s) \<in> rank_less"
  using sum_falls [of t "width s" "\<lambda>t. length (todo s' t)" "\<lambda>t. length (todo s t)"] assms by (simp add: bench_rank_def)

lemma rank_pending:
  assumes "t < width s" and "width s' = width s" and "todo s' = todo s"
    and "pending s' t < pending s t" and "\<And>u. u \<noteq> t \<Longrightarrow> pending s' u = pending s u"
  shows "(bench_rank s', bench_rank s) \<in> rank_less"
  using sum_falls [of t "width s" "pending s'" "pending s"] assms by (simp add: bench_rank_def)

lemma rank_stage:
  assumes "t < width s" and "width s' = width s" and "todo s' = todo s" and "pending s' = pending s"
    and "stage s' t < stage s t" and "\<And>u. u \<noteq> t \<Longrightarrow> stage s' u = stage s u"
  shows "(bench_rank s', bench_rank s) \<in> rank_less"
  using sum_falls [of t "width s" "stage s'" "stage s"] assms by (simp add: bench_rank_def)

lemma wait_stage:
  assumes e: "e \<in> wait_acts s t" and st: "monitor_step (objects s) e m" and one: "\<And>w. waiters (objects s) t = Some w \<Longrightarrow> waiter_ok cur s t w"
  shows "stage (s\<lparr>objects := m\<rparr>) t < stage s t" and "u \<noteq> t \<Longrightarrow> stage (s\<lparr>objects := m\<rparr>) u = stage s u"
proof -
  show "u \<noteq> t \<Longrightarrow> stage (s\<lparr>objects := m\<rparr>) u = stage s u"
    using e st by (auto simp: wait_acts_def stage_def split: if_splits option.splits waiter.splits)
  show "stage (s\<lparr>objects := m\<rparr>) t < stage s t"
  proof (cases "waiters (objects s) t")
    case None
    with e st show ?thesis by (auto simp: wait_acts_def stage_def split: if_splits)
  next
    case (Some w)
    with e st one [OF Some] show ?thesis by (cases w) (auto simp: wait_acts_def stage_def split: if_splits)
  qed
qed

lemma bench_rank_step:
  assumes ok: "bench_ok ty N SF cur s" and st: "bench_step s e s'" and "\<forall>u. e \<noteq> Disturb u"
  shows "(bench_rank s', bench_rank s) \<in> rank_less"
proof -
  note b = bench_okD [OF ok]
  have t: "t < width s" if "todo s t = x # xs" for t x xs
    using head_place(1) [OF b(5) that b(1)] .
  have n0: "0 < width s" using b(1) by (simp add: plan_ok_def)
  from st show ?thesis
  proof cases
    case start
    then have "pending s' u = pending s u - 1" "0 < pending s u" for u by (simp_all add: pending_def)
    then have "sum (pending s') {..<width s} < sum (pending s) {..<width s}"
      using n0 by (intro sum_strict_mono) auto
    with start show ?thesis by (simp add: bench_rank_def)
  next
    case (arrive t xs a)
    then show ?thesis by (intro rank_pending [OF t]) (auto simp: pending_def)
  next
    case (count_load t xs)
    then show ?thesis by (intro rank_pending [OF t]) (auto simp: pending_def)
  next
    case (announce t xs m)
    then show ?thesis by (intro rank_pending [OF t]) (auto simp: pending_def)
  next
    case (flag_wait t xs e m)
    have "waiter_ok cur s t w" if "waiters (objects s) t = Some w" for w
      using b(7) [of t] that by (simp add: waits_ok_def)
    from wait_stage [OF flag_wait(4,5) this] flag_wait show ?thesis
      by (intro rank_stage [OF t]) (auto simp: pending_def)
  next
    case (disturb m u)
    with assms(3) show ?thesis by blast
  qed (auto intro!: rank_next [OF t])
qed

end
