(* ===== verification/Sync_Run_Props.thy ===== *)
theory Sync_Run_Props imports Sync_Run begin

text \<open>
  The promises of the benchmark as a whole: its threads come to their end under every
  schedule and no increment of the counter is lost.
\<close>

section \<open>All runs\<close>

definition bench_starts :: "worker_func \<Rightarrow> cmd_params \<Rightarrow> bench \<Rightarrow> bool" where
  "bench_starts func p s \<longleftrightarrow> accepted func p \<and> bench_init func p s"

definition bench_inv :: "cmd_params \<Rightarrow> bench \<Rightarrow> bool" where
  "bench_inv p s \<longleftrightarrow> (\<exists>N SF cur. bench_ok (sync_type p) N SF cur s) \<and> counted s = of_nat (calls_of p)"

definition undisturbed :: "bench_event \<Rightarrow> bool" where
  "undisturbed e \<longleftrightarrow> (\<forall>u. e \<noteq> Disturb u)"

interpretation bench_runs: descends "bench_starts func p" bench_step "bench_inv p" undisturbed rank_less bench_rank
  for func p
proof unfold_locales
  show "bench_inv p s" if "bench_starts func p s" for s
    using that bench_start_ok counted_start by (auto simp: bench_starts_def bench_inv_def)
  show "bench_inv p s'" if "bench_inv p s" "bench_step s e s'" for s e s'
  proof -
    from that(1) obtain N SF cur where ok: "bench_ok (sync_type p) N SF cur s" by (auto simp: bench_inv_def)
    with bench_ok_step [OF ok that(2)] counted_step [OF ok that(2)] that(1) show ?thesis by (auto simp: bench_inv_def)
  qed
  show "wf rank_less" by blast
  show "(bench_rank s', bench_rank s) \<in> rank_less" if "bench_inv p s" "bench_step s e s'" "undisturbed e" for s e s'
    using that bench_rank_step by (auto simp: bench_inv_def undisturbed_def)
qed

lemma bench_rest:
  assumes "bench_inv p s" and "\<not> (\<exists>e s'. undisturbed e \<and> bench_step s e s')"
  shows "todo s t = []" and "counter s = of_nat (calls_of p)"
proof -
  from assms(1) obtain N SF cur where ok: "bench_ok (sync_type p) N SF cur s" and c: "counted s = of_nat (calls_of p)"
    by (auto simp: bench_inv_def)
  have "undisturbed Start" "undisturbed (By t)" for t by (simp_all add: undisturbed_def)
  with assms(2) have stuck: "\<not> bench_step s Start s'" "\<not> bench_step s (By t) s'" for t s' by blast+
  have st: "started s" using stuck(1) by (blast intro: bench_step.start)
  show all: "todo s t = []" for t by (rule stuck_done [OF ok stuck(2) st])
  show "counter s = of_nat (calls_of p)" using c all by (simp add: counted_def)
qed

text \<open>C39: the threads of a benchmark with accepted parameters, a positive number of threads, a worker
  function that returns for every number of trials and counters that do not wrap around (as in
  the claim on the iterations), interleaved in any way on the abstract barrier and monitor, all
  come to their end after finitely many steps from any reachable state, whatever waits have
  been disturbed before it, in every run that goes on as long as a step that is not a disturbed
  wait is possible: there is no deadlock, no thread waits for a broadcast that has
  been made, and no two threads chase each other for ever. Then the counter of the critical
  sections, which is not incremented atomically, is the number of threads times the number of
  rounds with the synchronization type 1 and 0 with the others.\<close>

theorem sync_benchmark_terminates:
  assumes "check_parameters p = Inr p" and "0 < thr_cnt p" and "total_worker func"
    and "unat (total_iters p) div nat (thr_cnt p) + unat (bar_iters p) \<le> 2 ^ 64"
    and "reach (bench_init func p) bench_step (f 0)"
    and "\<forall>i. (\<exists>e. (\<forall>u. e \<noteq> Disturb u) \<and> bench_step (f i) e (f (Suc i))) \<or>
      f (Suc i) = f i \<and> \<not> (\<exists>e s'. (\<forall>u. e \<noteq> Disturb u) \<and> bench_step (f i) e s')"
  shows "\<exists>n. (\<forall>i\<ge>n. f i = f n) \<and> (\<forall>t. todo (f n) t = []) \<and>
    counter (f n) = (if sync_type p = 1 then of_nat (nat (thr_cnt p) *
      ((unat (total_iters p) div nat (thr_cnt p) + unat (bar_iters p) - 1) div unat (bar_iters p))) else 0)"
proof -
  have "bench_starts func p = bench_init func p"
    using assms(1-4) by (intro ext) (simp add: bench_starts_def accepted_def)
  with assms(5) have inv: "bench_inv p (f 0)" using bench_runs.reach_inv [of func p "f 0"] by simp
  from bench_runs.comes_to_rest [of p f "\<lambda>s. \<not> (\<exists>e s'. undisturbed e \<and> bench_step s e s')", OF inv] assms(6)
  obtain n where n: "\<forall>i\<ge>n. f i = f n" "\<not> (\<exists>e s'. undisturbed e \<and> bench_step (f n) e s')"
    unfolding undisturbed_def by metis
  have "bench_inv p (f i)" for i
  proof (induction i)
    case (Suc i)
    then show ?case using bench_runs.inv_step [of p "f i"] assms(6) by metis
  qed (rule inv)
  note rest = bench_rest [OF this n(2)]
  show ?thesis
  proof (intro exI conjI)
    show "\<forall>i\<ge>n. f i = f n" by (rule n(1))
    show "\<forall>t. todo (f n) t = []" using rest(1) by blast
    show "counter (f n) = (if sync_type p = 1 then of_nat (nat (thr_cnt p) *
      ((unat (total_iters p) div nat (thr_cnt p) + unat (bar_iters p) - 1) div unat (bar_iters p))) else 0)"
      using rest(2) by (simp add: calls_of_def)
  qed
qed

text \<open>Ten iterations by three threads, two between two barriers, with the mutex and with the
  condition variable; the schedule is any that goes on as long as a thread can.\<close>

definition bench0 :: "worker_func \<Rightarrow> cmd_params \<Rightarrow> bench" where
  "bench0 func p = \<lparr>width = length (main_threads p),
     todo = (\<lambda>t. if t < length (main_threads p) then (case thread_func func p (main_threads p ! t) of
       Some (Done r) \<Rightarrow> acts r | _ \<Rightarrow> []) else []),
     point = \<lparr>meets = (\<lambda>t u. t < length (main_threads p) \<and> u < length (main_threads p)), arrived = (\<lambda>t. 0), left = (\<lambda>t. 0)\<rparr>,
     objects = \<lparr>owner = (\<lambda>m. None), waiters = (\<lambda>t. None)\<rparr>, start_flag = 0, started = False,
     telling = (\<lambda>t. False), counter = 0, loaded = (\<lambda>t. None)\<rparr>"

lemma bench0_init:
  assumes "\<forall>a\<in>set (main_threads p). thread_func func p a = Some (Done (res a))"
  shows "bench_init func p (bench0 func p)"
  using assms by (auto simp: bench_init_def bench0_def meeting_init_def monitor_init_def)

theorem sync_benchmark_terminates_witness:
  "(\<exists>f. f (0 :: nat) = bench0 add_worker (small_params\<lparr>sync_type := 1\<rparr>) \<and> (\<exists>n. todo (f n) = (\<lambda>t. []) \<and> counter (f n) = 6)) \<and>
   (\<exists>f. f (0 :: nat) = bench0 add_worker small_params \<and> (\<exists>n. todo (f n) = (\<lambda>t. []) \<and> counter (f n) = 0))"
proof -
  have run: "\<exists>f. f (0 :: nat) = bench0 add_worker p \<and> (\<exists>n. todo (f n) = (\<lambda>t. []) \<and> counter (f n) = (if sync_type p = 1 then 6 else 0))"
    if p: "p = small_params\<lparr>sync_type := ty\<rparr>" for p ty
  proof -
    have c: "check_parameters p = Inr p" "total_worker add_worker"
      by (simp_all add: p check_parameters_def small_params_def init_parameters_def MAX_THREADS_def total_worker_def add_worker_result)
    have v: "thr_cnt p = 3" "total_iters p = 10" "bar_iters p = 2"
      by (simp_all add: p small_params_def init_parameters_def)
    have b: "0 < thr_cnt p" "unat (total_iters p) div nat (thr_cnt p) + unat (bar_iters p) \<le> 2 ^ 64" by (simp_all add: v)
    obtain res where "\<forall>a\<in>set (main_threads p). thread_func add_worker p a = Some (Done (res a))"
      using benchmark_results [OF c(1) b(1) c(2) b(2)] by blast
    from bench0_init [OF this] have r: "reach (bench_init add_worker p) bench_step (bench0 add_worker p)" by (rule reach_start)
    from maximal_run [of "bench0 add_worker p" "\<lambda>e. \<forall>u. e \<noteq> Disturb u" bench_step] obtain f where
      f: "f 0 = bench0 add_worker p" "\<forall>i. (\<exists>e. (\<forall>u. e \<noteq> Disturb u) \<and> bench_step (f i) e (f (Suc i))) \<or>
        f (Suc i) = f i \<and> \<not> (\<exists>e s'. (\<forall>u. e \<noteq> Disturb u) \<and> bench_step (f i) e s')" by blast
    from r f(1) have "reach (bench_init add_worker p) bench_step (f 0)" by simp
    from sync_benchmark_terminates [OF c(1) b(1) c(2) b(2) this f(2)] obtain n where n: "\<forall>t. todo (f n) t = []"
      "counter (f n) = (if sync_type p = 1 then of_nat (nat (thr_cnt p) *
        ((unat (total_iters p) div nat (thr_cnt p) + unat (bar_iters p) - 1) div unat (bar_iters p))) else 0)" by blast
    have "counter (f n) = (if sync_type p = 1 then 6 else 0)" using n(2) by (simp add: v)
    with n(1) have "todo (f n) = (\<lambda>t. []) \<and> counter (f n) = (if sync_type p = 1 then 6 else 0)" by blast
    then have "\<exists>n. todo (f n) = (\<lambda>t. []) \<and> counter (f n) = (if sync_type p = 1 then 6 else 0)" by (rule exI)
    with f(1) show ?thesis by (intro exI [of _ f] conjI)
  qed
  have two: "small_params = small_params\<lparr>sync_type := 2\<rparr>" "sync_type small_params = 2"
    by (simp_all add: small_params_def)
  have one: "sync_type (small_params\<lparr>sync_type := 1\<rparr>) = 1" by simp
  from run [OF refl, of 1] run [OF two(1)] show ?thesis unfolding one two(2) by simp
qed

end
