(* ===== verification/Spec2Isabelle.thy ===== *)
theory Spec2Isabelle imports Mutex_Props Barrier_Props Cond_Props Core_Props Sync_Run_Props begin

text \<open>
  REEact, a library that is preloaded into pthread programs (src/ in the repository root's
  Makefile). Its constructor finds out the topology of the machine and interposes the pthread
  functions; beside them it offers futex-based synchronization objects.

  \<^bold>\<open>The program's parts.\<close> src/reeact.c holds the constructor \<open>reeact_init\<close>: it allocates
  the data of the process, runs the initialization of the policy, asks
  src/utils/reeact_topology.c for the topology, prints it in debug builds, and initializes
  the pthread and gomp hooks; failures are logged by src/utils/reeact_log.c and the next step
  goes on. The hooks (src/pthread_hooks, src/hooks/gomp_hooks) replace the functions of
  libpthread for the whole program; each calls the policy (src/policies/reeact_policy.c),
  which by default calls the original function through a pointer from \<open>dlsym\<close>. The
  synchronization objects of src/fastsync (mutex, tree barrier, tree condition variable)
  are built on atomic builtins and the futex system call; the condition variable uses the
  mutex and its word.

  \<^bold>\<open>Theories and code.\<close>
  \<^item> Prelude: machine types, collections of rewrite rules, words, ranges, flattened arrays and
    decimal numbers. Transition: reachability, runs of executable step functions, and the
    contracts of the concurrent components as locales (\<open>invariant_of\<close>, \<open>simulates\<close>,
    \<open>specified\<close>, \<open>executable\<close>, \<open>descends\<close>), interpreted on the components' own systems.
  \<^item> Log (src/utils/reeact_log.c and the macros of reeact_utils.h): printf with the conversions
    the library uses, the prefix with its cached process id, the log functions. The log is a
    string in the state of Topology, Hooks and Core, so their theorems say what is written.
  \<^item> Atomics: the macros of src/fastsync/fastsync.h as functions from the old word to the
    returned value and the new word.
  \<^item> Mutex (src/fastsync/fastsync_mutex.c): \<open>mutex_instr\<close> is the code between two accesses of
    the mutex word, a program counter \<open>mpc\<close> stands for the place in the code, \<open>mstep\<close>
    interleaves the threads with the kernel's futex queue. Mutex_Inv: the invariant, the
    refinement map to an atomic lock, the measure of the steps inside the code. Mutex_Props:
    mutual exclusion, the meaning of the word, refinement, wake-ups, progress, results.
  \<^item> Barrier (src/fastsync/fastsync_barrier.c): the same for the recursive wait on a tree of
    barriers, with a stack of calls for each thread and the 64-bit view of the union
    (\<open>get_reset\<close>, \<open>set_reset\<close>). Barrier_Tree, Barrier_Inv, Barrier_Steps: the invariant in
    terms of the rounds each barrier has opened, over all steps. Barrier_Live, Barrier_Waits:
    who opens a complete round and who wakes its sleepers. Barrier_Serial: who returns
    PTHREAD_BARRIER_SERIAL_THREAD. Barrier_Progress: the measure of the steps inside the code
    and fair runs. Barrier_Spec: an abstract barrier that only counts arrivals and leavings,
    and the map that makes every step of the code a step of it; that the rounds do not mix is
    proved of the abstract barrier. Barrier_Props: the promises to
    the program, among them this refinement and that every round all threads of a tree have
    entered completes in every fair run.
  \<^item> Cond (src/fastsync/fastsync_cond.c): wait, signal, signal_count and broadcast on top of
    the states and steps of Mutex, the calls for parents on a stack, FUTEX_WAKE and
    FUTEX_REQUEUE as steps that move sleepers, over any number of condition variables and
    mutexes. Cond_Inv: the invariants of the mutexes, of the tree (\<open>use_child\<close>) and of the
    binding to a mutex. Cond_Seq: the sequence number, which an increment that is not atomic
    may set back, under the bound that it changes less than 2^32 times while a waiter is on
    its way to sleep or, for the tree, in all. Cond_Progress: the measure of the calls, on
    top of the one of the mutexes, also when clients unlock; what holds where nothing moves.
    Cond_Broadcast: what a broadcast at the root of a tree sets in motion. Cond_Spec: a monitor
    as POSIX describes it, with owners of mutexes and waiters that leave, sleep and are woken,
    each with the changes of the condition variable it still has to notice, and the map that
    makes every step of the code, in any tree, a step of it. Cond_Log: the
    messages of wait. Cond_Runs: example runs. Cond_Props: the promises, among them this
    refinement and that such a broadcast releases the whole tree.
  \<^item> Topology (src/utils/reeact_topology.c): a program over the output parameters and the open
    streams, with every array index, division, library call and log message checked;
    undefined behaviour and errors are values. Topology_Sysfs: on a described machine the
    function computes the arrays its header documents, and the lines the debug build logs.
    Topology_Types: weakest preconditions of these programs (\<open>wp\<close>), and what holds of the arrays after a successful call for any contents of the
    files. Topology_Conf: writing and reading the configuration file.
    Topology_Props: the promises, the error codes and the streams left open.
  \<^item> Hooks (src/pthread_hooks, src/policies, src/hooks/gomp_hooks): one definition per hook and
    per policy function, with the default policy and without, the pointers of the process as a
    record, the initialization. The locale \<open>passes_through\<close> of Hooks_Props is the contract of a
    hook; programs of calls get from the hooks what they get from the original functions, and
    the functions for libgomp leave it its own barriers, in programs that mix both kinds of calls
    (what gomp_barrier.c says of the changed libgomp is a parameter with its rule).
  \<^item> Core (src/reeact.c, src/reeact.h): the constructor and the destructor. Core_Print: what
    \<open>reeact_log_topology\<close> prints. Core_Props: what a program finds after the constructor and
    after the destructor, and the whole log.

  \<^item> Sync_Test (src/tests/sync_worker_lib.c and sync_v2.c): the benchmark, a client of the
    pthread functions. The worker functions as loops that may not return, the checks of the
    command line, the distribution of the iterations by main, and the thread function as the
    list of what a thread does. Sync_Test_Props: all iterations are worked off, the threads
    meet at the barrier equally often, exactly when a thread returns, what the workers compute
    and on which input they never do. Sync_System: the threads of the benchmark interleaved on
    the abstract barrier and the abstract monitor, the objects Barrier and Cond refine, with the
    spurious wake-ups POSIX allows, and the invariant of the whole. Sync_Work, Sync_Steps,
    Sync_Signals: every step keeps it. Sync_Deadlock: where nobody can go on all are done.
    Sync_Run: the start, the counter of the critical sections, the measure. Sync_Run_Props: the
    benchmark comes to its end under every schedule and loses no increment.

  \<^bold>\<open>Concurrency.\<close> A step is one access to shared memory or one system call; the number of
  threads, of barriers and condition variables, the shape of the trees and the interleaving
  are arbitrary. The builtins are taken as sequentially consistent, as they are on x86, and
  plain accesses as single steps in program order. Integers have the width of the code, so
  the sequence numbers of barriers wrap around; that is part of the barrier theorems. A
  FUTEX_REQUEUE with the limit INT_MAX moves every sleeper: there are fewer than 2^31
  threads. The union of the barrier is laid out for a little-endian machine. Progress is
  stated in two ways: no step of the code is possible only where the client owes one
  (\<open>no_deadlock\<close>, \<open>barrier_no_deadlock\<close>, \<open>cond_no_deadlock\<close>), and a measure falls with every
  step inside the code that changes the state, so that its runs come to rest
  (\<open>mutex_comes_to_rest\<close>, \<open>barrier_round_completes\<close> for fair runs, \<open>cond_comes_to_rest\<close>). The
  benchmark as a client is taken over the abstract objects, where a thread that spins on the
  start flag or sleeps takes no step (\<open>sync_benchmark_terminates\<close>).

  \<^bold>\<open>Loops and fuel.\<close> No definition uses fuel. The loops of the topology run over counts and
  are recursions on lists and numbers; the retry loops of the futex code are steps of the
  system. The loops of the benchmark are partial functions, \<open>None\<close> when they do not end.

  \<^bold>\<open>Parameters.\<close> Not under src/ and therefore arguments: the files, the environment and the
  allocator, \<open>sys_errlist\<close>, the list parser of common_toolx, \<open>dlopen\<close>, \<open>dlsym\<close>, the text of \<open>dlerror\<close>, the
  options as \<open>getopt_long\<close> hands them over and the original pthread functions. The laws used of
  them (the parser reads kernel lists; a symbol resolves) are hypotheses of the theorems and hold of concrete functions in the witnesses.

  \<^bold>\<open>Configuration.\<close> The flags of the Makefile are part of the model, set and not set:
  \<open>_FUTEX_BARRIER_\<close> (\<open>futex_barrier\<close>), \<open>_REEACT_DEBUG_\<close> (\<open>debug\<close>), \<open>_REEACT_DEFAULT_POLICY_\<close>
  (\<open>default_policy\<close>) and the \<open>_REEACT_DEFAULT_POLICY\<close> that only the code knows
  (\<open>policy_init_flag\<close>).

  \<^bold>\<open>Not modelled.\<close> The padding of the structures, the freeing of buffers, which changes nothing
  a caller can see, and the commented-out gomp hooks. Of the benchmark: the texts of its options
  and output, the clock and the failures of pthread_create and pthread_barrier_init. The build
  files only set the flags above. What is left of the source lines are comments, includes and
  prototypes.
\<close>

end
